(* ===== verification/Rust_Base.thy ===== *)
theory Rust_Base
  imports Main "HOL-Library.Word"
begin

text \<open>
  The prelude of the development: the Rust types the program uses (machine words, strings as
  lists of Unicode scalar values), the standard-library operations on them that several
  components call (saturating subtraction, \<open>iter_mut().find\<close>, \<open>retain\<close>), the locale of a
  machine with an invariant, which every component with a step function interprets, and the
  lemma collections the components add to.
\<close>

section \<open>Types\<close>

type_synonym u64 = "64 word"
type_synonym u32 = "32 word"

text \<open>A Rust \<open>String\<close> or \<open>&str\<close> is its list of Unicode scalar values.\<close>

type_synonym rstr = "nat list"

text \<open>An ASCII literal of the source.\<close>

definition lit :: "string \<Rightarrow> rstr" where
  "lit s = map of_char s"

lemma lit_Nil [simp]: "lit [] = []"
  and lit_Cons [simp]: "lit (c # cs) = of_char c # lit cs"
  by (simp_all add: lit_def)

section \<open>Lemma collections\<close>

named_theorems inv_intros \<open>preservation of a component's invariant by its operations\<close>
named_theorems frame_simps \<open>what an operation leaves unchanged\<close>

section \<open>Words\<close>

text \<open>Rust's \<open>saturating_sub\<close> on \<open>u64\<close>.\<close>

definition sat_sub :: "u64 \<Rightarrow> u64 \<Rightarrow> u64" where
  "sat_sub a b = (if a < b then 0 else a - b)"

lemma unat_sat_sub: "unat (sat_sub a b) = unat a - unat b"
  by (auto simp: sat_sub_def unat_sub word_less_nat_alt not_less word_le_nat_alt)

lemma sat_sub_self [simp]: "sat_sub a a = 0"
  by (simp add: sat_sub_def)

lemma sat_sub_less_iff: "sat_sub a b < w \<longleftrightarrow> unat a - unat b < unat w"
  by (simp add: word_less_nat_alt unat_sat_sub)

text \<open>A counter below its maximum does not wrap when it is incremented.\<close>

lemma succ_no_wrap:
  fixes y :: "'a::len word"
  assumes "y \<noteq> - 1"
  shows "y < y + 1" and "y + 1 \<noteq> 0"
proof -
  show "y + 1 \<noteq> 0" using assms by (simp add: add_eq_0_iff2)
  then show "y < y + 1" by (simp add: word_less_nat_alt unatSuc add.commute)
qed

lemma unat_of_nat_u64: "n < 2 ^ 64 \<Longrightarrow> unat (of_nat n :: u64) = n"
  by (simp add: unsigned_of_nat take_bit_nat_eq_self)

section \<open>Lists\<close>

text \<open>
  \<open>list.iter_mut().find(p)\<close> followed by an update through the reference: the first element
  that satisfies \<open>p\<close> is replaced, the rest of the list is untouched.
\<close>

fun update_first :: "('a \<Rightarrow> bool) \<Rightarrow> ('a \<Rightarrow> 'a) \<Rightarrow> 'a list \<Rightarrow> 'a list" where
  "update_first p f [] = []"
| "update_first p f (x # xs) = (if p x then f x # xs else x # update_first p f xs)"

lemma length_update_first [simp]: "length (update_first p f xs) = length xs"
  by (induction xs) auto

lemma update_first_none: "\<forall>x \<in> set xs. \<not> p x \<Longrightarrow> update_first p f xs = xs"
  by (induction xs) auto

lemma map_update_first:
  "(\<And>x. p x \<Longrightarrow> g (f x) = g x) \<Longrightarrow> map g (update_first p f xs) = map g xs"
  by (induction xs) auto

lemma find_update_first_same:
  "(\<And>x. p x \<Longrightarrow> p (f x)) \<Longrightarrow> List.find p (update_first p f xs) = map_option f (List.find p xs)"
  by (induction xs) auto

lemma find_update_first_other:
  "(\<And>x. p x \<Longrightarrow> \<not> q x \<and> \<not> q (f x)) \<Longrightarrow> List.find q (update_first p f xs) = List.find q xs"
  by (induction xs) auto

lemma find_append:
  "List.find p (xs @ ys) = (case List.find p xs of None \<Rightarrow> List.find p ys | Some x \<Rightarrow> Some x)"
  by (induction xs) auto

lemma find_Some_D: "List.find p xs = Some x \<Longrightarrow> p x \<and> x \<in> set xs"
  by (induction xs) (auto split: if_splits)

lemma find_NoneD: "List.find p xs = None \<Longrightarrow> x \<in> set xs \<Longrightarrow> \<not> p x"
  by (simp add: find_None_iff)

lemma distinct_singletonD:
  assumes "distinct xs" and "set xs = {q}"
  shows "xs = [q]"
proof (cases xs)
  case Nil
  with assms show ?thesis by simp
next
  case (Cons x ys)
  with assms have "x = q" "set ys \<subseteq> {q}" "q \<notin> set ys" by auto
  with Cons show ?thesis by (cases ys) auto
qed

lemma length_filter_mono:
  "(\<And>x. x \<in> set xs \<Longrightarrow> P x \<Longrightarrow> Q x) \<Longrightarrow> length (filter P xs) \<le> length (filter Q xs)"
  by (induction xs) auto

text \<open>An element of a concatenation is in the first or in the second part.\<close>

lemma append_element_cases:
  assumes "us @ vs = xs @ a # ys"
  obtains ws where "xs = us @ ws" "vs = ws @ a # ys" | ws where "us = xs @ a # ws"
proof -
  from assms obtain ws where "us = xs @ ws \<and> ws @ vs = a # ys \<or> us @ ws = xs \<and> vs = ws @ a # ys"
    by (auto simp: append_eq_append_conv2)
  then show thesis using that by (cases ws) auto
qed

section \<open>Machines: a step function, its runs and an invariant\<close>

text \<open>
  A component driven by events is a function from a state and an event to the next state; a
  run folds it over the events in the order in which they arrive.
\<close>

fun run :: "('s \<Rightarrow> 'e \<Rightarrow> 's) \<Rightarrow> 's \<Rightarrow> 'e list \<Rightarrow> 's" where
  "run step s [] = s"
| "run step s (e # es) = run step (step s e) es"

lemma run_append [simp]: "run step s (es @ es') = run step (run step s es) es'"
  by (induction es arbitrary: s) auto

text \<open>
  The guard \<open>ok\<close> says which events the environment may issue in which state; a machine
  without assumptions on its environment takes \<open>\<lambda>_ _. True\<close>.
\<close>

fun run_ok :: "('s \<Rightarrow> 'e \<Rightarrow> bool) \<Rightarrow> ('s \<Rightarrow> 'e \<Rightarrow> 's) \<Rightarrow> 's \<Rightarrow> 'e list \<Rightarrow> bool" where
  "run_ok ok step s [] = True"
| "run_ok ok step s (e # es) = (ok s e \<and> run_ok ok step (step s e) es)"

lemma run_ok_append:
  "run_ok ok step s (es @ es') \<longleftrightarrow> run_ok ok step s es \<and> run_ok ok step (run step s es) es'"
  by (induction es arbitrary: s) auto

lemma run_ok_True [simp]: "run_ok (\<lambda>_ _. True) step s es"
  by (induction es arbitrary: s) auto

lemma run_ok_mono:
  "(\<And>s e. ok s e \<Longrightarrow> ok' s e) \<Longrightarrow> run_ok ok step s es \<Longrightarrow> run_ok ok' step s es"
  by (induction es arbitrary: s) auto

locale invariant_machine =
  fixes step :: "'s \<Rightarrow> 'e \<Rightarrow> 's"
    and ok :: "'s \<Rightarrow> 'e \<Rightarrow> bool"
    and inv :: "'s \<Rightarrow> bool"
  assumes step_inv: "inv s \<Longrightarrow> ok s e \<Longrightarrow> inv (step s e)"
begin

lemma run_inv: "inv s \<Longrightarrow> run_ok ok step s es \<Longrightarrow> inv (run step s es)"
  by (induction es arbitrary: s) (auto intro: step_inv)

lemma run_ok_inv: "inv s \<Longrightarrow> run_ok ok step s es \<Longrightarrow> run_ok (\<lambda>s e. ok s e \<and> inv s) step s es"
  by (induction es arbitrary: s) (auto intro: step_inv)

text \<open>The invariant also holds at every state the run passes through.\<close>

lemma run_inv_prefix: "inv s \<Longrightarrow> run_ok ok step s (es @ es') \<Longrightarrow> inv (run step s es)"
  by (auto simp: run_ok_append intro: run_inv)

end

section \<open>Components of a machine\<close>

text \<open>
  A machine that owns a component drives it through the component's operations: an event of
  the machine performs a list of them. What is known of every run of the component then holds
  along every run of the machine.
\<close>

fun trace_of :: "('s \<Rightarrow> 'e \<Rightarrow> 'o list) \<Rightarrow> ('s \<Rightarrow> 'e \<Rightarrow> 's) \<Rightarrow> 's \<Rightarrow> 'e list \<Rightarrow> 'o list" where
  "trace_of ops step s [] = []"
| "trace_of ops step s (e # es) = ops s e @ trace_of ops step (step s e) es"

lemma trace_of_append:
  "trace_of ops step s (es @ es') = trace_of ops step s es @ trace_of ops step (run step s es) es'"
  by (induction es arbitrary: s) auto

locale machine_component =
  fixes step :: "'s \<Rightarrow> 'e \<Rightarrow> 's"
    and proj :: "'s \<Rightarrow> 'c"
    and cstep :: "'c \<Rightarrow> 'o \<Rightarrow> 'c"
    and ops :: "'s \<Rightarrow> 'e \<Rightarrow> 'o list"
  assumes step_proj: "proj (step s e) = run cstep (proj s) (ops s e)"
begin

lemma run_proj: "proj (run step s es) = run cstep (proj s) (trace_of ops step s es)"
  by (induction es arbitrary: s) (simp_all add: step_proj)

lemma run_component_ok:
  assumes "\<And>s e. ok s e \<Longrightarrow> run_ok cok cstep (proj s) (ops s e)"
    and "run_ok ok step s es"
  shows "run_ok cok cstep (proj s) (trace_of ops step s es)"
  using assms(2) by (induction es arbitrary: s) (auto simp: run_ok_append step_proj [symmetric] assms(1))

end

end
