(* ===== verification/Signal_Msg.thy ===== *)
theory Signal_Msg
  imports Rust_Base
begin

text \<open>
  The signaling messages of \<open>crates/shared/src/lib.rs\<close>. The JSON text of a message is made and
  read by serde and serde\_json, which are not part of the repository: where a component
  receives a text frame, the parser is an argument of the model.
\<close>

datatype signal_msg =
    Create
  | Reclaim rstr
  | Created rstr
  | Join rstr
  | PeerJoined
  | PeerLeft
  | RoomFull
  | RoomNotFound
  | Sdp rstr rstr  \<comment> \<open>the SDP text and its kind\<close>
  | Ice rstr

text \<open>What a peer may ask of the server; every other variant is written by the server only.\<close>

definition client_originated :: "signal_msg \<Rightarrow> bool" where
  "client_originated m \<longleftrightarrow>
     (case m of Create \<Rightarrow> True | Reclaim _ \<Rightarrow> True | Join _ \<Rightarrow> True
      | Sdp _ _ \<Rightarrow> True | Ice _ \<Rightarrow> True | _ \<Rightarrow> False)"

end
