(* ===== verification/Room_Registry.thy ===== *)
theory Room_Registry
  imports Rust_Base
begin

text \<open>
  The room registry of \<open>crates/server/src/rooms.rs\<close>: rooms with at most two peers and the
  reverse index from a peer to its room. A \<open>HashMap\<close> is a partial map, a \<open>Vec\<close> a list, and a
  method on \<open>&mut self\<close> returns its result with the new registry.
\<close>

section \<open>State and operations\<close>

type_synonym peer_id = u64

datatype join_outcome = RoomCreated rstr | RoomJoined | Full | NotFound

record room =
  peers :: "peer_id list"
  last_activity_ms :: u64

record room_registry =
  rooms :: "rstr \<rightharpoonup> room"
  peer_room :: "peer_id \<rightharpoonup> rstr"

definition registry_new :: room_registry where
  "registry_new = \<lparr>rooms = (\<lambda>_. None), peer_room = (\<lambda>_. None)\<rparr>"

definition create :: "peer_id \<Rightarrow> rstr \<Rightarrow> u64 \<Rightarrow> room_registry \<Rightarrow> join_outcome \<times> room_registry" where
  "create peer room_id now_ms r =
     (RoomCreated room_id,
      r\<lparr>rooms := (rooms r)(room_id \<mapsto> \<lparr>peers = [peer], last_activity_ms = now_ms\<rparr>),
        peer_room := (peer_room r)(peer \<mapsto> room_id)\<rparr>)"

definition join :: "peer_id \<Rightarrow> rstr \<Rightarrow> u64 \<Rightarrow> room_registry \<Rightarrow> join_outcome \<times> room_registry" where
  "join peer room_id now_ms r =
     (case rooms r room_id of
        None \<Rightarrow> (NotFound, r)
      | Some room \<Rightarrow>
          if length (peers room) \<ge> 2 then (Full, r)
          else (RoomJoined,
                r\<lparr>rooms := (rooms r)(room_id \<mapsto>
                     room\<lparr>peers := peers room @ [peer], last_activity_ms := now_ms\<rparr>),
                  peer_room := (peer_room r)(peer \<mapsto> room_id)\<rparr>))"

definition contains :: "rstr \<Rightarrow> room_registry \<Rightarrow> bool" where
  "contains room_id r \<longleftrightarrow> rooms r room_id \<noteq> None"

definition touch :: "rstr \<Rightarrow> u64 \<Rightarrow> room_registry \<Rightarrow> room_registry" where
  "touch room_id now_ms r =
     (case rooms r room_id of
        None \<Rightarrow> r
      | Some room \<Rightarrow> r\<lparr>rooms := (rooms r)(room_id \<mapsto> room\<lparr>last_activity_ms := now_ms\<rparr>)\<rparr>)"

definition reap_idle :: "u64 \<Rightarrow> u64 \<Rightarrow> room_registry \<Rightarrow> rstr list \<times> room_registry" where
  "reap_idle now_ms ttl_ms r = ([], r)"

definition partner :: "peer_id \<Rightarrow> room_registry \<Rightarrow> peer_id option" where
  "partner peer r =
     (case peer_room r peer of
        None \<Rightarrow> None
      | Some room_id \<Rightarrow>
          (case rooms r room_id of
             None \<Rightarrow> None
           | Some room \<Rightarrow> List.find (\<lambda>p. p \<noteq> peer) (peers room)))"

text \<open>
  \<open>remove\<close>: the entry of the reverse index goes first; each \<open>?\<close> of the source that finds
  nothing returns \<open>None\<close> with what has been changed so far.
\<close>

definition remove :: "peer_id \<Rightarrow> room_registry \<Rightarrow> peer_id option \<times> room_registry" where
  "remove peer r =
     (case peer_room r peer of
        None \<Rightarrow> (None, r)
      | Some room_id \<Rightarrow>
          let r1 = r\<lparr>peer_room := (peer_room r)(peer := None)\<rparr> in
          (case rooms r1 room_id of
             None \<Rightarrow> (None, r1)
           | Some room \<Rightarrow>
               let left = filter (\<lambda>p. p \<noteq> peer) (peers room);
                   other = (case left of [] \<Rightarrow> None | p # _ \<Rightarrow> Some p);
                   r2 = r1\<lparr>rooms := (rooms r1)(room_id \<mapsto> room\<lparr>peers := left\<rparr>)\<rparr>
               in (other,
                   if left = [] then r2\<lparr>rooms := (rooms r2)(room_id := None)\<rparr> else r2)))"

definition debug_room_of :: "peer_id \<Rightarrow> room_registry \<Rightarrow> (rstr \<times> peer_id list) option" where
  "debug_room_of peer r =
     (case peer_room r peer of
        None \<Rightarrow> None
      | Some room_id \<Rightarrow> map_option (\<lambda>room. (room_id, peers room)) (rooms r room_id))"

lemmas registry_defs =
  registry_new_def create_def join_def contains_def touch_def reap_idle_def partner_def
  remove_def debug_room_of_def


section \<open>Invariants\<close>

text \<open>
  What holds whatever the callers do: a room exists only while somebody is in it, and never
  with more than two entries.
\<close>

definition rooms_ok :: "room_registry \<Rightarrow> bool" where
  "rooms_ok r \<longleftrightarrow>
     (\<forall>room_id room. rooms r room_id = Some room \<longrightarrow> peers room \<noteq> [] \<and> length (peers room) \<le> 2)"

text \<open>
  What holds while no caller places a peer that is already in a room and no caller creates a
  room under a live id: the reverse index is exactly the membership relation.
\<close>

definition registry_wf :: "room_registry \<Rightarrow> bool" where
  "registry_wf r \<longleftrightarrow> rooms_ok r \<and>
     (\<forall>room_id room. rooms r room_id = Some room \<longrightarrow> distinct (peers room)) \<and>
     (\<forall>p room_id. peer_room r p = Some room_id \<longleftrightarrow>
        (\<exists>room. rooms r room_id = Some room \<and> p \<in> set (peers room)))"

text \<open>The operations a caller can issue, as data, and one step of the registry.\<close>

datatype registry_op =
    OpCreate peer_id rstr u64
  | OpJoin peer_id rstr u64
  | OpTouch rstr u64
  | OpReap u64 u64
  | OpRemove peer_id

fun registry_step :: "room_registry \<Rightarrow> registry_op \<Rightarrow> room_registry" where
  "registry_step r (OpCreate p room_id t) = snd (create p room_id t r)"
| "registry_step r (OpJoin p room_id t) = snd (join p room_id t r)"
| "registry_step r (OpTouch room_id t) = touch room_id t r"
| "registry_step r (OpReap t ttl) = snd (reap_idle t ttl r)"
| "registry_step r (OpRemove p) = snd (remove p r)"

fun disciplined_op :: "room_registry \<Rightarrow> registry_op \<Rightarrow> bool" where
  "disciplined_op r (OpCreate p room_id t) \<longleftrightarrow> peer_room r p = None \<and> \<not> contains room_id r"
| "disciplined_op r (OpJoin p room_id t) \<longleftrightarrow> peer_room r p = None"
| "disciplined_op r _ \<longleftrightarrow> True"

subsection \<open>The weak invariant\<close>

lemma rooms_okD:
  assumes "rooms_ok r" and "rooms r room_id = Some room"
  shows "peers room \<noteq> []" and "length (peers room) \<le> 2"
  using assms by (auto simp: rooms_ok_def)

lemma rooms_ok_new [inv_intros]: "rooms_ok registry_new"
  by (simp add: rooms_ok_def registry_new_def)

lemma rooms_ok_create [inv_intros]: "rooms_ok r \<Longrightarrow> rooms_ok (snd (create p room_id t r))"
  by (auto simp: rooms_ok_def create_def)

lemma rooms_ok_join [inv_intros]: "rooms_ok r \<Longrightarrow> rooms_ok (snd (join p room_id t r))"
  by (auto simp: rooms_ok_def join_def split: option.splits if_splits)

lemma rooms_ok_touch [inv_intros]: "rooms_ok r \<Longrightarrow> rooms_ok (touch room_id t r)"
  by (auto simp: rooms_ok_def touch_def split: option.splits if_splits)

lemma rooms_ok_reap_idle [inv_intros]: "rooms_ok r \<Longrightarrow> rooms_ok (snd (reap_idle t ttl r))"
  by (simp add: reap_idle_def)

lemma rooms_ok_remove [inv_intros]: "rooms_ok r \<Longrightarrow> rooms_ok (snd (remove p r))"
  by (auto simp: rooms_ok_def remove_def Let_def
      intro: order_trans [OF length_filter_le] split: option.splits if_splits)

interpretation weak: invariant_machine registry_step "\<lambda>_ _. True" rooms_ok
proof
  fix r e assume "rooms_ok r"
  then show "rooms_ok (registry_step r e)"
    by (cases e) (simp_all add: inv_intros)
qed

subsection \<open>The strong invariant\<close>

lemma registry_wf_rooms_ok: "registry_wf r \<Longrightarrow> rooms_ok r"
  by (simp add: registry_wf_def)

lemma registry_wf_distinct:
  "registry_wf r \<Longrightarrow> rooms r room_id = Some room \<Longrightarrow> distinct (peers room)"
  by (simp add: registry_wf_def)

lemma registry_wf_index:
  "registry_wf r \<Longrightarrow> peer_room r p = Some room_id \<longleftrightarrow>
     (\<exists>room. rooms r room_id = Some room \<and> p \<in> set (peers room))"
  by (simp add: registry_wf_def)

lemma registry_wf_new [inv_intros]: "registry_wf registry_new"
  using rooms_ok_new by (simp add: registry_wf_def registry_new_def)

lemma registry_wf_create [inv_intros]:
  assumes "registry_wf r" and "peer_room r p = None" and "\<not> contains room_id r"
  shows "registry_wf (snd (create p room_id t r))"
proof -
  have "rooms_ok (snd (create p room_id t r))"
    using assms(1) by (simp add: registry_wf_rooms_ok rooms_ok_create)
  moreover have "p \<notin> set (peers room)" if "rooms r i = Some room" for i room
    using registry_wf_index [OF assms(1), of p i] assms(2) that by auto
  ultimately show ?thesis
    using assms by (auto simp: registry_wf_def create_def contains_def)
qed

lemma registry_wf_join [inv_intros]:
  assumes "registry_wf r" and "peer_room r p = None"
  shows "registry_wf (snd (join p room_id t r))"
proof -
  have ok: "rooms_ok (snd (join p room_id t r))"
    using assms(1) by (simp add: registry_wf_rooms_ok rooms_ok_join)
  have free: "p \<notin> set (peers room)" if "rooms r i = Some room" for i room
    using registry_wf_index [OF assms(1), of p i] assms(2) that by auto
  show ?thesis
  proof (cases "fst (join p room_id t r) = RoomJoined")
    case False
    then have "snd (join p room_id t r) = r"
      by (auto simp: join_def split: option.splits)
    with assms(1) show ?thesis by simp
  next
    case True
    then obtain room where "rooms r room_id = Some room"
      by (auto simp: join_def split: option.splits)
    with True ok free assms show ?thesis
      by (auto simp: registry_wf_def join_def split: option.splits if_splits)
  qed
qed

lemma registry_wf_touch [inv_intros]: "registry_wf r \<Longrightarrow> registry_wf (touch room_id t r)"
  unfolding registry_wf_def
  by (auto simp: rooms_ok_touch) (auto simp: touch_def split: option.splits if_splits)

lemma registry_wf_reap_idle [inv_intros]: "registry_wf r \<Longrightarrow> registry_wf (snd (reap_idle t ttl r))"
  by (simp add: reap_idle_def)

lemma remove_placed:
  assumes "peer_room r p = Some room_id" and "rooms r room_id = Some room"
  defines "left \<equiv> filter (\<lambda>q. q \<noteq> p) (peers room)"
  shows "remove p r =
     ((case left of [] \<Rightarrow> None | q # _ \<Rightarrow> Some q),
      \<lparr>rooms = (rooms r)(room_id := (if left = [] then None else Some (room\<lparr>peers := left\<rparr>))),
       peer_room = (peer_room r)(p := None), \<dots> = room_registry.more r\<rparr>)"
  using assms by (simp add: remove_def Let_def)

lemma registry_wf_remove [inv_intros]:
  assumes wf: "registry_wf r"
  shows "registry_wf (snd (remove p r))"
proof (cases "peer_room r p")
  case None
  with wf show ?thesis by (simp add: remove_def)
next
  case (Some room_id)
  with registry_wf_index [OF wf] obtain room
    where room: "rooms r room_id = Some room" "p \<in> set (peers room)" by blast
  note removed = remove_placed [OF Some room(1)]
  have elsewhere: "i = room_id" if "rooms r i = Some room'" "p \<in> set (peers room')" for i room'
    using registry_wf_index [OF wf, of p i] that Some by auto
  have "rooms_ok (snd (remove p r))"
    using wf by (simp add: registry_wf_rooms_ok rooms_ok_remove)
  moreover have "distinct (peers room')" if "rooms (snd (remove p r)) i = Some room'" for i room'
    using that registry_wf_distinct [OF wf] room by (auto simp: removed split: if_splits)
  moreover have "peer_room (snd (remove p r)) q = Some i \<longleftrightarrow>
      (\<exists>room'. rooms (snd (remove p r)) i = Some room' \<and> q \<in> set (peers room'))" for q i
  proof (cases "q = p")
    case True
    then show ?thesis using elsewhere by (auto simp: removed)
  next
    case False
    then show ?thesis
      using registry_wf_index [OF wf, of q i] room by (auto simp: removed filter_empty_conv)
  qed
  ultimately show ?thesis unfolding registry_wf_def by blast
qed

interpretation strong: invariant_machine registry_step disciplined_op registry_wf
proof
  fix r e assume "registry_wf r" and "disciplined_op r e"
  then show "registry_wf (registry_step r e)"
    by (cases e) (simp_all add: inv_intros)
qed

section \<open>The interface the server relies on\<close>

text \<open>
  What \<open>ws.rs\<close> needs of a registry: a view of the rooms as lists of members (empty for a room
  that does not exist), an invariant, and what each operation does to the view.
\<close>

locale room_store =
  fixes view :: "'r \<Rightarrow> rstr \<Rightarrow> peer_id list"
    and wf :: "'r \<Rightarrow> bool"
    and create' :: "peer_id \<Rightarrow> rstr \<Rightarrow> u64 \<Rightarrow> 'r \<Rightarrow> join_outcome \<times> 'r"
    and join' :: "peer_id \<Rightarrow> rstr \<Rightarrow> u64 \<Rightarrow> 'r \<Rightarrow> join_outcome \<times> 'r"
    and partner' :: "peer_id \<Rightarrow> 'r \<Rightarrow> peer_id option"
    and remove' :: "peer_id \<Rightarrow> 'r \<Rightarrow> peer_id option \<times> 'r"
  assumes view_bound: "wf r \<Longrightarrow> length (view r i) \<le> 2"
    and view_distinct: "wf r \<Longrightarrow> distinct (view r i)"
    and view_disjoint: "wf r \<Longrightarrow> p \<in> set (view r i) \<Longrightarrow> p \<in> set (view r j) \<Longrightarrow> i = j"
    and partner_iff: "wf r \<Longrightarrow> partner' p r = Some q \<longleftrightarrow> p \<noteq> q \<and> (\<exists>i. {p, q} \<subseteq> set (view r i))"
    and wf_create: "wf r \<Longrightarrow> \<forall>i. p \<notin> set (view r i) \<Longrightarrow> view r i = [] \<Longrightarrow> wf (snd (create' p i t r))"
    and view_create: "view (snd (create' p i t r)) = (view r)(i := [p])"
    and fst_create: "fst (create' p i t r) = RoomCreated i"
    and wf_join: "wf r \<Longrightarrow> \<forall>i. p \<notin> set (view r i) \<Longrightarrow> wf (snd (join' p i t r))"
    and fst_join: "wf r \<Longrightarrow> fst (join' p i t r) =
           (if view r i = [] then NotFound else if length (view r i) \<ge> 2 then Full else RoomJoined)"
    and view_join: "view (snd (join' p i t r)) =
           (if fst (join' p i t r) = RoomJoined then (view r)(i := view r i @ [p]) else view r)"
    and wf_remove: "wf r \<Longrightarrow> wf (snd (remove' p r))"
    and fst_remove: "wf r \<Longrightarrow> fst (remove' p r) = partner' p r"
    and view_remove: "wf r \<Longrightarrow> view (snd (remove' p r)) = (\<lambda>i. filter (\<lambda>q. q \<noteq> p) (view r i))"
begin

lemma partner_sym: "wf r \<Longrightarrow> partner' p r = Some q \<Longrightarrow> partner' q r = Some p"
  by (auto simp: partner_iff)

lemma partner_not_self: "wf r \<Longrightarrow> partner' p r \<noteq> Some p"
  by (simp add: partner_iff)

lemma partner_None_unplaced: "wf r \<Longrightarrow> \<forall>i. p \<notin> set (view r i) \<Longrightarrow> partner' p r = None"
  by (cases "partner' p r") (auto simp: partner_iff)

lemma join_room_NotFound: "wf r \<Longrightarrow> view r i = [] \<Longrightarrow> fst (join' p i t r) = NotFound"
  by (simp add: fst_join)

lemma join_room_Full: "wf r \<Longrightarrow> length (view r i) \<ge> 2 \<Longrightarrow> fst (join' p i t r) = Full"
  by (auto simp: fst_join)

lemma two_members:
  assumes "wf r" and "p \<in> set (view r i)" and "q \<in> set (view r i)" and "p \<noteq> q"
  shows "set (view r i) = {p, q}"
proof -
  have "card (set (view r i)) \<le> 2"
    using view_bound [OF assms(1), of i] card_length [of "view r i"] by linarith
  moreover have "card {p, q} = 2" using assms(4) by simp
  ultimately show ?thesis
    using assms(2,3) by (metis card_seteq bot_least empty_subsetI finite_set insert_subset)
qed

lemma join_pairs:
  assumes "wf r" and free: "\<forall>i. p \<notin> set (view r i)" and "view r i = [q]"
  shows "partner' p (snd (join' p i t r)) = Some q"
proof -
  have joined: "fst (join' p i t r) = RoomJoined" using assms by (simp add: fst_join)
  moreover have "wf (snd (join' p i t r))" using assms by (blast intro: wf_join)
  moreover have "p \<noteq> q" using free [rule_format, of i] assms(3) by auto
  ultimately show ?thesis
    using assms by (auto simp: partner_iff view_join intro!: exI [of _ i])
qed

lemma remove_leaves_partner_alone:
  assumes "wf r" and "partner' p r = Some q"
  shows "partner' q (snd (remove' p r)) = None"
    and "\<exists>i. view (snd (remove' p r)) i = [q] \<and> q \<in> set (view r i)"
proof -
  from assms obtain i where i: "p \<noteq> q" "p \<in> set (view r i)" "q \<in> set (view r i)"
    by (auto simp: partner_iff)
  have pq: "set (view r i) = {p, q}" by (rule two_members [OF assms(1) i(2,3,1)])
  have wf': "wf (snd (remove' p r))" using assms(1) by (rule wf_remove)
  have "set (view (snd (remove' p r)) i) = {q}"
    using pq i(1) assms(1) by (auto simp: view_remove)
  moreover have "distinct (view (snd (remove' p r)) i)" by (rule view_distinct [OF wf'])
  ultimately have only: "view (snd (remove' p r)) i = [q]"
    by (blast intro: distinct_singletonD)
  then show "\<exists>i. view (snd (remove' p r)) i = [q] \<and> q \<in> set (view r i)" using i by blast
  show "partner' q (snd (remove' p r)) = None"
  proof (cases "partner' q (snd (remove' p r))")
    case (Some x)
    then obtain j where "q \<noteq> x" "q \<in> set (view (snd (remove' p r)) j)"
      "x \<in> set (view (snd (remove' p r)) j)" using wf' by (auto simp: partner_iff)
    moreover from this only have "j = i" using view_disjoint [OF wf', of q j i] by simp
    ultimately show ?thesis using only by simp
  qed simp
qed

end

definition members :: "room_registry \<Rightarrow> rstr \<Rightarrow> peer_id list" where
  "members r room_id = (case rooms r room_id of None \<Rightarrow> [] | Some room \<Rightarrow> peers room)"

lemma members_Some [simp]: "rooms r i = Some room \<Longrightarrow> members r i = peers room"
  by (simp add: members_def)

lemma members_index: "registry_wf r \<Longrightarrow> p \<in> set (members r i) \<longleftrightarrow> peer_room r p = Some i"
  by (cases "rooms r i") (auto simp: members_def registry_wf_index)

lemma unplaced_iff: "registry_wf r \<Longrightarrow> (\<forall>i. p \<notin> set (members r i)) \<longleftrightarrow> peer_room r p = None"
  by (simp add: members_index)

lemma contains_iff_members: "rooms_ok r \<Longrightarrow> contains i r \<longleftrightarrow> members r i \<noteq> []"
  by (auto simp: contains_def members_def dest: rooms_okD split: option.splits)

lemma members_remove:
  assumes wf: "registry_wf r"
  shows "members (snd (remove p r)) = (\<lambda>i. filter (\<lambda>q. q \<noteq> p) (members r i))"
proof
  fix i
  show "members (snd (remove p r)) i = filter (\<lambda>q. q \<noteq> p) (members r i)"
  proof (cases "peer_room r p")
    case None
    with members_index [OF wf, of p i] have "filter (\<lambda>q. q \<noteq> p) (members r i) = members r i"
      by (auto simp: filter_id_conv)
    with None show ?thesis by (simp add: remove_def)
  next
    case (Some j)
    then obtain room where "rooms r j = Some room" using registry_wf_index [OF wf] by blast
    moreover have "filter (\<lambda>q. q \<noteq> p) (members r i) = members r i" if "i \<noteq> j"
      using that Some members_index [OF wf, of p i] by (auto simp: filter_id_conv)
    ultimately show ?thesis
      using Some by (auto simp: remove_placed members_def)
  qed
qed

lemma partner_members:
  assumes wf: "registry_wf r"
  shows "partner p r = Some q \<longleftrightarrow> p \<noteq> q \<and> (\<exists>i. {p, q} \<subseteq> set (members r i))"
proof (cases "peer_room r p")
  case None
  then show ?thesis by (auto simp: partner_def members_index [OF wf])
next
  case (Some i)
  then obtain room where room: "rooms r i = Some room" "p \<in> set (peers room)"
    using registry_wf_index [OF wf] by blast
  have "partner p r = Some q \<longleftrightarrow> p \<noteq> q \<and> q \<in> set (peers room)"
    using rooms_okD(2) [OF registry_wf_rooms_ok [OF wf] room(1)] room Some
      registry_wf_distinct [OF wf room(1)]
    by (cases "peers room" rule: remdups_adj.cases) (auto simp: partner_def)
  with Some room show ?thesis by (auto simp: members_index [OF wf]) (metis members_Some members_index wf)+
qed

lemma fst_remove_partner:
  assumes wf: "registry_wf r"
  shows "fst (remove p r) = partner p r"
proof (cases "peer_room r p")
  case None
  then show ?thesis by (simp add: remove_def partner_def)
next
  case (Some i)
  then obtain room where room: "rooms r i = Some room" using registry_wf_index [OF wf] by blast
  have "(case filter P xs of [] \<Rightarrow> None | q # _ \<Rightarrow> Some q) = List.find P xs" for P and xs :: "u64 list"
    by (induction xs) auto
  with Some room show ?thesis by (simp add: remove_placed partner_def)
qed

interpretation reg: room_store members registry_wf create join partner remove
proof
  fix r p i t q j assume wf: "registry_wf r"
  show "length (members r i) \<le> 2" "distinct (members r i)"
    using wf rooms_okD(2) [OF registry_wf_rooms_ok [OF wf]] registry_wf_distinct [OF wf]
    by (auto simp: members_def split: option.splits)
  show "p \<in> set (members r i) \<Longrightarrow> p \<in> set (members r j) \<Longrightarrow> i = j"
    by (simp add: members_index [OF wf])
  show "\<forall>i. p \<notin> set (members r i) \<Longrightarrow> members r i = [] \<Longrightarrow> registry_wf (snd (create p i t r))"
    using wf registry_wf_create [OF wf, of p i t]
    by (simp add: unplaced_iff contains_iff_members registry_wf_rooms_ok)
  show "\<forall>i. p \<notin> set (members r i) \<Longrightarrow> registry_wf (snd (join p i t r))"
    using wf registry_wf_join [OF wf, of p i t] by (simp add: unplaced_iff)
  show "fst (join p i t r) =
     (if members r i = [] then NotFound else if length (members r i) \<ge> 2 then Full else RoomJoined)"
    using rooms_okD(1) [OF registry_wf_rooms_ok [OF wf]]
    by (auto simp: join_def members_def split: option.splits)
qed (auto simp: partner_members fst_remove_partner members_remove registry_wf_remove
    create_def join_def members_def split: option.splits)

section \<open>Refinement: the registry against a specification without a reverse index\<close>

text \<open>
  The specification knows only who is in which room, in the order of arrival. There is no
  reverse index, no time stamp and no early return: a peer that leaves is struck from every
  room.
\<close>

type_synonym membership = "rstr \<Rightarrow> peer_id list"

fun spec_step :: "membership \<Rightarrow> registry_op \<Rightarrow> membership" where
  "spec_step m (OpCreate p i t) = m(i := [p])"
| "spec_step m (OpJoin p i t) = (case m i of [q] \<Rightarrow> m(i := [q, p]) | _ \<Rightarrow> m)"
| "spec_step m (OpTouch i t) = m"
| "spec_step m (OpReap t ttl) = m"
| "spec_step m (OpRemove p) = (\<lambda>i. removeAll p (m i))"

definition spec_partners :: "membership \<Rightarrow> peer_id \<Rightarrow> peer_id \<Rightarrow> bool" where
  "spec_partners m p q \<longleftrightarrow> p \<noteq> q \<and> (\<exists>i. p \<in> set (m i) \<and> q \<in> set (m i))"

lemma removeAll_filter: "removeAll x xs = filter (\<lambda>y. y \<noteq> x) xs"
  by (induction xs) auto

lemma short_list_cases:
  assumes "length xs \<le> 2"
  obtains "xs = []" | x where "xs = [x]" | x y where "xs = [x, y]"
  using assms by (cases xs rule: remdups_adj.cases) auto

lemma members_join:
  assumes "registry_wf r"
  shows "members (snd (join p i t r)) = spec_step (members r) (OpJoin p i t)"
  by (rule short_list_cases [OF reg.view_bound [OF assms, of i]])
     (simp_all add: reg.view_join reg.fst_join [OF assms])

lemma members_touch: "members (touch i t r) = members r"
  by (auto simp: touch_def members_def fun_eq_iff split: option.splits)

lemma members_step:
  assumes "registry_wf r"
  shows "members (registry_step r e) = spec_step (members r) e"
  by (cases e)
     (simp_all add: reg.view_create members_join [OF assms] members_touch reap_idle_def
       reg.view_remove [OF assms] removeAll_filter del: spec_step.simps(2))

lemma members_run:
  "registry_wf r \<Longrightarrow> run_ok disciplined_op registry_step r es \<Longrightarrow>
     members (run registry_step r es) = run spec_step (members r) es"
proof (induction es arbitrary: r)
  case (Cons e es)
  then show ?case using strong.step_inv [of r e] by (simp add: members_step)
qed simp

lemma members_new: "members registry_new = (\<lambda>_. [])"
  by (simp add: members_def registry_new_def fun_eq_iff)

lemma registry_run_wf:
  "run_ok disciplined_op registry_step registry_new es \<Longrightarrow>
     registry_wf (run registry_step registry_new es)"
  by (rule strong.run_inv [OF registry_wf_new])

section \<open>Properties\<close>

text \<open>Whatever sequence of operations is applied to a new registry, every room that exists has one
  or two members: no room is ever left behind empty, and a third peer never gets in.\<close>

theorem rooms_always_one_or_two:
  "rooms (run registry_step registry_new ops) room_id = Some room \<Longrightarrow>
     length (peers room) \<in> {1, 2}"
proof -
  assume "rooms (run registry_step registry_new ops) room_id = Some room"
  moreover have "rooms_ok (run registry_step registry_new ops)"
    by (rule weak.run_inv [OF rooms_ok_new]) simp
  ultimately have "peers room \<noteq> []" "length (peers room) \<le> 2" by (auto dest: rooms_okD)
  then show ?thesis by (cases "peers room" rule: remdups_adj.cases) auto
qed

theorem rooms_always_one_or_two_witness:
  "length (peers \<lparr>peers = [1, 2], last_activity_ms = 7\<rparr>) \<in> {1, 2}"
  by (rule rooms_always_one_or_two
      [of "[OpCreate 1 (lit ''abc'') 5, OpJoin 2 (lit ''abc'') 7, OpJoin 3 (lit ''abc'') 9]" "lit ''abc''"])
     (simp add: registry_defs)

text \<open>(C6) The registry with its reverse index refines the specification that only records who is in
  which room: after any sequence of operations in which no peer is placed twice and no live id
  is created again, the members of every room are those of the specification, and
  \<open>partner\<close> returns exactly the other member of the peer's room.\<close>

theorem registry_refines_membership:
  assumes "run_ok disciplined_op registry_step registry_new ops"
  defines "r \<equiv> run registry_step registry_new ops"
    and "m \<equiv> run spec_step (\<lambda>_. []) ops"
  shows "members r = m \<and> (\<forall>p q. partner p r = Some q \<longleftrightarrow> spec_partners m p q)"
proof -
  have wf: "registry_wf r" using assms(1) unfolding r_def by (rule registry_run_wf)
  have "members r = m"
    using members_run [OF registry_wf_new assms(1)] by (simp add: r_def m_def members_new)
  with wf show ?thesis by (auto simp: reg.partner_iff spec_partners_def)
qed

definition demo_ops :: "registry_op list" where
  "demo_ops = [OpCreate 1 (lit ''abc'') 5, OpJoin 2 (lit ''abc'') 7, OpCreate 3 (lit ''x'') 9, OpRemove 3]"

lemma demo_ops_ok: "run_ok disciplined_op registry_step registry_new demo_ops"
  by (simp add: demo_ops_def registry_defs)

theorem registry_refines_membership_witness:
  "run_ok disciplined_op registry_step registry_new demo_ops \<and>
   partner 2 (run registry_step registry_new demo_ops) = Some 1 \<and>
   spec_partners (run spec_step (\<lambda>_. []) demo_ops) 2 1"
proof -
  have "partner 2 (run registry_step registry_new demo_ops) = Some 1"
    by (simp add: demo_ops_def registry_defs)
  then show ?thesis using demo_ops_ok registry_refines_membership [OF demo_ops_ok] by blast
qed

end
