(* ===== verification/Join_Limiter.thy ===== *)
theory Join_Limiter
  imports Rust_Base
begin

text \<open>
  The per-IP limiter of failed join attempts of \<open>crates/server/src/limiter.rs\<close>: a list of time
  stamps per address, pruned to the sliding window on every access. It is compared with a
  reference that never forgets a failure and counts those in the window.
\<close>

section \<open>State and operations\<close>

datatype ip_addr = V4 u32 | V6 "128 word"

record join_limiter =
  window_ms :: u64
  max_failures :: nat
  failures :: "ip_addr \<rightharpoonup> u64 list"

definition limiter_new :: "u64 \<Rightarrow> nat \<Rightarrow> join_limiter" where
  "limiter_new window max_fail = \<lparr>window_ms = window, max_failures = max_fail, failures = (\<lambda>_. None)\<rparr>"

definition prune :: "ip_addr \<Rightarrow> u64 \<Rightarrow> join_limiter \<Rightarrow> join_limiter" where
  "prune ip now_ms l =
     (case failures l ip of
        None \<Rightarrow> l
      | Some v \<Rightarrow>
          let v' = filter (\<lambda>t. sat_sub now_ms t < window_ms l) v in
          if v' = [] then l\<lparr>failures := (failures l)(ip := None)\<rparr>
          else l\<lparr>failures := (failures l)(ip \<mapsto> v')\<rparr>)"

definition allowed :: "ip_addr \<Rightarrow> u64 \<Rightarrow> join_limiter \<Rightarrow> bool \<times> join_limiter" where
  "allowed ip now_ms l =
     (let l1 = prune ip now_ms l in
      ((case failures l1 ip of None \<Rightarrow> 0 | Some v \<Rightarrow> length v) < max_failures l1, l1))"

definition record_failure :: "ip_addr \<Rightarrow> u64 \<Rightarrow> join_limiter \<Rightarrow> join_limiter" where
  "record_failure ip now_ms l =
     (let l1 = prune ip now_ms l in
      l1\<lparr>failures := (failures l1)(ip \<mapsto>
           (case failures l1 ip of None \<Rightarrow> [] | Some v \<Rightarrow> v) @ [now_ms])\<rparr>)"

lemmas limiter_defs = limiter_new_def prune_def allowed_def record_failure_def

section \<open>Live failures\<close>

text \<open>The failures of an address that count at a given time.\<close>

definition live_failures :: "join_limiter \<Rightarrow> ip_addr \<Rightarrow> u64 \<Rightarrow> u64 list" where
  "live_failures l ip now_ms =
     filter (\<lambda>t. sat_sub now_ms t < window_ms l) (case failures l ip of None \<Rightarrow> [] | Some v \<Rightarrow> v)"

definition live_count :: "join_limiter \<Rightarrow> ip_addr \<Rightarrow> u64 \<Rightarrow> nat" where
  "live_count l ip now_ms = length (live_failures l ip now_ms)"

lemma sat_sub_mono: "a \<le> b \<Longrightarrow> sat_sub b t < w \<Longrightarrow> sat_sub a t < w"
  unfolding sat_sub_less_iff word_le_nat_alt by linarith

lemma prune_config [frame_simps, simp]:
  "window_ms (prune ip t l) = window_ms l" "max_failures (prune ip t l) = max_failures l"
  by (auto simp: prune_def Let_def split: option.splits)

lemma prune_stored:
  "(case failures (prune ip t l) j of None \<Rightarrow> [] | Some v \<Rightarrow> v) =
     (if j = ip then live_failures l ip t else (case failures l j of None \<Rightarrow> [] | Some v \<Rightarrow> v))"
  by (auto simp: prune_def live_failures_def Let_def split: option.splits)

lemma live_failures_prune:
  assumes "t \<le> now"
  shows "live_failures (prune ip t l) j now = live_failures l j now"
proof -
  have "filter (\<lambda>s. sat_sub now s < window_ms l) (live_failures l ip t) = live_failures l ip now"
    unfolding live_failures_def filter_filter
    by (rule filter_cong [OF refl]) (use sat_sub_mono [OF assms] in blast)
  then show ?thesis
    unfolding live_failures_def [of "prune ip t l"] prune_stored prune_config
    by (cases "j = ip") (simp, simp add: live_failures_def [of l j])
qed

lemma allowed_iff: "fst (allowed ip t l) \<longleftrightarrow> live_count l ip t < max_failures l"
proof -
  have "(case failures (prune ip t l) ip of None \<Rightarrow> 0 | Some v \<Rightarrow> length v) =
      length (case failures (prune ip t l) ip of None \<Rightarrow> [] | Some v \<Rightarrow> v)"
    by (simp split: option.splits)
  then show ?thesis by (simp add: allowed_def Let_def prune_stored live_count_def)
qed

lemma snd_allowed: "snd (allowed ip t l) = prune ip t l"
  by (simp add: allowed_def Let_def)

lemma live_failures_record:
  assumes "t \<le> now"
  shows "live_failures (record_failure ip t l) j now =
     live_failures l j now @ (if j = ip \<and> sat_sub now t < window_ms l then [t] else [])"
proof (cases "j = ip")
  case False
  then have "live_failures (record_failure ip t l) j now = live_failures (prune ip t l) j now"
    by (simp add: record_failure_def live_failures_def Let_def)
  with False live_failures_prune [OF assms] show ?thesis by simp
next
  case True
  then have "live_failures (record_failure ip t l) j now =
      live_failures (prune ip t l) j now @ filter (\<lambda>s. sat_sub now s < window_ms l) [t]"
    by (simp add: record_failure_def live_failures_def Let_def)
  with True live_failures_prune [OF assms] show ?thesis by simp
qed

section \<open>The interface: a limiter as a count of live failures\<close>

text \<open>
  A limiter with window \<open>W\<close> and budget \<open>M\<close>, seen through the number of failures that count at
  a time. Asking does not change the count, recording adds one, and an attempt is allowed
  while the count is below the budget; the clock may not run backwards between the two calls.
\<close>

locale failure_limiter =
  fixes W :: u64 and M :: nat
    and cfg :: "'l \<Rightarrow> bool"
    and cnt :: "'l \<Rightarrow> ip_addr \<Rightarrow> u64 \<Rightarrow> nat"
    and allow :: "ip_addr \<Rightarrow> u64 \<Rightarrow> 'l \<Rightarrow> bool \<times> 'l"
    and fail :: "ip_addr \<Rightarrow> u64 \<Rightarrow> 'l \<Rightarrow> 'l"
  assumes cfg_allow: "cfg l \<Longrightarrow> cfg (snd (allow ip t l))"
    and cfg_fail: "cfg l \<Longrightarrow> cfg (fail ip t l)"
    and allow_iff: "cfg l \<Longrightarrow> fst (allow ip t l) \<longleftrightarrow> cnt l ip t < M"
    and cnt_allow: "cfg l \<Longrightarrow> t \<le> now \<Longrightarrow> cnt (snd (allow ip t l)) j now = cnt l j now"
    and cnt_fail: "cfg l \<Longrightarrow> t \<le> now \<Longrightarrow>
           cnt (fail ip t l) j now = cnt l j now + of_bool (j = ip \<and> sat_sub now t < W)"
begin

lemma allow_twice:
  "cfg l \<Longrightarrow> t \<le> now \<Longrightarrow> fst (allow ip now (snd (allow j t l))) = fst (allow ip now l)"
  by (simp add: allow_iff cfg_allow cnt_allow)

lemma fail_other_ip:
  "cfg l \<Longrightarrow> t \<le> now \<Longrightarrow> j \<noteq> ip \<Longrightarrow> fst (allow ip now (fail j t l)) = fst (allow ip now l)"
  by (simp add: allow_iff cfg_fail cnt_fail)

end

definition limiter_cfg :: "u64 \<Rightarrow> nat \<Rightarrow> join_limiter \<Rightarrow> bool" where
  "limiter_cfg W M l \<longleftrightarrow> window_ms l = W \<and> max_failures l = M"

lemma record_failure_config [frame_simps, simp]:
  "window_ms (record_failure ip t l) = window_ms l"
  "max_failures (record_failure ip t l) = max_failures l"
  by (simp_all add: record_failure_def Let_def)

interpretation lim: failure_limiter W M "limiter_cfg W M" live_count allowed record_failure for W M
  by unfold_locales
     (auto simp: limiter_cfg_def allowed_iff snd_allowed live_count_def live_failures_prune
       live_failures_record)

section \<open>Runs of the limiter\<close>

datatype limiter_op = Check ip_addr u64 | Fail ip_addr u64

fun op_time :: "limiter_op \<Rightarrow> u64" where
  "op_time (Check ip t) = t"
| "op_time (Fail ip t) = t"

fun limiter_step :: "join_limiter \<Rightarrow> limiter_op \<Rightarrow> join_limiter" where
  "limiter_step l (Check ip t) = snd (allowed ip t l)"
| "limiter_step l (Fail ip t) = record_failure ip t l"

text \<open>The reference: every failure ever recorded, oldest first, and the count in a window.\<close>

fun failure_log :: "limiter_op list \<Rightarrow> (ip_addr \<times> u64) list" where
  "failure_log [] = []"
| "failure_log (Check ip t # ops) = failure_log ops"
| "failure_log (Fail ip t # ops) = (ip, t) # failure_log ops"

definition recent :: "u64 \<Rightarrow> ip_addr \<Rightarrow> u64 \<Rightarrow> (ip_addr \<times> u64) list \<Rightarrow> (ip_addr \<times> u64) list" where
  "recent W ip now log = filter (\<lambda>(j, t). j = ip \<and> sat_sub now t < W) log"

lemma recent_append: "recent W ip now (xs @ ys) = recent W ip now xs @ recent W ip now ys"
  by (simp add: recent_def)

lemma failure_log_append: "failure_log (xs @ ys) = failure_log xs @ failure_log ys"
  by (induction xs rule: failure_log.induct) auto

lemma limiter_cfg_step: "limiter_cfg W M l \<Longrightarrow> limiter_cfg W M (limiter_step l e)"
  by (cases e) (auto intro: lim.cfg_allow lim.cfg_fail)

interpretation limiter_machine: invariant_machine limiter_step "\<lambda>_ _. True" "limiter_cfg W M" for W M
  by unfold_locales (rule limiter_cfg_step)

lemma limiter_cfg_new: "limiter_cfg W M (limiter_new W M)"
  by (simp add: limiter_cfg_def limiter_new_def)

lemma limiter_cfg_run: "limiter_cfg W M (run limiter_step (limiter_new W M) ops)"
  by (rule limiter_machine.run_inv [OF limiter_cfg_new]) simp

lemma live_count_run:
  "limiter_cfg W M l \<Longrightarrow> \<forall>e \<in> set ops. op_time e \<le> now \<Longrightarrow>
     live_count (run limiter_step l ops) ip now =
       live_count l ip now + length (recent W ip now (failure_log ops))"
proof (induction ops arbitrary: l)
  case (Cons e ops)
  have "live_count (limiter_step l e) ip now =
      live_count l ip now + length (recent W ip now (failure_log [e]))"
    using Cons.prems by (cases e) (auto simp: lim.cnt_allow lim.cnt_fail recent_def)
  then show ?case
    using Cons limiter_cfg_step [OF Cons.prems(1)] failure_log_append [of "[e]" ops]
    by (simp add: recent_append)
qed (simp add: recent_def)

lemma live_count_new [simp]: "live_count (limiter_new W M) ip now = 0"
  by (simp add: live_count_def live_failures_def limiter_new_def)

text \<open>The server records a failure only for an attempt it has just allowed at the same time.\<close>

fun guarded :: "join_limiter \<Rightarrow> limiter_op \<Rightarrow> bool" where
  "guarded l (Check ip t) = True"
| "guarded l (Fail ip t) = fst (allowed ip t l)"

section \<open>Properties\<close>

text \<open>(C28) As long as the clock does not run backwards, the decisions of the pruned limiter are those
  of a limiter that never forgets: an attempt is allowed exactly when fewer than the budget of
  the failures recorded for that address lie within the window.\<close>

theorem allowed_iff_recent_failures:
  assumes "\<forall>e \<in> set ops. op_time e \<le> now"
  shows "fst (allowed ip now (run limiter_step (limiter_new W M) ops)) \<longleftrightarrow>
     length (recent W ip now (failure_log ops)) < M"
  using live_count_run [OF limiter_cfg_new assms] by (simp add: lim.allow_iff [OF limiter_cfg_run])

theorem allowed_iff_recent_failures_witness:
  "\<not> fst (allowed (V4 7) 1002 (run limiter_step (limiter_new 1000 2)
        [Fail (V4 7) 1, Check (V4 7) 500, Fail (V4 8) 600, Fail (V4 7) 1000, Fail (V4 7) 1001]))"
  by (subst allowed_iff_recent_failures)
     (simp_all add: recent_def sat_sub_def)

text \<open>The rate limit itself: while every recorded failure follows an allowed attempt at the same
  time and the clock does not run backwards, no window of the configured length holds more
  than the budget of failures of one address.\<close>

theorem failures_per_window_bounded:
  assumes "run_ok guarded limiter_step (limiter_new W M) ops"
    and "sorted (map op_time ops)"
  shows "length (filter (\<lambda>(j, t). j = ip \<and> a \<le> t \<and> t - a < W) (failure_log ops)) \<le> M"
  using assms
proof (induction ops rule: rev_induct)
  case (snoc e ops)
  let ?in = "\<lambda>(j, t). j = ip \<and> a \<le> t \<and> t - a < W"
  from snoc have IH: "length (filter ?in (failure_log ops)) \<le> M"
    by (simp add: run_ok_append sorted_append)
  show ?case
  proof (cases "\<exists>t. e = Fail ip t \<and> a \<le> t \<and> t - a < W")
    case False
    then have "filter ?in (failure_log [e]) = []" by (cases e) auto
    with IH show ?thesis by (simp add: failure_log_append)
  next
    case True
    then obtain t where e: "e = Fail ip t" and t: "a \<le> t" "t - a < W" by blast
    have past: "\<forall>e \<in> set ops. op_time e \<le> t"
      using snoc.prems(2) e by (auto simp: sorted_append)
    have "length (filter ?in (failure_log ops)) \<le> length (recent W ip t (failure_log ops))"
      unfolding recent_def
    proof (rule length_filter_mono)
      fix x assume "?in x"
      then obtain s where x: "x = (ip, s)" and "a \<le> s" by (cases x) auto
      with t have "sat_sub t s \<le> t - a"
        by (simp add: word_le_nat_alt unat_sat_sub unat_sub)
      with t x show "case x of (j, s) \<Rightarrow> j = ip \<and> sat_sub t s < W" by simp
    qed
    also have "\<dots> < M"
      using snoc.prems(1) e allowed_iff_recent_failures [OF past, of ip W M]
      by (simp add: run_ok_append)
    finally show ?thesis using e t by (simp add: failure_log_append)
  qed
qed simp

definition demo_limiter_ops :: "limiter_op list" where
  "demo_limiter_ops =
     [Check (V4 7) 10, Fail (V4 7) 10, Fail (V4 7) 500, Check (V4 7) 600, Fail (V4 7) 1010]"

theorem failures_per_window_bounded_witness:
  "length (filter (\<lambda>(j, t). j = V4 7 \<and> 10 \<le> t \<and> t - 10 < 1000) (failure_log demo_limiter_ops)) = 2 \<and>
   run_ok guarded limiter_step (limiter_new 1000 2) demo_limiter_ops \<and>
   length (filter (\<lambda>(j, t). j = V4 7 \<and> 10 \<le> t \<and> t - 10 < 1000) (failure_log demo_limiter_ops)) \<le> 2"
proof -
  have "run_ok guarded limiter_step (limiter_new 1000 2) demo_limiter_ops"
    by (simp add: demo_limiter_ops_def limiter_defs sat_sub_def)
  moreover from this have
    "length (filter (\<lambda>(j, t). j = V4 7 \<and> 10 \<le> t \<and> t - 10 < 1000) (failure_log demo_limiter_ops)) \<le> 2"
    by (rule failures_per_window_bounded) (simp add: demo_limiter_ops_def)
  ultimately show ?thesis by (simp add: demo_limiter_ops_def)
qed

fun op_ip :: "limiter_op \<Rightarrow> ip_addr" where
  "op_ip (Check ip t) = ip"
| "op_ip (Fail ip t) = ip"

lemma prune_other [simp]: "j \<noteq> ip \<Longrightarrow> failures (prune ip t l) j = failures l j"
  by (auto simp: prune_def Let_def split: option.splits)

lemma limiter_step_other: "op_ip e \<noteq> ip \<Longrightarrow> failures (limiter_step l e) ip = failures l ip"
  by (cases e) (auto simp: snd_allowed record_failure_def Let_def)

text \<open>The entry of an address is only ever removed by a later call for the same address: whatever
  the other addresses do, and however late, the failures recorded for an address that does not
  come back stay in the map, which therefore grows with the number of addresses seen.\<close>

theorem silent_addresses_never_expire:
  "\<forall>e \<in> set ops. op_ip e \<noteq> ip \<Longrightarrow>
     failures (run limiter_step (record_failure ip t l) ops) ip \<noteq> None"
proof -
  have "\<forall>e \<in> set ops. op_ip e \<noteq> ip \<Longrightarrow> failures (run limiter_step l ops) ip = failures l ip" for l
    by (induction ops arbitrary: l) (simp_all add: limiter_step_other)
  then show "\<forall>e \<in> set ops. op_ip e \<noteq> ip \<Longrightarrow> ?thesis"
    by (simp add: record_failure_def Let_def)
qed

theorem silent_addresses_never_expire_witness:
  "failures (run limiter_step (record_failure (V4 1) 0 (limiter_new 60000 30))
      [Check (V4 2) 60001, Fail (V4 2) 999999999, Check (V4 3) (-1)]) (V4 1) \<noteq> None"
  by (rule silent_addresses_never_expire) simp

end
