(* ===== verification/Signal_Server.thy ===== *)
theory Signal_Server
  imports Signal_Msg Room_Registry Join_Limiter
begin

text \<open>
  The signaling server of \<open>crates/server/src/ws.rs\<close>: the shared state, the handler of one inbound
  message on each of its branches, and the life of a connection from upgrade to clean-up. Here
  a handler runs to its end before the next event. The value of the clock and the id that
  \<open>gen_room_id\<close> returns come with the event; the JSON parser is a parameter.
\<close>

section \<open>Constants and shared state\<close>

definition JOIN_WINDOW_MS :: u64 where "JOIN_WINDOW_MS = 60000"

definition JOIN_MAX_FAILURES :: nat where "JOIN_MAX_FAILURES = 30"

definition ROOM_ALPHABET :: rstr where
  "ROOM_ALPHABET = lit ''abcdefghjkmnpqrstuvwxyz23456789''"

text \<open>\<open>nanoid!(6, &ROOM_ALPHABET)\<close>; the generator is a parameter, with its source of randomness.\<close>

definition gen_room_id :: "('rnd \<Rightarrow> rstr \<Rightarrow> nat \<Rightarrow> rstr) \<Rightarrow> 'rnd \<Rightarrow> rstr" where
  "gen_room_id nanoid rnd = nanoid rnd ROOM_ALPHABET 6"

text \<open>
  \<open>senders\<close> maps a peer to the messages that are in its outbound channel and not yet written
  to its socket, oldest first.
\<close>

record app_state =
  registry :: room_registry
  senders :: "peer_id \<rightharpoonup> signal_msg list"
  next_id :: u64
  limiter :: join_limiter

definition app_new :: app_state where
  "app_new = \<lparr>registry = registry_new, senders = (\<lambda>_. None), next_id = 1,
     limiter = limiter_new JOIN_WINDOW_MS JOIN_MAX_FAILURES\<rparr>"

definition send_to :: "peer_id \<Rightarrow> signal_msg \<Rightarrow> app_state \<Rightarrow> app_state" where
  "send_to peer msg st =
     (case senders st peer of
        None \<Rightarrow> st
      | Some q \<Rightarrow> st\<lparr>senders := (senders st)(peer \<mapsto> q @ [msg])\<rparr>)"

section \<open>The handler of an inbound message\<close>

definition handle_create :: "app_state \<Rightarrow> peer_id \<Rightarrow> u64 \<Rightarrow> rstr \<Rightarrow> app_state" where
  "handle_create st peer now room_id =
     (let (outcome, r) = create peer room_id now (registry st);
          st1 = st\<lparr>registry := r\<rparr>
      in case outcome of RoomCreated room \<Rightarrow> send_to peer (Created room) st1 | _ \<Rightarrow> st1)"

definition handle_reclaim :: "app_state \<Rightarrow> peer_id \<Rightarrow> ip_addr \<Rightarrow> u64 \<Rightarrow> rstr \<Rightarrow> app_state" where
  "handle_reclaim st peer ip now room =
     (let (ok, l) = allowed ip now (limiter st);
          st1 = st\<lparr>limiter := l\<rparr>
      in if \<not> ok then send_to peer RoomNotFound st1
         else if contains room (registry st1) then
           send_to peer RoomNotFound (st1\<lparr>limiter := record_failure ip now (limiter st1)\<rparr>)
         else
           let (outcome, r) = create peer room now (registry st1);
               st2 = st1\<lparr>registry := r\<rparr>
           in case outcome of RoomCreated room \<Rightarrow> send_to peer (Created room) st2 | _ \<Rightarrow> st2)"

definition handle_join :: "app_state \<Rightarrow> peer_id \<Rightarrow> ip_addr \<Rightarrow> u64 \<Rightarrow> rstr \<Rightarrow> app_state" where
  "handle_join st peer ip now room =
     (let (ok, l) = allowed ip now (limiter st);
          st1 = st\<lparr>limiter := l\<rparr>
      in if \<not> ok then send_to peer RoomNotFound st1
         else
           let (outcome, r) = join peer room now (registry st1);
               st2 = st1\<lparr>registry := r\<rparr>
           in case outcome of
                RoomJoined \<Rightarrow>
                  (case partner peer (registry st2) of
                     Some p \<Rightarrow> send_to p PeerJoined st2
                   | None \<Rightarrow> st2)
              | Full \<Rightarrow>
                  send_to peer RoomFull (st2\<lparr>limiter := record_failure ip now (limiter st2)\<rparr>)
              | NotFound \<Rightarrow>
                  send_to peer RoomNotFound (st2\<lparr>limiter := record_failure ip now (limiter st2)\<rparr>)
              | RoomCreated _ \<Rightarrow> st2)"

definition handle_relay :: "app_state \<Rightarrow> peer_id \<Rightarrow> signal_msg \<Rightarrow> app_state" where
  "handle_relay st peer msg =
     (case partner peer (registry st) of
        Some p \<Rightarrow> send_to p msg st
      | None \<Rightarrow> st)"

fun handle_message ::
  "app_state \<Rightarrow> peer_id \<Rightarrow> ip_addr \<Rightarrow> u64 \<Rightarrow> rstr \<Rightarrow> signal_msg \<Rightarrow> app_state" where
  "handle_message st peer ip now fresh Create = handle_create st peer now fresh"
| "handle_message st peer ip now fresh (Reclaim room) = handle_reclaim st peer ip now room"
| "handle_message st peer ip now fresh (Join room) = handle_join st peer ip now room"
| "handle_message st peer ip now fresh (Sdp sdp kind) = handle_relay st peer (Sdp sdp kind)"
| "handle_message st peer ip now fresh (Ice candidate) = handle_relay st peer (Ice candidate)"
| "handle_message st peer ip now fresh _ = st"

section \<open>The life of a connection\<close>

text \<open>What the WebSocket stream can yield: a text frame, a close frame, any other frame.\<close>

datatype frame = TextFrame rstr | CloseFrame | OtherFrame

text \<open>
  The running server: the shared state, the open connections with their source address, and
  what has been written to the sockets so far (the log of the model's environment).
\<close>

record server =
  app :: app_state
  conns :: "peer_id \<rightharpoonup> ip_addr"
  wire :: "(peer_id \<times> signal_msg) list"

definition server_new :: server where
  "server_new = \<lparr>app = app_new, conns = (\<lambda>_. None), wire = []\<rparr>"

text \<open>The head of \<open>handle_socket\<close>: \<open>fetch_add\<close> yields the old value and wraps.\<close>

definition connect_socket :: "ip_addr \<Rightarrow> server \<Rightarrow> server" where
  "connect_socket ip s =
     (let st = app s; peer_id = next_id st in
      s\<lparr>app := st\<lparr>next_id := peer_id + 1, senders := (senders st)(peer_id \<mapsto> [])\<rparr>,
        conns := (conns s)(peer_id \<mapsto> ip)\<rparr>)"

text \<open>The tail of \<open>handle_socket\<close>, after one of the two tasks has ended.\<close>

definition cleanup :: "peer_id \<Rightarrow> app_state \<Rightarrow> app_state" where
  "cleanup peer st =
     (let (other, r) = remove peer (registry st);
          st1 = st\<lparr>registry := r\<rparr>;
          st2 = (case other of Some p \<Rightarrow> send_to p PeerLeft st1 | None \<Rightarrow> st1)
      in st2\<lparr>senders := (senders st2)(peer := None)\<rparr>)"

definition disconnect :: "peer_id \<Rightarrow> server \<Rightarrow> server" where
  "disconnect peer s = s\<lparr>app := cleanup peer (app s), conns := (conns s)(peer := None)\<rparr>"

text \<open>One frame in \<open>recv_task\<close>.\<close>

fun recv_frame ::
  "(rstr \<Rightarrow> signal_msg option) \<Rightarrow> peer_id \<Rightarrow> ip_addr \<Rightarrow> u64 \<Rightarrow> rstr \<Rightarrow> frame \<Rightarrow> server \<Rightarrow> server" where
  "recv_frame parse peer ip now fresh (TextFrame text) s =
     (case parse text of
        None \<Rightarrow> s
      | Some parsed \<Rightarrow> s\<lparr>app := handle_message (app s) peer ip now fresh parsed\<rparr>)"
| "recv_frame parse peer ip now fresh CloseFrame s = disconnect peer s"
| "recv_frame parse peer ip now fresh OtherFrame s = s"

text \<open>
  One message in \<open>send_task\<close>: taken from the channel and written to the socket, or, when the
  socket refuses it, the end of the connection.
\<close>

definition drain :: "peer_id \<Rightarrow> bool \<Rightarrow> server \<Rightarrow> server" where
  "drain peer sent s =
     (case senders (app s) peer of
        Some (m # ms) \<Rightarrow>
          if sent then
            s\<lparr>app := (app s)\<lparr>senders := (senders (app s))(peer \<mapsto> ms)\<rparr>, wire := wire s @ [(peer, m)]\<rparr>
          else disconnect peer s
      | _ \<Rightarrow> s)"

datatype server_event =
    Connect ip_addr
  | Inbound peer_id frame u64 rstr  \<comment> \<open>the frame, the clock and the id \<open>gen_room_id\<close> would return\<close>
  | StreamEnd peer_id               \<comment> \<open>the stream ends or fails\<close>
  | Drain peer_id bool

fun server_step :: "(rstr \<Rightarrow> signal_msg option) \<Rightarrow> server \<Rightarrow> server_event \<Rightarrow> server" where
  "server_step parse s (Connect ip) = connect_socket ip s"
| "server_step parse s (Inbound peer fr now fresh) =
     (case conns s peer of
        None \<Rightarrow> s
      | Some ip \<Rightarrow> recv_frame parse peer ip now fresh fr s)"
| "server_step parse s (StreamEnd peer) =
     (if conns s peer = None then s else disconnect peer s)"
| "server_step parse s (Drain peer sent) =
     (if conns s peer = None then s else drain peer sent s)"

section \<open>What each step does to the parts of the state\<close>

lemma send_to_frame [frame_simps, simp]:
  "registry (send_to p m st) = registry st"
  "limiter (send_to p m st) = limiter st"
  "next_id (send_to p m st) = next_id st"
  by (simp_all add: send_to_def split: option.splits)

lemma senders_send_to:
  "senders (send_to p m st) q =
     (if q = p then map_option (\<lambda>l. l @ [m]) (senders st p) else senders st q)"
  by (simp add: send_to_def split: option.splits)

lemma dom_senders_send_to [frame_simps, simp]: "dom (senders (send_to p m st)) = dom (senders st)"
  by (auto simp: dom_def senders_send_to split: if_splits)

lemmas handler_defs =
  handle_create_def handle_reclaim_def handle_join_def handle_relay_def

text \<open>The registry operations and the limiter operations that one message performs.\<close>

fun msg_registry_ops ::
  "app_state \<Rightarrow> peer_id \<Rightarrow> ip_addr \<Rightarrow> u64 \<Rightarrow> rstr \<Rightarrow> signal_msg \<Rightarrow> registry_op list" where
  "msg_registry_ops st peer ip now fresh Create = [OpCreate peer fresh now]"
| "msg_registry_ops st peer ip now fresh (Reclaim room) =
     (if fst (allowed ip now (limiter st)) \<and> \<not> contains room (registry st)
      then [OpCreate peer room now] else [])"
| "msg_registry_ops st peer ip now fresh (Join room) =
     (if fst (allowed ip now (limiter st)) then [OpJoin peer room now] else [])"
| "msg_registry_ops st peer ip now fresh _ = []"

fun msg_limiter_ops ::
  "app_state \<Rightarrow> ip_addr \<Rightarrow> u64 \<Rightarrow> peer_id \<Rightarrow> signal_msg \<Rightarrow> limiter_op list" where
  "msg_limiter_ops st ip now peer (Reclaim room) =
     Check ip now #
     (if fst (allowed ip now (limiter st)) \<and> contains room (registry st) then [Fail ip now] else [])"
| "msg_limiter_ops st ip now peer (Join room) =
     Check ip now #
     (if fst (allowed ip now (limiter st)) \<and> fst (join peer room now (registry st)) \<in> {Full, NotFound}
      then [Fail ip now] else [])"
| "msg_limiter_ops st ip now peer _ = []"

lemma registry_handle_message:
  "registry (handle_message st peer ip now fresh m) =
     run registry_step (registry st) (msg_registry_ops st peer ip now fresh m)"
  by (cases m) (simp_all add: handler_defs Let_def case_prod_unfold
      split: join_outcome.splits option.splits)

lemma limiter_handle_message:
  "limiter (handle_message st peer ip now fresh m) =
     run limiter_step (limiter st) (msg_limiter_ops st ip now peer m)"
  by (cases m) (simp_all add: handler_defs Let_def case_prod_unfold snd_allowed
      split: join_outcome.splits option.splits)

lemma next_id_handle_message [simp]: "next_id (handle_message st peer ip now fresh m) = next_id st"
  by (cases m) (simp_all add: handler_defs Let_def case_prod_unfold
      split: join_outcome.splits option.splits)

lemma dom_senders_handle_message [simp]:
  "dom (senders (handle_message st peer ip now fresh m)) = dom (senders st)"
  by (cases m) (simp_all add: handler_defs Let_def case_prod_unfold
      split: join_outcome.splits option.splits)

lemma cleanup_frame [simp]:
  "registry (cleanup peer st) = snd (remove peer (registry st))"
  "limiter (cleanup peer st) = limiter st"
  "next_id (cleanup peer st) = next_id st"
  "dom (senders (cleanup peer st)) = dom (senders st) - {peer}"
  by (auto simp: cleanup_def Let_def case_prod_unfold split: option.splits)

text \<open>The same for one event of the running server.\<close>

fun event_msg ::
  "(rstr \<Rightarrow> signal_msg option) \<Rightarrow> server \<Rightarrow> server_event \<Rightarrow>
     (peer_id \<times> ip_addr \<times> u64 \<times> rstr \<times> signal_msg) option" where
  "event_msg parse s (Inbound peer (TextFrame text) now fresh) =
     (case conns s peer of
        None \<Rightarrow> None
      | Some ip \<Rightarrow> map_option (\<lambda>m. (peer, ip, now, fresh, m)) (parse text))"
| "event_msg parse s _ = None"

fun closes :: "server \<Rightarrow> server_event \<Rightarrow> peer_id option" where
  "closes s (Inbound peer CloseFrame now fresh) = (if conns s peer = None then None else Some peer)"
| "closes s (StreamEnd peer) = (if conns s peer = None then None else Some peer)"
| "closes s (Drain peer sent) =
     (if conns s peer = None \<or> sent then None
      else case senders (app s) peer of Some (m # ms) \<Rightarrow> Some peer | _ \<Rightarrow> None)"
| "closes s _ = None"

definition event_registry_ops ::
  "(rstr \<Rightarrow> signal_msg option) \<Rightarrow> server \<Rightarrow> server_event \<Rightarrow> registry_op list" where
  "event_registry_ops parse s e =
     (case event_msg parse s e of
        Some (peer, ip, now, fresh, m) \<Rightarrow> msg_registry_ops (app s) peer ip now fresh m
      | None \<Rightarrow> (case closes s e of Some peer \<Rightarrow> [OpRemove peer] | None \<Rightarrow> []))"

definition event_limiter_ops ::
  "(rstr \<Rightarrow> signal_msg option) \<Rightarrow> server \<Rightarrow> server_event \<Rightarrow> limiter_op list" where
  "event_limiter_ops parse s e =
     (case event_msg parse s e of
        Some (peer, ip, now, fresh, m) \<Rightarrow> msg_limiter_ops (app s) ip now peer m
      | None \<Rightarrow> [])"

text \<open>Every event is a message, a disconnection, or leaves registry and limiter alone.\<close>

lemma server_step_cases:
  obtains (msg) peer ip now fresh m where
      "event_msg parse s e = Some (peer, ip, now, fresh, m)" "conns s peer = Some ip"
      "server_step parse s e = s\<lparr>app := handle_message (app s) peer ip now fresh m\<rparr>"
  | (close) peer where
      "event_msg parse s e = None" "closes s e = Some peer" "conns s peer \<noteq> None"
      "server_step parse s e = disconnect peer s"
  | (conn) ip where "e = Connect ip" "event_msg parse s e = None" "closes s e = None"
  | (drained) peer m ms where
      "event_msg parse s e = None" "closes s e = None" "conns s peer \<noteq> None"
      "senders (app s) peer = Some (m # ms)"
      "server_step parse s e =
         s\<lparr>app := (app s)\<lparr>senders := (senders (app s))(peer \<mapsto> ms)\<rparr>, wire := wire s @ [(peer, m)]\<rparr>"
  | (idle) "event_msg parse s e = None" "closes s e = None" "server_step parse s e = s"
proof (cases e)
  case (Connect ip)
  then show ?thesis by (intro conn) auto
next
  case (Inbound peer fr now fresh)
  then show ?thesis
    by (cases "conns s peer"; cases fr; cases "\<exists>text. fr = TextFrame text \<and> parse text = None")
       (auto intro: msg close idle split: option.splits)
next
  case (StreamEnd peer)
  then show ?thesis by (cases "conns s peer") (auto intro: close idle)
next
  case (Drain peer sent)
  then show ?thesis
    by (cases "conns s peer"; cases "senders (app s) peer"; cases "the (senders (app s) peer)"; cases sent)
       (auto simp: drain_def intro: close drained idle)
qed

lemma registry_server_step:
  "registry (app (server_step parse s e)) =
     run registry_step (registry (app s)) (event_registry_ops parse s e)"
  by (cases rule: server_step_cases [of parse s e])
     (simp_all add: event_registry_ops_def registry_handle_message disconnect_def connect_socket_def
       Let_def)

lemma limiter_server_step:
  "limiter (app (server_step parse s e)) =
     run limiter_step (limiter (app s)) (event_limiter_ops parse s e)"
  by (cases rule: server_step_cases [of parse s e])
     (simp_all add: event_limiter_ops_def limiter_handle_message disconnect_def connect_socket_def
       Let_def)

interpretation srv_registry: machine_component "server_step parse" "\<lambda>s. registry (app s)"
    registry_step "event_registry_ops parse" for parse
  by unfold_locales (rule registry_server_step)

interpretation srv_limiter: machine_component "server_step parse" "\<lambda>s. limiter (app s)"
    limiter_step "event_limiter_ops parse" for parse
  by unfold_locales (rule limiter_server_step)

section \<open>Invariants of the running server\<close>

text \<open>
  What holds whatever clients send: rooms have one or two entries, a peer has an outbound
  channel exactly while it is connected, only connected peers are in the reverse index, and
  the limiter keeps its configuration.
\<close>

definition server_inv :: "server \<Rightarrow> bool" where
  "server_inv s \<longleftrightarrow>
     rooms_ok (registry (app s)) \<and>
     dom (senders (app s)) = dom (conns s) \<and>
     dom (peer_room (registry (app s))) \<subseteq> dom (conns s) \<and>
     limiter_cfg JOIN_WINDOW_MS JOIN_MAX_FAILURES (limiter (app s))"

lemma dom_peer_room_create: "dom (peer_room (snd (create p i t r))) = insert p (dom (peer_room r))"
  by (simp add: create_def)

lemma dom_peer_room_join: "dom (peer_room (snd (join p i t r))) \<subseteq> insert p (dom (peer_room r))"
  by (auto simp: join_def split: option.splits)

lemma dom_peer_room_remove: "dom (peer_room (snd (remove p r))) = dom (peer_room r) - {p}"
  by (auto simp: remove_def Let_def split: option.splits)

lemma dom_peer_room_msg:
  "dom (peer_room (run registry_step r (msg_registry_ops st peer ip now fresh m)))
     \<subseteq> insert peer (dom (peer_room r))"
  by (cases m) (simp_all add: dom_peer_room_create dom_peer_room_join subset_insertI)

lemma server_inv_new: "server_inv server_new"
  using rooms_ok_new limiter_cfg_new
  by (simp add: server_inv_def server_new_def app_new_def registry_new_def)

lemma server_inv_step:
  assumes inv: "server_inv s"
  shows "server_inv (server_step parse s e)"
proof -
  have "rooms_ok (registry (app (server_step parse s e)))"
    using inv unfolding server_inv_def registry_server_step by (auto intro: weak.run_inv)
  moreover have "limiter_cfg JOIN_WINDOW_MS JOIN_MAX_FAILURES (limiter (app (server_step parse s e)))"
    using inv unfolding server_inv_def limiter_server_step by (auto intro: limiter_machine.run_inv)
  moreover have "dom (senders (app (server_step parse s e))) = dom (conns (server_step parse s e)) \<and>
      dom (peer_room (registry (app (server_step parse s e)))) \<subseteq> dom (conns (server_step parse s e))"
  proof (cases rule: server_step_cases [of parse s e])
    case (msg peer ip now fresh m)
    have "insert peer (dom (peer_room (registry (app s)))) \<subseteq> dom (conns s)"
      using inv msg(2) by (auto simp: server_inv_def)
    from order_trans [OF dom_peer_room_msg this] show ?thesis
      using inv unfolding server_inv_def msg(3) by (simp add: registry_handle_message)
  next
    case (close peer)
    then show ?thesis
      using inv unfolding server_inv_def by (auto simp: disconnect_def dom_peer_room_remove)
  next
    case (conn ip)
    then show ?thesis
      using inv unfolding server_inv_def by (auto simp: connect_socket_def Let_def)
  next
    case (drained peer m ms)
    then show ?thesis
      using inv unfolding server_inv_def by (auto simp: insert_absorb)
  next
    case idle
    then show ?thesis using inv unfolding server_inv_def by simp
  qed
  ultimately show ?thesis unfolding server_inv_def by blast
qed

interpretation srv: invariant_machine "server_step parse" "\<lambda>_ _. True" server_inv for parse
  by unfold_locales (rule server_inv_step)

text \<open>
  What the client of this repository promises: a connection asks for a room (\<open>Create\<close>,
  \<open>Reclaim\<close> or \<open>Join\<close>) only while it is in none, and the random id of a new room is not in
  use. Then the registry is well-formed in every reachable state.
\<close>

fun disciplined_msg :: "app_state \<Rightarrow> peer_id \<Rightarrow> rstr \<Rightarrow> signal_msg \<Rightarrow> bool" where
  "disciplined_msg st peer fresh Create \<longleftrightarrow>
     peer_room (registry st) peer = None \<and> \<not> contains fresh (registry st)"
| "disciplined_msg st peer fresh (Reclaim room) \<longleftrightarrow> peer_room (registry st) peer = None"
| "disciplined_msg st peer fresh (Join room) \<longleftrightarrow> peer_room (registry st) peer = None"
| "disciplined_msg st peer fresh _ \<longleftrightarrow> True"

definition disciplined ::
  "(rstr \<Rightarrow> signal_msg option) \<Rightarrow> server \<Rightarrow> server_event \<Rightarrow> bool" where
  "disciplined parse s e \<longleftrightarrow>
     (case event_msg parse s e of
        Some (peer, ip, now, fresh, m) \<Rightarrow> disciplined_msg (app s) peer fresh m
      | None \<Rightarrow> True)"

lemma disciplined_registry_ops:
  assumes "disciplined parse s e"
  shows "run_ok disciplined_op registry_step (registry (app s)) (event_registry_ops parse s e)"
proof (cases "event_msg parse s e")
  case None
  then show ?thesis by (cases "closes s e") (simp_all add: event_registry_ops_def)
next
  case (Some x)
  then obtain peer ip now fresh m where "event_msg parse s e = Some (peer, ip, now, fresh, m)"
    by (cases x) auto
  with assms show ?thesis by (cases m) (simp_all add: disciplined_def event_registry_ops_def)
qed

lemma disciplined_run_registry:
  "run_ok (disciplined parse) (server_step parse) server_new es \<Longrightarrow>
     registry_wf (registry (app (run (server_step parse) server_new es)))"
proof -
  assume "run_ok (disciplined parse) (server_step parse) server_new es"
  then have "run_ok disciplined_op registry_step (registry (app server_new))
      (trace_of (event_registry_ops parse) (server_step parse) server_new es)"
    by (intro srv_registry.run_component_ok [where ok = "disciplined parse"] disciplined_registry_ops)
  then have "registry_wf (run registry_step (registry (app server_new))
      (trace_of (event_registry_ops parse) (server_step parse) server_new es))"
    by (rule strong.run_inv [rotated]) (simp add: server_new_def app_new_def registry_wf_new)
  then show ?thesis by (simp add: srv_registry.run_proj)
qed

lemma server_run_inv: "server_inv (run (server_step parse) server_new es)"
  by (rule srv.run_inv [OF server_inv_new]) simp

end
