(* ===== verification/Server_Properties.thy ===== *)
theory Server_Properties
  imports Signal_Server "HOL-Library.Sublist"
begin

text \<open>
  What the signaling server guarantees: who receives what on each branch of the handler, that
  a live room cannot be taken over, what a disconnection leaves behind, the bound on failed
  attempts, unique connection ids and the order of delivery; and what goes wrong when a
  connection asks for a second room.
\<close>

abbreviation server_run :: "(rstr \<Rightarrow> signal_msg option) \<Rightarrow> server_event list \<Rightarrow> server" where
  "server_run parse es \<equiv> run (server_step parse) server_new es"

abbreviation well_behaved :: "(rstr \<Rightarrow> signal_msg option) \<Rightarrow> server_event list \<Rightarrow> bool" where
  "well_behaved parse es \<equiv> run_ok (disciplined parse) (server_step parse) server_new es"

lemma senders_connected:
  assumes "server_inv s" and "conns s p \<noteq> None"
  obtains l where "senders (app s) p = Some l"
  using assms by (auto simp: server_inv_def dom_def) blast

lemma unconnected:
  assumes "server_inv s" and "conns s p = None"
  shows "senders (app s) p = None" and "peer_room (registry (app s)) p = None"
  using assms unfolding server_inv_def by (metis domIff, metis domIff subsetD)

lemma send_to_Some: "senders st p = Some l \<Longrightarrow> senders (send_to p m st) = (senders st)(p \<mapsto> l @ [m])"
  by (auto simp: senders_send_to)

lemma send_to_None: "senders st p = None \<Longrightarrow> send_to p m st = st"
  by (simp add: send_to_def)

lemma member_connected:
  assumes "server_inv s" and "registry_wf (registry (app s))"
    and "q \<in> set (members (registry (app s)) i)"
  shows "conns s q \<noteq> None"
  using assms by (auto simp: server_inv_def members_index dom_def)

lemma partner_connected:
  assumes "server_inv s" and "registry_wf (registry (app s))"
    and "partner p (registry (app s)) = Some q"
  shows "conns s q \<noteq> None"
proof -
  from assms(2,3) obtain i where "q \<in> set (members (registry (app s)) i)"
    by (auto simp: reg.partner_iff)
  then show ?thesis by (rule member_connected [OF assms(1,2)])
qed

section \<open>Demonstration run\<close>

text \<open>
  The witnesses run the server on short histories; the parser of the demonstration reads a
  one-letter text as a message.
\<close>

definition demo_parse :: "rstr \<Rightarrow> signal_msg option" where
  "demo_parse t =
     (if t = lit ''c'' then Some Create
      else if t = lit ''j'' then Some (Join (lit ''k7m4qp''))
      else if t = lit ''r'' then Some (Reclaim (lit ''k7m4qp''))
      else if t = lit ''o'' then Some (Sdp (lit ''v=0'') (lit ''offer''))
      else if t = lit ''l'' then Some PeerLeft
      else None)"

definition demo_events :: "server_event list" where
  "demo_events =
     [Connect (V4 1), Connect (V4 2), Connect (V4 3),
      Inbound 1 (TextFrame (lit ''c'')) 10 (lit ''k7m4qp''),
      Inbound 2 (TextFrame (lit ''j'')) 20 []]"

lemmas demo_simps =
  demo_parse_def demo_events_def server_new_def app_new_def connect_socket_def Let_def
  handler_defs registry_defs limiter_defs send_to_def sat_sub_def
  JOIN_WINDOW_MS_def JOIN_MAX_FAILURES_def disciplined_def drain_def disconnect_def cleanup_def

definition demo_state :: server where
  "demo_state = server_run demo_parse demo_events"

lemma demo_well_behaved: "well_behaved demo_parse demo_events"
  by (simp add: demo_simps)

lemma demo_state_eq:
  "demo_state =
     \<lparr>app = \<lparr>registry = \<lparr>rooms = [lit ''k7m4qp'' \<mapsto> \<lparr>peers = [1, 2], last_activity_ms = 20\<rparr>],
                        peer_room = [1 \<mapsto> lit ''k7m4qp'', 2 \<mapsto> lit ''k7m4qp'']\<rparr>,
            senders = [1 \<mapsto> [Created (lit ''k7m4qp''), PeerJoined], 2 \<mapsto> [], 3 \<mapsto> []],
            next_id = 4, limiter = limiter_new 60000 30\<rparr>,
      conns = [1 \<mapsto> V4 1, 2 \<mapsto> V4 2, 3 \<mapsto> V4 3], wire = []\<rparr>"
  by (simp add: demo_state_def demo_simps fun_upd_twist)

section \<open>Relay\<close>

text \<open>(C4) In every state a well-behaved history leads to, an SDP or ICE message of a peer is appended,
  verbatim, to the outbound channel of its partner and to no other; the partner is connected,
  is another peer, and has the sender as its own partner. Without a partner the message goes
  nowhere. The registry is not touched.\<close>

theorem relay_reaches_only_the_partner:
  fixes now :: u64 and fresh :: rstr
  assumes "well_behaved parse es"
  defines "s \<equiv> server_run parse es"
  assumes "conns s peer = Some ip" and "parse text = Some m"
    and "m = Sdp sdp kind \<or> m = Ice candidate"
  defines "s' \<equiv> server_step parse s (Inbound peer (TextFrame text) now fresh)"
  shows "registry (app s') = registry (app s) \<and>
    (case partner peer (registry (app s)) of
       None \<Rightarrow> senders (app s') = senders (app s)
     | Some q \<Rightarrow> q \<noteq> peer \<and> partner q (registry (app s)) = Some peer \<and>
         (\<exists>l. senders (app s) q = Some l \<and> senders (app s') = (senders (app s))(q \<mapsto> l @ [m])))"
proof -
  have inv: "server_inv s" unfolding s_def by (rule server_run_inv)
  have wf: "registry_wf (registry (app s))"
    using assms(1) unfolding s_def by (rule disciplined_run_registry)
  have app: "app s' = handle_relay (app s) peer m"
    using assms(3-5) by (auto simp: s'_def)
  show ?thesis
  proof (cases "partner peer (registry (app s))")
    case None
    then show ?thesis by (simp add: app handle_relay_def)
  next
    case (Some q)
    obtain l where "senders (app s) q = Some l"
      using senders_connected [OF inv] partner_connected [OF inv wf Some] by blast
    moreover have "q \<noteq> peer" using reg.partner_not_self [OF wf] Some by blast
    ultimately show ?thesis
      using Some reg.partner_sym [OF wf Some] by (simp add: app handle_relay_def send_to_Some)
  qed
qed

theorem relay_reaches_only_the_partner_witness:
  "senders (app (server_step demo_parse demo_state (Inbound 1 (TextFrame (lit ''o'')) 30 []))) 2 =
     Some [Sdp (lit ''v=0'') (lit ''offer'')]"
proof -
  have "partner 1 (registry (app demo_state)) = Some 2" "senders (app demo_state) 2 = Some []"
    by (simp_all add: demo_state_eq partner_def)
  moreover have "conns demo_state 1 = Some (V4 1)" by (simp add: demo_state_eq)
  moreover have "demo_parse (lit ''o'') = Some (Sdp (lit ''v=0'') (lit ''offer''))"
    by (simp add: demo_parse_def)
  ultimately show ?thesis
    using relay_reaches_only_the_partner [OF demo_well_behaved, folded demo_state_def, of 1 "V4 1"
        "lit ''o''" "Sdp (lit ''v=0'') (lit ''offer'')" "lit ''v=0''" "lit ''offer''" "[]" 30 "[]"]
    by auto
qed

section \<open>Rooms: joining, reclaiming, rate limiting\<close>

text \<open>(C27) A room that exists cannot be reclaimed, whoever asks and whatever the state: the registry is
  unchanged, and the only thing the requester learns is \<open>RoomNotFound\<close>, the answer to a wrong
  code; nobody else is told anything. The refusal costs one unit of the requester's budget, or
  the budget was already used up.\<close>

theorem reclaim_never_displaces_a_live_room:
  assumes "contains room (registry st)"
  shows "registry (handle_reclaim st peer ip now room) = registry st \<and>
     senders (handle_reclaim st peer ip now room) = senders (send_to peer RoomNotFound st) \<and>
     limiter (handle_reclaim st peer ip now room) =
       run limiter_step (limiter st)
         (if fst (allowed ip now (limiter st)) then [Check ip now, Fail ip now] else [Check ip now])"
  using assms
  by (auto simp: handle_reclaim_def Let_def case_prod_unfold senders_send_to snd_allowed fun_eq_iff)

theorem reclaim_never_displaces_a_live_room_witness:
  "registry (handle_reclaim (app demo_state) 3 (V4 3) 50 (lit ''k7m4qp'')) = registry (app demo_state)"
  by (rule reclaim_never_displaces_a_live_room [THEN conjunct1]) (simp add: demo_state_eq contains_def)

text \<open>An address over its budget is answered as if the room did not exist, and the registry is
  neither read nor changed: for a join and for a reclaim the outbound channels are those of a
  refused unknown code, whatever rooms there are, and no further failure is recorded.\<close>

theorem over_budget_learns_nothing:
  fixes peer :: peer_id and fresh :: rstr
  assumes "\<not> fst (allowed ip now (limiter st))" and "m = Join room \<or> m = Reclaim room"
  defines "st' \<equiv> handle_message st peer ip now fresh m"
  shows "registry st' = registry st \<and> limiter st' = snd (allowed ip now (limiter st)) \<and>
     senders st' = senders (send_to peer RoomNotFound st)"
  using assms
  by (auto simp: handle_reclaim_def handle_join_def Let_def case_prod_unfold senders_send_to fun_eq_iff)

theorem over_budget_learns_nothing_witness:
  "senders (handle_message (app_new\<lparr>limiter := limiter_new 60000 0, senders := [5 \<mapsto> []]\<rparr>)
      5 (V4 9) 77 [] (Join (lit ''abc''))) 5 = Some [RoomNotFound]"
proof -
  have "\<not> fst (allowed (V4 9) 77 (limiter (app_new\<lparr>limiter := limiter_new 60000 0, senders := [5 \<mapsto> []]\<rparr>)))"
    by (simp add: limiter_defs)
  from over_budget_learns_nothing [OF this, of "Join (lit ''abc'')" "lit ''abc''" 5 "[]"]
  show ?thesis by (simp add: senders_send_to)
qed

text \<open>A join that is within the budget does exactly what the room's membership says. No such room:
  \<open>RoomNotFound\<close> to the requester and one recorded failure. Two members: \<open>RoomFull\<close> to the
  requester, one recorded failure, and the two members notice nothing. One member: the
  requester becomes its partner and it alone is told \<open>PeerJoined\<close>, so that exactly one side of
  the pair makes the offer; no failure is recorded.\<close>

theorem join_does_what_membership_says:
  fixes room :: rstr
  assumes wf: "registry_wf (registry st)" and free: "peer_room (registry st) peer = None"
    and "fst (allowed ip now (limiter st))"
  defines "st' \<equiv> handle_join st peer ip now room"
    and "failed \<equiv> run limiter_step (limiter st) [Check ip now, Fail ip now]"
  shows "case members (registry st) room of
       [] \<Rightarrow> registry st' = registry st \<and> limiter st' = failed \<and>
             senders st' = senders (send_to peer RoomNotFound st)
     | [q] \<Rightarrow> members (registry st') room = [q, peer] \<and>
             partner peer (registry st') = Some q \<and> partner q (registry st') = Some peer \<and>
             limiter st' = snd (allowed ip now (limiter st)) \<and>
             senders st' = senders (send_to q PeerJoined st)
     | [a, b] \<Rightarrow> registry st' = registry st \<and> limiter st' = failed \<and>
             senders st' = senders (send_to peer RoomFull st)
     | _ \<Rightarrow> False"
proof -
  have unplaced: "\<forall>i. peer \<notin> set (members (registry st) i)"
    using wf free by (simp add: unplaced_iff)
  note join_laws = reg.fst_join [OF wf, of peer room now] reg.view_join [of peer room now "registry st"]
  note st'_unfold = st'_def handle_join_def Let_def case_prod_unfold assms(3) failed_def snd_allowed
  have join_room: "join peer room now (registry st) =
      (case members (registry st) room of [] \<Rightarrow> (NotFound, registry st)
       | [q] \<Rightarrow> (RoomJoined, snd (join peer room now (registry st)))
       | _ \<Rightarrow> (Full, registry st))"
    using rooms_okD(1) [OF registry_wf_rooms_ok [OF wf]]
    by (auto simp: join_def members_def split: option.splits list.splits)
  show ?thesis
  proof (rule short_list_cases [OF reg.view_bound [OF wf, of room]])
    assume "members (registry st) room = []"
    with join_room show ?thesis by (simp add: st'_unfold fun_eq_iff senders_send_to)
  next
    fix a b assume "members (registry st) room = [a, b]"
    with join_room show ?thesis by (simp add: st'_unfold fun_eq_iff senders_send_to)
  next
    fix q assume one: "members (registry st) room = [q]"
    let ?r = "snd (join peer room now (registry st))"
    have joined: "fst (join peer room now (registry st)) = RoomJoined"
      using one join_laws by simp
    have wf': "registry_wf ?r" using wf unplaced by (rule reg.wf_join)
    have peer: "partner peer ?r = Some q" using wf unplaced one by (rule reg.join_pairs)
    have "st' = send_to q PeerJoined (st\<lparr>limiter := snd (allowed ip now (limiter st)), registry := ?r\<rparr>)"
      using joined peer by (simp add: st'_unfold)
    then show ?thesis
      using one joined join_laws peer reg.partner_sym [OF wf' peer]
      by (simp add: fun_eq_iff senders_send_to)
  qed
qed

theorem join_does_what_membership_says_witness:
  "senders (handle_join (app demo_state) 3 (V4 3) 40 (lit ''k7m4qp'')) 3 = Some [RoomFull]"
proof -
  have wf: "registry_wf (registry (app demo_state))"
    unfolding demo_state_def by (rule disciplined_run_registry [OF demo_well_behaved])
  have full: "members (registry (app demo_state)) (lit ''k7m4qp'') = [1, 2]"
    and free: "peer_room (registry (app demo_state)) 3 = None"
    and ok: "fst (allowed (V4 3) 40 (limiter (app demo_state)))"
    and empty: "senders (app demo_state) 3 = Some []"
    by (simp_all add: demo_state_eq members_def limiter_defs)
  show ?thesis
    using join_does_what_membership_says [OF wf free ok, of "lit ''k7m4qp''"] empty
    by (simp add: full senders_send_to del: lit_Cons)
qed

section \<open>Disconnection\<close>

text \<open>When a connection ends in a state of a well-behaved history, the server forgets the peer
  completely (no room lists it, no index entry, no channel, no connection); its partner, if it
  had one, receives one \<open>PeerLeft\<close> and stays alone in the room, open for a new joiner; a room
  it was alone in is gone; and every other channel is untouched.\<close>

theorem disconnect_forgets_the_peer:
  fixes peer :: peer_id
  assumes "well_behaved parse es"
  defines "s \<equiv> server_run parse es"
  defines "s' \<equiv> disconnect peer s"
  shows "(\<forall>i. peer \<notin> set (members (registry (app s')) i)) \<and>
     peer_room (registry (app s')) peer = None \<and> senders (app s') peer = None \<and> conns s' peer = None \<and>
     (\<forall>room. members (registry (app s)) room = [peer] \<longrightarrow> \<not> contains room (registry (app s'))) \<and>
     (case partner peer (registry (app s)) of
        None \<Rightarrow> senders (app s') = (senders (app s))(peer := None)
      | Some q \<Rightarrow>
          partner q (registry (app s')) = None \<and> (\<exists>i. members (registry (app s')) i = [q]) \<and>
          (\<exists>l. senders (app s) q = Some l \<and>
               senders (app s') = (senders (app s))(q \<mapsto> l @ [PeerLeft], peer := None)))"
proof -
  have inv: "server_inv s" unfolding s_def by (rule server_run_inv)
  have wf: "registry_wf (registry (app s))"
    using assms(1) unfolding s_def by (rule disciplined_run_registry)
  have r': "registry (app s') = snd (remove peer (registry (app s)))"
    by (simp add: s'_def disconnect_def)
  have wf': "registry_wf (registry (app s'))"
    unfolding r' using wf by (rule reg.wf_remove)
  have gone: "\<forall>i. peer \<notin> set (members (registry (app s')) i)"
    by (simp add: r' reg.view_remove [OF wf])
  have no_sender: "senders (app s') peer = None"
    by (simp add: s'_def disconnect_def cleanup_def Let_def case_prod_unfold)
  have fst: "fst (remove peer (registry (app s))) = partner peer (registry (app s))"
    using wf by (rule reg.fst_remove)
  note s'_unfold = s'_def disconnect_def cleanup_def Let_def case_prod_unfold fst
  have told: "case partner peer (registry (app s)) of
        None \<Rightarrow> senders (app s') = (senders (app s))(peer := None)
      | Some q \<Rightarrow>
          partner q (registry (app s')) = None \<and> (\<exists>i. members (registry (app s')) i = [q]) \<and>
          (\<exists>l. senders (app s) q = Some l \<and>
               senders (app s') = (senders (app s))(q \<mapsto> l @ [PeerLeft], peer := None))"
  proof (cases "partner peer (registry (app s))")
    case None
    then show ?thesis by (simp add: s'_unfold)
  next
    case (Some q)
    obtain l where l: "senders (app s) q = Some l"
      using senders_connected [OF inv] partner_connected [OF inv wf Some] by blast
    then have "senders (app s') = (senders (app s))(q \<mapsto> l @ [PeerLeft], peer := None)"
      using Some by (simp add: s'_unfold send_to_Some)
    with l Some show ?thesis
      using reg.remove_leaves_partner_alone [OF wf Some] unfolding r' by auto
  qed
  have "members (registry (app s)) room = [peer] \<longrightarrow> \<not> contains room (registry (app s'))" for room
    using contains_iff_members [OF registry_wf_rooms_ok [OF wf'], of room]
    by (simp add: r' reg.view_remove [OF wf])
  with gone unplaced_iff [OF wf'] no_sender told show ?thesis
    by (simp add: s'_def disconnect_def)
qed

theorem disconnect_forgets_the_peer_witness:
  "senders (app (disconnect 2 demo_state)) 1 = Some [Created (lit ''k7m4qp''), PeerJoined, PeerLeft]"
proof -
  have "partner 2 (registry (app demo_state)) = Some 1"
    by (simp add: demo_state_eq partner_def)
  moreover have "senders (app demo_state) 1 = Some [Created (lit ''k7m4qp''), PeerJoined]"
    by (simp add: demo_state_eq)
  ultimately show ?thesis
    using disconnect_forgets_the_peer [OF demo_well_behaved, folded demo_state_def, of 2] by auto
qed

section \<open>The rate limit seen from the whole server\<close>

fun event_clock :: "server_event \<Rightarrow> u64 list" where
  "event_clock (Inbound peer fr now fresh) = [now]"
| "event_clock _ = []"

text \<open>
  The failed attempts of a history: the address and time of every join or reclaim that was
  within the budget, consulted the registry and was refused.
\<close>

definition failed_attempts ::
  "(rstr \<Rightarrow> signal_msg option) \<Rightarrow> server_event list \<Rightarrow> (ip_addr \<times> u64) list" where
  "failed_attempts parse es =
     failure_log (trace_of (event_limiter_ops parse) (server_step parse) server_new es)"

lemma msg_limiter_ops_time: "e \<in> set (msg_limiter_ops st ip now peer m) \<Longrightarrow> op_time e = now"
  by (cases m) (auto split: if_splits)

lemma event_limiter_ops_cases:
  obtains (none) "event_limiter_ops parse s e = []"
  | (some) peer ip now m where "event_clock e = [now]"
      "event_limiter_ops parse s e = msg_limiter_ops (app s) ip now peer m"
proof (cases "event_msg parse s e")
  case None
  then show ?thesis by (intro none) (simp add: event_limiter_ops_def)
next
  case (Some x)
  then obtain peer ip now fresh m where m: "event_msg parse s e = Some (peer, ip, now, fresh, m)"
    by (cases x) auto
  then have "event_clock e = [now]"
    by (cases "(parse, s, e)" rule: event_msg.cases) (auto split: option.splits)
  then show ?thesis by (rule some [of now ip peer m]) (simp add: event_limiter_ops_def m)
qed

lemma trace_limiter_times:
  defines "tr \<equiv> \<lambda>parse s es. trace_of (event_limiter_ops parse) (server_step parse) s es"
  shows "set (map op_time (tr parse s es)) \<subseteq> set (concat (map event_clock es))"
    and "sorted (concat (map event_clock es)) \<Longrightarrow> sorted (map op_time (tr parse s es))"
proof -
  have ops: "set (map op_time (event_limiter_ops parse s e)) \<subseteq> set (event_clock e) \<and>
      sorted (map op_time (event_limiter_ops parse s e))" for s e
  proof (cases rule: event_limiter_ops_cases [of parse s e])
    case none
    then show ?thesis by simp
  next
    case (some peer ip now m)
    have "map op_time (msg_limiter_ops (app s) ip now peer m) =
        replicate (length (msg_limiter_ops (app s) ip now peer m)) now"
      by (rule replicate_eqI) (auto dest: msg_limiter_ops_time)
    then show ?thesis using some by (auto dest: msg_limiter_ops_time)
  qed
  show sub: "set (map op_time (tr parse s es)) \<subseteq> set (concat (map event_clock es))" for s es
    using ops by (induction es arbitrary: s) (fastforce simp: tr_def)+
  show "sorted (concat (map event_clock es)) \<Longrightarrow> sorted (map op_time (tr parse s es))"
  proof (induction es arbitrary: s)
    case (Cons e es)
    have "sorted (map op_time (tr parse (server_step parse s e) es))"
      using Cons by (simp add: sorted_append)
    moreover have "x \<le> y" if "x \<in> set (map op_time (event_limiter_ops parse s e))"
      "y \<in> set (map op_time (tr parse (server_step parse s e) es))" for x y
    proof -
      have "x \<in> set (event_clock e)" using that(1) ops [of s e] by blast
      moreover have "y \<in> set (concat (map event_clock es))"
        using that(2) sub [of "server_step parse s e" es] by blast
      ultimately show ?thesis
        using Cons.prems unfolding list.map concat.simps sorted_append by blast
    qed
    ultimately show ?case
      using ops [of s e] by (simp add: tr_def sorted_append)
  qed (simp add: tr_def)
qed

lemma guarded_event_ops:
  "run_ok guarded limiter_step (limiter (app s)) (event_limiter_ops parse s e)"
proof (cases rule: event_limiter_ops_cases [of parse s e])
  case (some peer ip now m)
  have "limiter_cfg (window_ms (limiter (app s))) (max_failures (limiter (app s))) (limiter (app s))"
    by (simp add: limiter_cfg_def)
  from lim.allow_twice [OF this order_refl] show ?thesis
    unfolding some by (cases m) auto
qed simp

text \<open>(C9) Room codes cannot be enumerated: over any history of the whole server, with any clients
  and any number of connections, in which every handler runs to its end before the next and the
  clock does not run backwards, one address makes at most 30 failed attempts in any window of
  60 seconds. How many it makes when handlers overlap is the subject of Attempt_Bound.\<close>

theorem at_most_30_failed_attempts_per_minute:
  assumes "sorted (concat (map event_clock es))"
  shows "length (filter (\<lambda>(j, t). j = ip \<and> a \<le> t \<and> t - a < 60000) (failed_attempts parse es)) \<le> 30"
proof -
  let ?tr = "trace_of (event_limiter_ops parse) (server_step parse) server_new es"
  have "run_ok guarded limiter_step (limiter (app server_new)) ?tr"
    by (rule srv_limiter.run_component_ok [where ok = "\<lambda>_ _. True"]) (simp_all add: guarded_event_ops)
  then have "run_ok guarded limiter_step (limiter_new 60000 30) ?tr"
    by (simp add: server_new_def app_new_def JOIN_WINDOW_MS_def JOIN_MAX_FAILURES_def)
  then show ?thesis
    unfolding failed_attempts_def
    by (rule failures_per_window_bounded) (rule trace_limiter_times(2) [OF assms])
qed

theorem at_most_30_failed_attempts_per_minute_witness:
  "failed_attempts demo_parse (demo_events @ [Inbound 3 (TextFrame (lit ''j'')) 30 []]) = [(V4 3, 30)] \<and>
   length (filter (\<lambda>(j, t). j = V4 3 \<and> 0 \<le> t \<and> t - 0 < 60000)
     (failed_attempts demo_parse (demo_events @ [Inbound 3 (TextFrame (lit ''j'')) 30 []]))) \<le> 30"
proof -
  have "sorted (concat (map event_clock (demo_events @ [Inbound 3 (TextFrame (lit ''j'')) 30 []])))"
    by (simp add: demo_events_def)
  moreover have "failed_attempts demo_parse (demo_events @ [Inbound 3 (TextFrame (lit ''j'')) 30 []])
      = [(V4 3, 30)]"
    by (simp add: failed_attempts_def event_limiter_ops_def demo_simps)
  ultimately show ?thesis using at_most_30_failed_attempts_per_minute by blast
qed

section \<open>Connection ids and the order of delivery\<close>

text \<open>
  \<open>next_id\<close> is a 64-bit counter that starts at 1. The guard \<open>no_wrap\<close> says that it has not
  come round yet, which takes \<open>2 ^ 64 - 1\<close> connections.
\<close>

fun no_wrap :: "server \<Rightarrow> server_event \<Rightarrow> bool" where
  "no_wrap s (Connect ip) \<longleftrightarrow> next_id (app s) \<noteq> - 1"
| "no_wrap s _ \<longleftrightarrow> True"

definition ids_inv :: "server \<Rightarrow> bool" where
  "ids_inv s \<longleftrightarrow>
     next_id (app s) \<noteq> 0 \<and>
     (\<forall>p. conns s p \<noteq> None \<longrightarrow> p < next_id (app s)) \<and>
     (\<forall>p \<in> fst ` set (wire s). p < next_id (app s))"

lemma ids_inv_step:
  assumes "ids_inv s" and "no_wrap s e"
  shows "ids_inv (server_step parse s e)"
proof (cases rule: server_step_cases [of parse s e])
  case (conn ip)
  let ?n = "next_id (app s)"
  have "?n \<noteq> - 1" using assms(2) conn by simp
  note succ = succ_no_wrap [OF this]
  show ?thesis
    using assms conn succ less_trans [OF _ succ(1)]
    by (auto simp: ids_inv_def connect_socket_def Let_def)
qed (use assms in \<open>auto simp: ids_inv_def disconnect_def\<close>)

interpretation ids: invariant_machine "server_step parse" no_wrap ids_inv for parse
  by unfold_locales (rule ids_inv_step)

lemma ids_inv_new: "ids_inv server_new"
  by (simp add: ids_inv_def server_new_def app_new_def)

text \<open>Everything ever put into a peer's channel: what its socket got, then what is waiting.\<close>

definition sent_to :: "peer_id \<Rightarrow> server \<Rightarrow> signal_msg list" where
  "sent_to p s =
     map snd (filter (\<lambda>x. fst x = p) (wire s)) @
     (case senders (app s) p of None \<Rightarrow> [] | Some q \<Rightarrow> q)"

text \<open>The handlers only ever append to a channel.\<close>

lemma senders_grow_send_to:
  "senders st p = Some l \<Longrightarrow> \<exists>l'. senders (send_to q m st) p = Some (l @ l')"
  by (auto simp: senders_send_to)

lemma senders_grow_handle_message:
  "senders st p = Some l \<Longrightarrow> \<exists>l'. senders (handle_message st peer ip now fresh m) p = Some (l @ l')"
  by (cases m) (auto simp: handler_defs Let_def case_prod_unfold senders_send_to
      split: join_outcome.splits option.splits)

lemma senders_grow_cleanup:
  "senders st p = Some l \<Longrightarrow> p \<noteq> peer \<Longrightarrow> \<exists>l'. senders (cleanup peer st) p = Some (l @ l')"
  by (auto simp: cleanup_def Let_def case_prod_unfold senders_send_to split: option.splits)

lemma sent_to_grows:
  assumes "ids_inv s" and "server_inv s" and "conns s p \<noteq> None" and "closes s e \<noteq> Some p"
  shows "prefix (sent_to p s) (sent_to p (server_step parse s e)) \<and>
     conns (server_step parse s e) p \<noteq> None"
proof -
  obtain l where l: "senders (app s) p = Some l"
    using assms(2,3) by (rule senders_connected)
  show ?thesis
  proof (cases rule: server_step_cases [of parse s e])
    case (msg peer ip now fresh m)
    obtain l' where "senders (handle_message (app s) peer ip now fresh m) p = Some (l @ l')"
      using senders_grow_handle_message [OF l] by blast
    with msg l assms(3) show ?thesis by (simp add: sent_to_def)
  next
    case (close peer)
    then have "p \<noteq> peer" using assms(4) by simp
    then obtain l' where "senders (cleanup peer (app s)) p = Some (l @ l')"
      using senders_grow_cleanup [OF l] by blast
    with close \<open>p \<noteq> peer\<close> l assms(3) show ?thesis by (simp add: sent_to_def disconnect_def)
  next
    case (conn ip)
    have "p \<noteq> next_id (app s)" using assms(1,3) by (auto simp: ids_inv_def)
    with conn l assms(3) show ?thesis
      by (simp add: sent_to_def connect_socket_def Let_def)
  next
    case (drained peer m ms)
    with l assms(3) show ?thesis by (cases "peer = p") (simp_all add: sent_to_def)
  qed (use assms in simp)
qed

text \<open>While a peer stays connected, nothing that was put into its channel is lost, repeated or
  reordered: what has been written to its socket followed by what still waits only ever grows
  at the end, from any point of a history to any later one.\<close>

theorem channel_is_fifo:
  assumes "run_ok no_wrap (server_step parse) server_new (es @ es')"
    and "conns (server_run parse es) p \<noteq> None"
    and "run_ok (\<lambda>s e. closes s e \<noteq> Some p) (server_step parse) (server_run parse es) es'"
  shows "prefix (sent_to p (server_run parse es)) (sent_to p (server_run parse (es @ es')))"
proof -
  have "ids_inv s \<Longrightarrow> server_inv s \<Longrightarrow> conns s p \<noteq> None \<Longrightarrow>
      run_ok no_wrap (server_step parse) s es' \<Longrightarrow>
      run_ok (\<lambda>s e. closes s e \<noteq> Some p) (server_step parse) s es' \<Longrightarrow>
      prefix (sent_to p s) (sent_to p (run (server_step parse) s es'))" for s
  proof (induction es' arbitrary: s)
    case (Cons e es')
    then have "prefix (sent_to p s) (sent_to p (server_step parse s e)) \<and>
        conns (server_step parse s e) p \<noteq> None"
      by (intro sent_to_grows) simp_all
    moreover have "prefix (sent_to p (server_step parse s e))
        (sent_to p (run (server_step parse) (server_step parse s e) es'))"
      using Cons.prems calculation
      by (intro Cons.IH) (simp_all add: ids_inv_step server_inv_step)
    ultimately show ?case by (auto intro: prefix_order.trans)
  qed simp
  moreover have "ids_inv (server_run parse es)"
    using ids.run_inv_prefix [OF ids_inv_new assms(1)] .
  ultimately show ?thesis
    using assms server_run_inv by (simp add: run_ok_append)
qed

theorem channel_is_fifo_witness:
  "prefix (sent_to 1 (server_run demo_parse demo_events))
     (sent_to 1 (server_run demo_parse (demo_events @ [Drain 1 True, Inbound 2 (TextFrame (lit ''o'')) 30 []])))"
proof (rule channel_is_fifo)
  show "run_ok no_wrap (server_step demo_parse) server_new
      (demo_events @ [Drain 1 True, Inbound 2 (TextFrame (lit ''o'')) 30 []])"
    by (simp add: demo_simps)
  show "conns (server_run demo_parse demo_events) 1 \<noteq> None"
    unfolding demo_state_def [symmetric] by (simp add: demo_state_eq)
  show "run_ok (\<lambda>s e. closes s e \<noteq> Some 1) (server_step demo_parse) (server_run demo_parse demo_events)
      [Drain 1 True, Inbound 2 (TextFrame (lit ''o'')) 30 []]"
    by simp
qed

text \<open>A new connection never gets the id of a connection that is still open or of one that was
  ever written to, and starts in no room: it cannot receive what was meant for another.\<close>

theorem new_connection_gets_a_fresh_id:
  assumes "run_ok no_wrap (server_step parse) server_new es"
  defines "s \<equiv> server_run parse es"
  defines "i \<equiv> next_id (app s)"
  shows "conns s i = None \<and> senders (app s) i = None \<and> i \<notin> fst ` set (wire s) \<and>
     peer_room (registry (app s)) i = None \<and>
     conns (server_step parse s (Connect ip)) i = Some ip \<and>
     senders (app (server_step parse s (Connect ip))) i = Some []"
proof -
  have "ids_inv s" unfolding s_def by (rule ids.run_inv [OF ids_inv_new assms(1)])
  moreover have "server_inv s" unfolding s_def by (rule server_run_inv)
  moreover from calculation have "conns s i = None" by (auto simp: ids_inv_def i_def)
  moreover from calculation have "senders (app s) i = None \<and> peer_room (registry (app s)) i = None"
    by (auto dest: unconnected)
  ultimately show ?thesis
    by (auto simp: ids_inv_def i_def connect_socket_def Let_def)
qed

theorem new_connection_gets_a_fresh_id_witness:
  "conns (server_run demo_parse demo_events) (next_id (app (server_run demo_parse demo_events))) = None"
proof -
  have "run_ok no_wrap (server_step demo_parse) server_new demo_events"
    by (simp add: demo_simps)
  then show ?thesis by (rule new_connection_gets_a_fresh_id [THEN conjunct1])
qed

section \<open>Frames without effect, and an effect without clean-up\<close>

text \<open>A text that is not a message, and a message only the server may originate, change nothing:
  a client cannot inject \<open>Created\<close>, \<open>PeerJoined\<close>, \<open>PeerLeft\<close> or a room error.\<close>

theorem foreign_frames_are_ignored:
  assumes "case parse text of None \<Rightarrow> True | Some m \<Rightarrow> \<not> client_originated m"
  shows "server_step parse s (Inbound peer (TextFrame text) now fresh) = s"
proof (cases "parse text")
  case (Some m)
  with assms show ?thesis by (cases m) (simp_all add: client_originated_def split: option.splits)
qed (simp split: option.splits)

theorem foreign_frames_are_ignored_witness:
  "server_step demo_parse demo_state (Inbound 2 (TextFrame (lit ''l'')) 30 []) = demo_state"
  by (rule foreign_frames_are_ignored) (simp add: demo_parse_def client_originated_def)

lemma create_again_members:
  assumes "members r old = [peer]" and "new \<noteq> old"
  shows "members (snd (remove peer (snd (create peer new t r)))) old = [peer]"
  using assms by (simp add: remove_def create_def members_def Let_def)

text \<open>(C30) The handler does not check that a connection is already in a room. A peer that waits alone
  in a room, asks for a second one and then disconnects stays listed in the first room for
  ever: its clean-up only looks at the room it entered last. The next peer to join the first
  room is paired with a connection that no longer exists.\<close>

theorem second_create_leaves_a_ghost:
  fixes now :: u64
  assumes "conns s peer \<noteq> None" and "parse text = Some Create"
    and "members (registry (app s)) old = [peer]" and "new \<noteq> old"
  defines "s' \<equiv> run (server_step parse) s [Inbound peer (TextFrame text) now new, StreamEnd peer]"
  shows "conns s' peer = None \<and> members (registry (app s')) old = [peer]"
  using assms create_again_members [OF assms(3,4), of now]
  by (auto simp: s'_def disconnect_def handle_create_def Let_def case_prod_unfold create_def)

theorem second_create_leaves_a_ghost_witness:
  "members (registry (app (server_run demo_parse
      [Connect (V4 1), Inbound 1 (TextFrame (lit ''c'')) 10 (lit ''a''),
       Inbound 1 (TextFrame (lit ''c'')) 20 (lit ''b''), StreamEnd 1]))) (lit ''a'') = [1]"
proof -
  let ?s = "server_run demo_parse [Connect (V4 1), Inbound 1 (TextFrame (lit ''c'')) 10 (lit ''a'')]"
  have "conns ?s 1 \<noteq> None" "members (registry (app ?s)) (lit ''a'') = [1]"
    by (simp_all add: demo_simps members_def)
  moreover have "demo_parse (lit ''c'') = Some Create" by (simp add: demo_parse_def)
  ultimately show ?thesis
    using second_create_leaves_a_ghost [of ?s 1 demo_parse "lit ''c''" "lit ''a''" "lit ''b''" 20] by simp
qed

end
