(* ===== verification/Server_Interleaving.thy ===== *)
theory Server_Interleaving
  imports Server_Properties
begin

text \<open>
  The signaling server at the grain of its locks. The handlers of different connections run in
  parallel on the threads of the runtime, and \<open>handle_message\<close> of \<open>crates/server/src/ws.rs\<close> takes and
  releases locks several times. Here a handler is the list of the critical sections it still
  has to enter; the steps of all handlers and clean-ups interleave freely. A handler that is
  left alone does what the atomic handler of Signal_Server does; what other interleavings
  keep, and what they break, is stated at the end. How far they can overdraw the budget of failed
  attempts is the subject of Attempt_Bound.
\<close>

section \<open>Critical sections\<close>

text \<open>
  One constructor per critical section of \<open>handle_message\<close>, \<open>send_to\<close> and the clean-up, with the local
  variables that the rest of the function needs. All sections but one take a single lock. The exception
  is \<open>Tell_Partner\<close>: the guard of the registry lives as long as the \<open>if let\<close> on \<open>partner\<close>, and
  \<open>send_to\<close> takes the lock of the senders inside it; as nobody who holds the senders waits for
  the registry and the registry cannot change meanwhile, the two are one step. A join and a reclaim
  read the clock once, before their first lock; \<open>create\<close> reads it for \<open>last_activity_ms\<close> while it holds
  the registry.
\<close>

datatype lock_step =
    Check_Reclaim peer_id ip_addr u64 rstr   \<comment> \<open>\<open>join_limiter.allowed\<close>\<close>
  | Look_Reclaim peer_id ip_addr u64 rstr    \<comment> \<open>\<open>registry.contains\<close>\<close>
  | Create_Room peer_id u64 rstr             \<comment> \<open>\<open>registry.create\<close>\<close>
  | Check_Join peer_id ip_addr u64 rstr      \<comment> \<open>\<open>join_limiter.allowed\<close>\<close>
  | Enter_Room peer_id ip_addr u64 rstr      \<comment> \<open>\<open>registry.join\<close>\<close>
  | Log_Members peer_id                      \<comment> \<open>\<open>registry.debug_room_of\<close>, for the log line\<close>
  | Tell_Partner peer_id                     \<comment> \<open>\<open>registry.partner\<close>, held while \<open>send_to\<close> locks \<open>senders\<close>\<close>
  | Note_Failure ip_addr u64                 \<comment> \<open>\<open>join_limiter.record_failure\<close>\<close>
  | Find_Relay peer_id signal_msg            \<comment> \<open>\<open>registry.partner\<close>\<close>
  | Push peer_id signal_msg                  \<comment> \<open>\<open>send_to\<close>\<close>
  | Leave_Room peer_id                       \<comment> \<open>\<open>registry.remove\<close>\<close>
  | Drop_Sender peer_id                      \<comment> \<open>\<open>senders.remove\<close>\<close>

text \<open>What a message makes the handler enter first.\<close>

fun first_steps ::
  "peer_id \<Rightarrow> ip_addr \<Rightarrow> u64 \<Rightarrow> rstr \<Rightarrow> signal_msg \<Rightarrow> lock_step list" where
  "first_steps peer ip now fresh Create = [Create_Room peer now fresh]"
| "first_steps peer ip now fresh (Reclaim room) = [Check_Reclaim peer ip now room]"
| "first_steps peer ip now fresh (Join room) = [Check_Join peer ip now room]"
| "first_steps peer ip now fresh (Sdp sdp kind) = [Find_Relay peer (Sdp sdp kind)]"
| "first_steps peer ip now fresh (Ice candidate) = [Find_Relay peer (Ice candidate)]"
| "first_steps peer ip now fresh _ = []"

text \<open>One critical section: the shared state after it, and what the function enters next.\<close>

fun lock :: "lock_step \<Rightarrow> app_state \<Rightarrow> app_state \<times> lock_step list" where
  "lock (Check_Reclaim peer ip now room) st =
     (let (ok, l) = allowed ip now (limiter st) in
      (st\<lparr>limiter := l\<rparr>,
       if ok then [Look_Reclaim peer ip now room] else [Push peer RoomNotFound]))"
| "lock (Look_Reclaim peer ip now room) st =
     (st, if contains room (registry st) then [Note_Failure ip now, Push peer RoomNotFound]
          else [Create_Room peer now room])"
| "lock (Create_Room peer now room) st =
     (let (outcome, r) = create peer room now (registry st) in
      (st\<lparr>registry := r\<rparr>,
       case outcome of RoomCreated room' \<Rightarrow> [Push peer (Created room')] | _ \<Rightarrow> []))"
| "lock (Check_Join peer ip now room) st =
     (let (ok, l) = allowed ip now (limiter st) in
      (st\<lparr>limiter := l\<rparr>,
       if ok then [Enter_Room peer ip now room] else [Push peer RoomNotFound]))"
| "lock (Enter_Room peer ip now room) st =
     (let (outcome, r) = join peer room now (registry st) in
      (st\<lparr>registry := r\<rparr>,
       case outcome of
         RoomJoined \<Rightarrow> [Log_Members peer]
       | Full \<Rightarrow> [Note_Failure ip now, Push peer RoomFull]
       | NotFound \<Rightarrow> [Note_Failure ip now, Push peer RoomNotFound]
       | RoomCreated _ \<Rightarrow> []))"
| "lock (Log_Members peer) st =
     (let members = debug_room_of peer (registry st) in (st, [Tell_Partner peer]))"
| "lock (Tell_Partner peer) st =
     (case partner peer (registry st) of
        Some p \<Rightarrow> (send_to p PeerJoined st, [])
      | None \<Rightarrow> (st, []))"
| "lock (Note_Failure ip now) st = (st\<lparr>limiter := record_failure ip now (limiter st)\<rparr>, [])"
| "lock (Find_Relay peer msg) st =
     (st, case partner peer (registry st) of Some p \<Rightarrow> [Push p msg] | None \<Rightarrow> [])"
| "lock (Push peer msg) st = (send_to peer msg st, [])"
| "lock (Leave_Room peer) st =
     (let (other, r) = remove peer (registry st) in
      (st\<lparr>registry := r\<rparr>,
       (case other of Some p \<Rightarrow> [Push p PeerLeft] | None \<Rightarrow> []) @ [Drop_Sender peer]))"
| "lock (Drop_Sender peer) st = (st\<lparr>senders := (senders st)(peer := None)\<rparr>, [])"

section \<open>A handler left alone\<close>

text \<open>How often a critical section and what follows it can take a lock.\<close>

fun locks_left :: "lock_step \<Rightarrow> nat" where
  "locks_left (Check_Reclaim _ _ _ _) = 4"
| "locks_left (Look_Reclaim _ _ _ _) = 3"
| "locks_left (Create_Room _ _ _) = 2"
| "locks_left (Check_Join _ _ _ _) = 5"
| "locks_left (Enter_Room _ _ _ _) = 4"
| "locks_left (Log_Members _) = 3"
| "locks_left (Tell_Partner _) = 2"
| "locks_left (Find_Relay _ _) = 2"
| "locks_left (Leave_Room _) = 3"
| "locks_left _ = 1"

abbreviation todo :: "lock_step list \<Rightarrow> nat" where
  "todo ts \<equiv> sum_list (map locks_left ts)"

lemma lock_decreases: "todo (snd (lock t st)) < locks_left t"
  by (cases t) (simp_all add: Let_def case_prod_unfold split: option.splits join_outcome.splits)

function run_alone :: "lock_step list \<Rightarrow> app_state \<Rightarrow> app_state" where
  "run_alone [] st = st"
| "run_alone (t # ts) st = run_alone (snd (lock t st) @ ts) (fst (lock t st))"
  by pat_completeness auto
termination
  by (relation "measure (\<lambda>(ts, st). todo ts)") (simp_all add: lock_decreases)

lemma run_alone_handler:
  "run_alone (first_steps peer ip now fresh m) st = handle_message st peer ip now fresh m"
  by (cases m) (simp_all add: handler_defs Let_def case_prod_unfold
      split: option.splits join_outcome.splits)

lemma run_alone_cleanup: "run_alone [Leave_Room peer] st = cleanup peer st"
  by (simp add: cleanup_def Let_def case_prod_unfold split: option.splits)

text \<open>Left alone, the handler of every message takes a lock at most five times and then has done to the
  shared state exactly what the atomic handler does; the clean-up of a connection takes at most
  three.\<close>

theorem undisturbed_handlers_are_atomic:
  "run_alone (first_steps peer ip now fresh m) st = handle_message st peer ip now fresh m \<and>
   run_alone [Leave_Room peer] st = cleanup peer st \<and>
   todo (first_steps peer ip now fresh m) \<le> 5 \<and> todo [Leave_Room peer] \<le> 3"
  using run_alone_handler [of peer ip now fresh m st] run_alone_cleanup [of peer st]
  by (cases m) simp_all

section \<open>All handlers together\<close>

text \<open>
  The running server with what every connection's reading task (\<open>handler\<close>) and \<open>handle_socket\<close>
  itself (\<open>closing\<close>) still have to enter.
\<close>

record net =
  srv :: server
  handler :: "peer_id \<Rightarrow> lock_step list"
  closing :: "peer_id \<Rightarrow> lock_step list"

definition quiet :: "server \<Rightarrow> net" where
  "quiet s = \<lparr>srv = s, handler = (\<lambda>_. []), closing = (\<lambda>_. [])\<rparr>"

text \<open>\<open>select!\<close> has returned: the connection's other task is aborted and the clean-up starts.\<close>

definition start_closing :: "peer_id \<Rightarrow> net \<Rightarrow> net" where
  "start_closing p n =
     n\<lparr>srv := (srv n)\<lparr>conns := (conns (srv n))(p := None)\<rparr>,
       closing := (closing n)(p := closing n p @ [Leave_Room p])\<rparr>"

text \<open>One critical section of the handler of \<open>p\<close>, or of its clean-up.\<close>

definition handler_turn :: "peer_id \<Rightarrow> lock_step \<Rightarrow> lock_step list \<Rightarrow> net \<Rightarrow> net" where
  "handler_turn p t ts n =
     n\<lparr>srv := (srv n)\<lparr>app := fst (lock t (app (srv n)))\<rparr>,
       handler := (handler n)(p := snd (lock t (app (srv n))) @ ts)\<rparr>"

definition closing_turn :: "peer_id \<Rightarrow> lock_step \<Rightarrow> lock_step list \<Rightarrow> net \<Rightarrow> net" where
  "closing_turn p t ts n =
     n\<lparr>srv := (srv n)\<lparr>app := fst (lock t (app (srv n)))\<rparr>,
       closing := (closing n)(p := snd (lock t (app (srv n))) @ ts)\<rparr>"

text \<open>
  The steps of the server. A failing write ends \<open>send_task\<close> at any time, and \<open>recv_task.abort()\<close> does
  not stop a handler that is running: it ends the task at its next \<open>await\<close>, and \<open>handle_message\<close> has
  none. The source does not wait for the task (\<open>waits = False\<close>); \<open>waits = True\<close> is the server that
  would.
\<close>

inductive net_step :: "bool \<Rightarrow> (rstr \<Rightarrow> signal_msg option) \<Rightarrow> net \<Rightarrow> net \<Rightarrow> bool"
  for waits :: bool and parse :: "rstr \<Rightarrow> signal_msg option" where
  open_socket: "net_step waits parse n (n\<lparr>srv := connect_socket ip (srv n)\<rparr>)"
| begin_message:
    "conns (srv n) p = Some ip \<Longrightarrow> handler n p = [] \<Longrightarrow> parse body = Some m \<Longrightarrow>
     net_step waits parse n (n\<lparr>handler := (handler n)(p := first_steps p ip now fresh m)\<rparr>)"
| handler_enters:
    "handler n p = t # ts \<Longrightarrow> net_step waits parse n (handler_turn p t ts n)"
| stream_ends:
    "conns (srv n) p = Some ip \<Longrightarrow> handler n p = [] \<Longrightarrow> net_step waits parse n (start_closing p n)"
| write_fails:
    "conns (srv n) p = Some ip \<Longrightarrow> senders (app (srv n)) p = Some (m # ms) \<Longrightarrow>
     (waits \<Longrightarrow> handler n p = []) \<Longrightarrow> net_step waits parse n (start_closing p n)"
| closing_enters:
    "closing n p = t # ts \<Longrightarrow> net_step waits parse n (closing_turn p t ts n)"
| written:
    "conns (srv n) p = Some ip \<Longrightarrow> senders (app (srv n)) p = Some (m # ms) \<Longrightarrow>
     net_step waits parse n (n\<lparr>srv := drain p True (srv n)\<rparr>)"

inductive_cases net_stepE: "net_step waits parse n n'"

text \<open>The states a server can be in.\<close>

inductive reached :: "bool \<Rightarrow> (rstr \<Rightarrow> signal_msg option) \<Rightarrow> net \<Rightarrow> bool"
  for waits :: bool and parse :: "rstr \<Rightarrow> signal_msg option" where
  start: "reached waits parse (quiet server_new)"
| advance: "reached waits parse n \<Longrightarrow> net_step waits parse n n' \<Longrightarrow> reached waits parse n'"

lemma reached_steps:
  "(net_step waits parse)\<^sup>*\<^sup>* n n' \<Longrightarrow> reached waits parse n \<Longrightarrow> reached waits parse n'"
  by (induction rule: rtranclp_induct) (auto intro: reached.advance)

section \<open>The atomic server is one of the schedules\<close>

lemma handler_runs_alone:
  assumes "handler n p = ts"
  shows "(net_step waits parse)\<^sup>*\<^sup>* n
     (n\<lparr>srv := (srv n)\<lparr>app := run_alone ts (app (srv n))\<rparr>, handler := (handler n)(p := [])\<rparr>)"
  using assms
proof (induction ts "app (srv n)" arbitrary: n rule: run_alone.induct)
  case 1
  then have "n\<lparr>srv := (srv n)\<lparr>app := run_alone [] (app (srv n))\<rparr>, handler := (handler n)(p := [])\<rparr> = n"
    by (simp add: fun_upd_idem)
  then show ?case by simp
next
  case (2 t ts)
  let ?n = "handler_turn p t ts n"
  have "net_step waits parse n ?n" using 2(2) by (rule handler_enters)
  moreover have "(net_step waits parse)\<^sup>*\<^sup>* ?n
      (?n\<lparr>srv := (srv ?n)\<lparr>app := run_alone (snd (lock t (app (srv n))) @ ts) (app (srv ?n))\<rparr>,
          handler := (handler ?n)(p := [])\<rparr>)"
    by (rule 2(1)) (simp_all add: handler_turn_def)
  ultimately show ?case by (simp add: handler_turn_def)
qed

lemma closing_runs_alone:
  assumes "closing n p = ts"
  shows "(net_step waits parse)\<^sup>*\<^sup>* n
     (n\<lparr>srv := (srv n)\<lparr>app := run_alone ts (app (srv n))\<rparr>, closing := (closing n)(p := [])\<rparr>)"
  using assms
proof (induction ts "app (srv n)" arbitrary: n rule: run_alone.induct)
  case 1
  then have "n\<lparr>srv := (srv n)\<lparr>app := run_alone [] (app (srv n))\<rparr>, closing := (closing n)(p := [])\<rparr> = n"
    by (simp add: fun_upd_idem)
  then show ?case by simp
next
  case (2 t ts)
  let ?n = "closing_turn p t ts n"
  have "net_step waits parse n ?n" using 2(2) by (rule closing_enters)
  moreover have "(net_step waits parse)\<^sup>*\<^sup>* ?n
      (?n\<lparr>srv := (srv ?n)\<lparr>app := run_alone (snd (lock t (app (srv n))) @ ts) (app (srv ?n))\<rparr>,
          closing := (closing ?n)(p := [])\<rparr>)"
    by (rule 2(1)) (simp_all add: closing_turn_def)
  ultimately show ?case by (simp add: closing_turn_def)
qed

lemma quiet_message:
  assumes "conns s p = Some ip" and "parse body = Some m"
  shows "(net_step waits parse)\<^sup>*\<^sup>* (quiet s) (quiet (s\<lparr>app := handle_message (app s) p ip now fresh m\<rparr>))"
proof -
  let ?n = "(quiet s)\<lparr>handler := (handler (quiet s))(p := first_steps p ip now fresh m)\<rparr>"
  have "net_step waits parse (quiet s) ?n"
    by (rule begin_message [where ip = ip and body = body]) (simp_all add: quiet_def assms)
  moreover have "(net_step waits parse)\<^sup>*\<^sup>* ?n (quiet (s\<lparr>app := handle_message (app s) p ip now fresh m\<rparr>))"
    using handler_runs_alone [of ?n p "first_steps p ip now fresh m" waits parse]
    by (simp add: quiet_def run_alone_handler fun_upd_idem del: run_alone.simps)
  ultimately show ?thesis by simp
qed

lemma quiet_close:
  assumes "net_step waits parse (quiet s) (start_closing p (quiet s))"
  shows "(net_step waits parse)\<^sup>*\<^sup>* (quiet s) (quiet (disconnect p s))"
proof -
  have "s\<lparr>conns := (conns s)(p := None), app := cleanup p (app s)\<rparr> = disconnect p s"
    by (simp add: disconnect_def)
  then have "(net_step waits parse)\<^sup>*\<^sup>* (start_closing p (quiet s)) (quiet (disconnect p s))"
    using closing_runs_alone [of "start_closing p (quiet s)" p "[Leave_Room p]" waits parse]
    by (simp add: quiet_def start_closing_def run_alone_cleanup fun_upd_idem del: run_alone.simps)
  with assms show ?thesis by simp
qed


lemma quiet_steps:
  "(net_step waits parse)\<^sup>*\<^sup>* (quiet s) (quiet (server_step parse s e))"
proof (cases rule: server_step_cases [of parse s e])
  case (msg peer ip now fresh m)
  then obtain body where "parse body = Some m" by (auto elim!: event_msg.elims split: option.splits)
  from quiet_message [where parse = parse and body = body, OF msg(2) this] show ?thesis by (simp add: msg(3))
next
  case (close peer)
  then obtain ip where ip: "conns s peer = Some ip" by blast
  have "net_step waits parse (quiet s) (start_closing peer (quiet s))"
    by (rule stream_ends) (simp_all add: quiet_def ip)
  then show ?thesis unfolding close(4) by (rule quiet_close)
next
  case (conn ip)
  have "net_step waits parse (quiet s) ((quiet s)\<lparr>srv := connect_socket ip (srv (quiet s))\<rparr>)"
    by (rule open_socket)
  then show ?thesis by (simp add: conn(1) quiet_def r_into_rtranclp)
next
  case (drained peer m ms)
  then obtain ip where "conns s peer = Some ip" by blast
  with drained(4) have "net_step waits parse (quiet s) ((quiet s)\<lparr>srv := drain peer True (srv (quiet s))\<rparr>)"
    by (intro written) (simp_all add: quiet_def)
  then show ?thesis using drained(4)
    by (simp add: drained(5) quiet_def drain_def r_into_rtranclp)
next
  case idle
  then show ?thesis by simp
qed

lemma quiet_runs: "(net_step waits parse)\<^sup>*\<^sup>* (quiet s) (quiet (run (server_step parse) s es))"
  by (induction es arbitrary: s) (auto intro: rtranclp_trans quiet_steps)

text \<open>Every state the atomic server reaches is reached by the interleaved one, with no handler and
  no clean-up in progress: the atomic server is the interleaved one under the schedule that
  lets every handler finish.\<close>

theorem atomic_server_is_a_schedule:
  "reached waits parse (quiet (server_run parse es))"
  using reached_steps [OF quiet_runs reached.start] .

section \<open>What every schedule keeps\<close>

text \<open>The registry and limiter operations of one critical section.\<close>

fun lock_registry_ops :: "lock_step \<Rightarrow> registry_op list" where
  "lock_registry_ops (Create_Room peer now room) = [OpCreate peer room now]"
| "lock_registry_ops (Enter_Room peer ip now room) = [OpJoin peer room now]"
| "lock_registry_ops (Leave_Room peer) = [OpRemove peer]"
| "lock_registry_ops _ = []"

fun lock_limiter_ops :: "lock_step \<Rightarrow> limiter_op list" where
  "lock_limiter_ops (Check_Reclaim peer ip now room) = [Check ip now]"
| "lock_limiter_ops (Check_Join peer ip now room) = [Check ip now]"
| "lock_limiter_ops (Note_Failure ip now) = [Fail ip now]"
| "lock_limiter_ops _ = []"

lemma registry_lock:
  "registry (fst (lock t st)) = run registry_step (registry st) (lock_registry_ops t)"
  by (cases t) (simp_all add: Let_def case_prod_unfold split: option.splits)

lemma limiter_lock:
  "limiter (fst (lock t st)) = run limiter_step (limiter st) (lock_limiter_ops t)"
  by (cases t) (simp_all add: Let_def case_prod_unfold snd_allowed split: option.splits)

definition core_ok :: "app_state \<Rightarrow> bool" where
  "core_ok st \<longleftrightarrow> rooms_ok (registry st) \<and> limiter_cfg JOIN_WINDOW_MS JOIN_MAX_FAILURES (limiter st)"

lemma core_ok_frame [simp]:
  "core_ok (st\<lparr>senders := q\<rparr>) = core_ok st" "core_ok (st\<lparr>next_id := i\<rparr>) = core_ok st"
  by (simp_all add: core_ok_def)

lemma core_ok_lock: "core_ok st \<Longrightarrow> core_ok (fst (lock t st))"
  by (auto simp: core_ok_def registry_lock limiter_lock intro: weak.run_inv limiter_machine.run_inv)

lemma core_ok_step:
  assumes "net_step waits parse n n'" and "core_ok (app (srv n))"
  shows "core_ok (app (srv n'))"
  using assms
  by (cases rule: net_step.cases)
     (auto simp: handler_turn_def closing_turn_def start_closing_def connect_socket_def drain_def
       core_ok_lock Let_def)

lemma core_ok_new: "core_ok (app (srv (quiet server_new)))"
  by (simp add: core_ok_def quiet_def server_new_def app_new_def rooms_ok_new limiter_cfg_new)

lemma reached_core_ok: "reached waits parse n \<Longrightarrow> core_ok (app (srv n))"
  by (induction rule: reached.induct) (auto intro: core_ok_new core_ok_step)


subsection \<open>Whom the registry knows\<close>

text \<open>The peer that a critical section, or what follows it, may enter into the registry.\<close>

fun places :: "lock_step \<Rightarrow> peer_id option" where
  "places (Check_Reclaim peer _ _ _) = Some peer"
| "places (Look_Reclaim peer _ _ _) = Some peer"
| "places (Create_Room peer _ _) = Some peer"
| "places (Check_Join peer _ _ _) = Some peer"
| "places (Enter_Room peer _ _ _) = Some peer"
| "places _ = None"

text \<open>What the reading task of \<open>p\<close> and the clean-up of \<open>p\<close> may still have to enter.\<close>

definition reads_for :: "peer_id \<Rightarrow> lock_step \<Rightarrow> bool" where
  "reads_for p t \<longleftrightarrow> (places t = None \<or> places t = Some p) \<and> (\<forall>q. t \<noteq> Leave_Room q)"

definition cleans_for :: "peer_id \<Rightarrow> lock_step \<Rightarrow> bool" where
  "cleans_for p t \<longleftrightarrow> places t = None \<and> (\<forall>q. t = Leave_Room q \<longrightarrow> q = p)"

lemma places_next: "t' \<in> set (snd (lock t st)) \<Longrightarrow> places t' = None \<or> places t' = places t"
  by (cases t) (auto simp: Let_def case_prod_unfold split: option.splits join_outcome.splits if_splits)

lemma no_new_leave: "Leave_Room q \<notin> set (snd (lock t st))"
  by (cases t) (auto simp: Let_def case_prod_unfold split: option.splits join_outcome.splits if_splits)

lemma reads_for_first: "list_all (reads_for peer) (first_steps peer ip now fresh m)"
  by (cases m) (simp_all add: reads_for_def)

lemma reads_for_next: "reads_for p t \<Longrightarrow> list_all (reads_for p) (snd (lock t st))"
  using places_next [of _ t st] no_new_leave [of _ t st]
  unfolding reads_for_def list_all_iff by metis

lemma cleans_for_next: "cleans_for p t \<Longrightarrow> list_all (cleans_for p) (snd (lock t st))"
  using places_next [of _ t st] no_new_leave [of _ t st]
  unfolding cleans_for_def list_all_iff by metis

lemma known_after_lock:
  "peer_room (registry (fst (lock t st))) q \<noteq> None \<Longrightarrow>
     (peer_room (registry st) q \<noteq> None \<and> t \<noteq> Leave_Room q) \<or> places t = Some q"
proof -
  assume "peer_room (registry (fst (lock t st))) q \<noteq> None"
  then have "q \<in> dom (peer_room (run registry_step (registry st) (lock_registry_ops t)))"
    unfolding registry_lock by blast
  then show ?thesis
    using dom_peer_room_join [of q _ _ "registry st"] dom_peer_room_join
    by (cases t) (auto simp: dom_peer_room_create dom_peer_room_remove dest!: subsetD [OF dom_peer_room_join])
qed

text \<open>
  If the clean-up waited for the reading task, then whoever is in the registry would be connected or
  about to be removed.
\<close>

definition accounted :: "net \<Rightarrow> peer_id \<Rightarrow> bool" where
  "accounted n p \<longleftrightarrow>
     list_all (reads_for p) (handler n p) \<and> list_all (cleans_for p) (closing n p) \<and>
     (handler n p \<noteq> [] \<longrightarrow> conns (srv n) p \<noteq> None) \<and>
     (peer_room (registry (app (srv n))) p \<noteq> None \<longrightarrow>
        conns (srv n) p \<noteq> None \<or> Leave_Room p \<in> set (closing n p))"

lemma accounted_new: "accounted (quiet server_new) p"
  by (simp add: accounted_def quiet_def server_new_def app_new_def registry_new_def)

lemma accounted_handler:
  assumes all: "\<And>q. accounted n q" and turn: "handler n p = t # ts"
  shows "accounted (handler_turn p t ts n) q"
proof -
  have p: "reads_for p t" "conns (srv n) p \<noteq> None"
    using all [of p] turn by (auto simp: accounted_def)
  then have "peer_room (registry (fst (lock t (app (srv n))))) q \<noteq> None \<Longrightarrow>
      peer_room (registry (app (srv n))) q \<noteq> None \<or> q = p"
    using known_after_lock [of t "app (srv n)" q] by (auto simp: reads_for_def)
  with p show ?thesis
    using all [of q] turn reads_for_next [OF p(1), of "app (srv n)"]
    by (auto simp: accounted_def handler_turn_def)
qed

lemma accounted_closing:
  assumes all: "\<And>q. accounted n q" and turn: "closing n p = t # ts"
  shows "accounted (closing_turn p t ts n) q"
proof -
  have p: "cleans_for p t"
    using all [of p] turn by (auto simp: accounted_def)
  then have "peer_room (registry (fst (lock t (app (srv n))))) q \<noteq> None \<Longrightarrow>
      peer_room (registry (app (srv n))) q \<noteq> None \<and> t \<noteq> Leave_Room q"
    using known_after_lock [of t "app (srv n)" q] by (auto simp: cleans_for_def)
  with p show ?thesis
    using all [of q] turn cleans_for_next [OF p(1), of "app (srv n)"]
    by (auto simp: accounted_def closing_turn_def)
qed

lemma accounted_close:
  assumes "accounted n q" and "handler n p = []"
  shows "accounted (start_closing p n) q"
  using assms by (auto simp: accounted_def start_closing_def cleans_for_def)

lemma accounted_step:
  assumes "net_step True parse n n'" and all: "\<And>q. accounted n q"
  shows "accounted n' q"
  using assms(1)
proof (cases rule: net_step.cases)
  case (open_socket ip)
  then show ?thesis using all [of q] by (auto simp: accounted_def connect_socket_def Let_def)
next
  case (begin_message p ip body m now fresh)
  then show ?thesis using all [of q] reads_for_first by (auto simp: accounted_def)
next
  case (written p ip m ms)
  then show ?thesis using all [of q] by (auto simp: accounted_def drain_def)
qed (use all in \<open>auto intro: accounted_handler accounted_closing accounted_close\<close>)

lemma reached_accounted: "reached True parse n \<Longrightarrow> accounted n q"
  by (induction arbitrary: q rule: reached.induct) (auto intro: accounted_new accounted_step)


section \<open>Schedules\<close>

text \<open>A schedule as data, with the step each move takes; \<open>None\<close> when the move is not possible.\<close>

datatype move =
    Opens ip_addr
  | Begins peer_id rstr u64 rstr
  | Enters peer_id
  | Ends peer_id
  | Fails peer_id
  | Cleans peer_id
  | Writes peer_id

fun move_step :: "bool \<Rightarrow> (rstr \<Rightarrow> signal_msg option) \<Rightarrow> net \<Rightarrow> move \<Rightarrow> net option" where
  "move_step waits parse n (Opens ip) = Some (n\<lparr>srv := connect_socket ip (srv n)\<rparr>)"
| "move_step waits parse n (Begins p body now fresh) =
     (case (conns (srv n) p, handler n p, parse body) of
        (Some ip, [], Some m) \<Rightarrow> Some (n\<lparr>handler := (handler n)(p := first_steps p ip now fresh m)\<rparr>)
      | _ \<Rightarrow> None)"
| "move_step waits parse n (Enters p) =
     (case handler n p of t # ts \<Rightarrow> Some (handler_turn p t ts n) | [] \<Rightarrow> None)"
| "move_step waits parse n (Ends p) =
     (if conns (srv n) p \<noteq> None \<and> handler n p = [] then Some (start_closing p n) else None)"
| "move_step waits parse n (Fails p) =
     (case (conns (srv n) p, senders (app (srv n)) p) of
        (Some ip, Some (m # ms)) \<Rightarrow>
          if waits \<and> handler n p \<noteq> [] then None else Some (start_closing p n)
      | _ \<Rightarrow> None)"
| "move_step waits parse n (Cleans p) =
     (case closing n p of t # ts \<Rightarrow> Some (closing_turn p t ts n) | [] \<Rightarrow> None)"
| "move_step waits parse n (Writes p) =
     (case (conns (srv n) p, senders (app (srv n)) p) of
        (Some ip, Some (m # ms)) \<Rightarrow> Some (n\<lparr>srv := drain p True (srv n)\<rparr>)
      | _ \<Rightarrow> None)"

fun schedule_run :: "bool \<Rightarrow> (rstr \<Rightarrow> signal_msg option) \<Rightarrow> net \<Rightarrow> move list \<Rightarrow> net option" where
  "schedule_run waits parse n [] = Some n"
| "schedule_run waits parse n (e # es) =
     (case move_step waits parse n e of None \<Rightarrow> None | Some n' \<Rightarrow> schedule_run waits parse n' es)"

lemma move_step_sound: "move_step waits parse n e = Some n' \<Longrightarrow> net_step waits parse n n'"
  by (cases e) (auto intro: net_step.intros split: option.splits list.splits if_splits)

lemma move_step_complete:
  assumes "net_step waits parse n n'"
  shows "\<exists>e. move_step waits parse n e = Some n'"
  using assms
proof (cases rule: net_step.cases)
  case (open_socket ip)
  then have "move_step waits parse n (Opens ip) = Some n'" by simp
  then show ?thesis ..
next
  case (begin_message p ip body m now fresh)
  then have "move_step waits parse n (Begins p body now fresh) = Some n'" by simp
  then show ?thesis ..
next
  case (handler_enters p t ts)
  then have "move_step waits parse n (Enters p) = Some n'" by simp
  then show ?thesis ..
next
  case (stream_ends p ip)
  then have "move_step waits parse n (Ends p) = Some n'" by simp
  then show ?thesis ..
next
  case (write_fails p ip m ms)
  then have "move_step waits parse n (Fails p) = Some n'" by simp
  then show ?thesis ..
next
  case (closing_enters p t ts)
  then have "move_step waits parse n (Cleans p) = Some n'" by simp
  then show ?thesis ..
next
  case (written p ip m ms)
  then have "move_step waits parse n (Writes p) = Some n'" by simp
  then show ?thesis ..
qed

lemma schedule_steps:
  "schedule_run waits parse n es = Some n' \<Longrightarrow> (net_step waits parse)\<^sup>*\<^sup>* n n'"
proof (induction es arbitrary: n)
  case (Cons e es)
  then obtain n1 where "move_step waits parse n e = Some n1" "schedule_run waits parse n1 es = Some n'"
    by (auto split: option.splits)
  with Cons.IH show ?case by (metis move_step_sound converse_rtranclp_into_rtranclp)
qed simp

lemmas schedule_reached = reached_steps [OF schedule_steps]

lemma reached_schedule:
  "reached waits parse n \<longleftrightarrow> (\<exists>es. schedule_run waits parse (quiet server_new) es = Some n)"
proof
  have app: "schedule_run waits parse n0 (es @ [e]) =
      (case schedule_run waits parse n0 es of None \<Rightarrow> None | Some n \<Rightarrow> move_step waits parse n e)"
    for n0 es e by (induction es arbitrary: n0) (auto split: option.splits)
  assume "reached waits parse n"
  then show "\<exists>es. schedule_run waits parse (quiet server_new) es = Some n"
  proof (induction rule: reached.induct)
    case start
    have "schedule_run waits parse (quiet server_new) [] = Some (quiet server_new)" by simp
    then show ?case ..
  next
    case (advance n n')
    then obtain es e where "schedule_run waits parse (quiet server_new) es = Some n"
      "move_step waits parse n e = Some n'" using move_step_complete by blast
    then have "schedule_run waits parse (quiet server_new) (es @ [e]) = Some n'" by (simp add: app)
    then show ?case ..
  qed
qed (auto intro: schedule_reached reached.start)

text \<open>A short schedule for the witnesses: two connections, one of which has asked for a room.\<close>

definition demo_schedule :: "move list" where
  "demo_schedule = [Opens (V4 1), Opens (V4 2), Begins 1 (lit ''r'') 10 [], Enters 1, Begins 2 (lit ''j'') 11 []]"

definition demo_net :: net where
  "demo_net =
     \<lparr>srv = \<lparr>app = \<lparr>registry = registry_new, senders = [1 \<mapsto> [], 2 \<mapsto> []], next_id = 3,
                    limiter = limiter_new 60000 30\<rparr>,
            conns = [1 \<mapsto> V4 1, 2 \<mapsto> V4 2], wire = []\<rparr>,
      handler = (\<lambda>_. [])(1 := [Look_Reclaim 1 (V4 1) 10 (lit ''k7m4qp'')],
                         2 := [Check_Join 2 (V4 2) 11 (lit ''k7m4qp'')]),
      closing = (\<lambda>_. [])\<rparr>"

lemma demo_schedule_run: "schedule_run waits demo_parse (quiet server_new) demo_schedule = Some demo_net"
  by (simp add: demo_schedule_def demo_net_def quiet_def demo_simps handler_turn_def fun_upd_twist)

lemma demo_reached: "reached waits demo_parse demo_net"
  by (rule schedule_reached [OF demo_schedule_run reached.start])

section \<open>Safety under every schedule\<close>

text \<open>(C13) However the handlers and clean-ups of all connections interleave, every room has one or two
  entries and the limiter keeps its window and its bound.\<close>

theorem every_schedule_keeps_rooms_small:
  assumes "reached waits parse n"
  shows "rooms_ok (registry (app (srv n))) \<and>
    window_ms (limiter (app (srv n))) = JOIN_WINDOW_MS \<and>
    max_failures (limiter (app (srv n))) = JOIN_MAX_FAILURES"
  using reached_core_ok [OF assms] by (simp add: core_ok_def limiter_cfg_def)

theorem every_schedule_keeps_rooms_small_witness:
  "rooms_ok (registry (app (srv demo_net)))"
  using every_schedule_keeps_rooms_small [OF demo_reached] by blast

text \<open>A server whose clean-up waited for the reading task would forget every closed connection:
  in each reachable state a peer that is not connected and whose clean-up is over is in no
  room.\<close>

theorem waiting_for_the_reader_forgets_the_peer:
  assumes "reached True parse n" and "conns (srv n) p = None" and "closing n p = []"
  shows "peer_room (registry (app (srv n))) p = None \<and> handler n p = []"
  using reached_accounted [OF assms(1), of p] assms(2,3) by (auto simp: accounted_def)

theorem waiting_for_the_reader_forgets_the_peer_witness:
  "peer_room (registry (app (srv demo_net))) 3 = None"
  using waiting_for_the_reader_forgets_the_peer [OF demo_reached, of 3]
  by (simp add: demo_net_def)


section \<open>What overlapping handlers break\<close>

lemma allowed_after_allowed:
  "fst (allowed j now (snd (allowed i now l))) = fst (allowed j now l)"
  by (simp add: allowed_iff snd_allowed live_count_def live_failures_prune)

text \<open>(C29) Two connections that reclaim the same absent room at the same time can both be told that
  they own it. \<open>contains\<close> and \<open>create\<close> are two critical sections, so both see the room absent; the
  second \<open>create\<close> replaces the first room. The first peer is then in no member list, but still has
  the second as its partner, while the second has none.\<close>

theorem overlapping_reclaims_both_succeed:
  fixes now :: u64
  assumes "conns s p = Some i" and "conns s q = Some j" and "p \<noteq> q"
    and "senders (app s) p = Some ls" and "senders (app s) q = Some ms"
    and "parse body = Some (Reclaim room)" and "\<not> contains room (registry (app s))"
    and "fst (allowed i now (limiter (app s)))" and "fst (allowed j now (limiter (app s)))"
  shows "\<exists>s'. (net_step waits parse)\<^sup>*\<^sup>* (quiet s) (quiet s') \<and>
    senders (app s') p = Some (ls @ [Created room]) \<and>
    senders (app s') q = Some (ms @ [Created room]) \<and>
    rooms (registry (app s')) room = Some \<lparr>peers = [q], last_activity_ms = now\<rparr> \<and>
    partner p (registry (app s')) = Some q \<and> partner q (registry (app s')) = None"
proof -
  let ?es = "[Begins p body now [], Begins q body now [], Enters p, Enters q, Enters p, Enters q,
      Enters p, Enters q, Enters p, Enters q]"
  let ?l = "snd (allowed j now (snd (allowed i now (limiter (app s)))))"
  let ?r = "snd (create q room now (snd (create p room now (registry (app s)))))"
  let ?s' = "s\<lparr>app := send_to q (Created room) (send_to p (Created room)
      ((app s)\<lparr>limiter := ?l, registry := ?r\<rparr>))\<rparr>"
  have "schedule_run waits parse (quiet s) ?es = Some (quiet ?s')"
    using assms allowed_after_allowed [of j now i "limiter (app s)"]
    by (simp add: quiet_def handler_turn_def case_prod_unfold create_def contains_def fun_eq_iff)
  then have "(net_step waits parse)\<^sup>*\<^sup>* (quiet s) (quiet ?s')" by (rule schedule_steps)
  moreover have "senders (app ?s') p = Some (ls @ [Created room])"
    "senders (app ?s') q = Some (ms @ [Created room])"
    "rooms (registry (app ?s')) room = Some \<lparr>peers = [q], last_activity_ms = now\<rparr>"
    "partner p (registry (app ?s')) = Some q" "partner q (registry (app ?s')) = None"
    using assms(3-5) by (simp_all add: senders_send_to create_def partner_def)
  ultimately show ?thesis by blast
qed

definition demo_idle :: server where
  "demo_idle = server_run demo_parse [Connect (V4 1), Connect (V4 2)]"

lemma demo_idle_eq:
  "demo_idle =
     \<lparr>app = \<lparr>registry = registry_new, senders = [1 \<mapsto> [], 2 \<mapsto> []], next_id = 3, limiter = limiter_new 60000 30\<rparr>,
      conns = [1 \<mapsto> V4 1, 2 \<mapsto> V4 2], wire = []\<rparr>"
  by (simp add: demo_idle_def demo_simps)

theorem overlapping_reclaims_both_succeed_witness:
  "\<exists>s'. (net_step True demo_parse)\<^sup>*\<^sup>* (quiet demo_idle) (quiet s') \<and>
     senders (app s') 1 = Some [Created (lit ''k7m4qp'')] \<and>
     senders (app s') 2 = Some [Created (lit ''k7m4qp'')]"
proof -
  have "demo_parse (lit ''r'') = Some (Reclaim (lit ''k7m4qp''))" by (simp add: demo_parse_def)
  moreover have "conns demo_idle 1 = Some (V4 1)" "conns demo_idle 2 = Some (V4 2)"
    "senders (app demo_idle) 1 = Some []" "senders (app demo_idle) 2 = Some []"
    "\<not> contains (lit ''k7m4qp'') (registry (app demo_idle))"
    "fst (allowed (V4 1) 10 (limiter (app demo_idle)))" "fst (allowed (V4 2) 10 (limiter (app demo_idle)))"
    by (simp_all add: demo_idle_eq registry_defs limiter_defs)
  ultimately show ?thesis
    using overlapping_reclaims_both_succeed [where s = demo_idle and p = 1 and q = 2 and waits = True
        and parse = demo_parse and now = 10 and body = "lit ''r''"] by fastforce
qed

text \<open>(C15) The clean-up does not wait for the reading task. When a write to the socket fails while the
  handler of a reclaim is under way, the clean-up can run to its end before the handler enters
  the room: the room is then owned by a connection that is gone, and no clean-up is left to
  remove it.\<close>

theorem aborted_reader_leaves_a_ghost:
  fixes now :: u64
  assumes "conns s p = Some i" and "senders (app s) p = Some (m # ms)"
    and "peer_room (registry (app s)) p = None"
    and "parse body = Some (Reclaim room)" and "\<not> contains room (registry (app s))"
    and "fst (allowed i now (limiter (app s)))"
  shows "\<exists>s'. (net_step False parse)\<^sup>*\<^sup>* (quiet s) (quiet s') \<and>
    conns s' = (conns s)(p := None) \<and> senders (app s') p = None \<and>
    rooms (registry (app s')) room = Some \<lparr>peers = [p], last_activity_ms = now\<rparr>"
proof -
  let ?es = "[Begins p body now [], Enters p, Fails p, Cleans p, Cleans p, Enters p, Enters p, Enters p]"
  let ?s' = "s\<lparr>app := (app s)\<lparr>limiter := snd (allowed i now (limiter (app s))),
        senders := (senders (app s))(p := None),
        registry := snd (create p room now (registry (app s)))\<rparr>, conns := (conns s)(p := None)\<rparr>"
  have "schedule_run False parse (quiet s) ?es = Some (quiet ?s')"
    using assms
    by (simp add: quiet_def handler_turn_def closing_turn_def start_closing_def case_prod_unfold create_def
        contains_def remove_def send_to_def fun_eq_iff)
  then have "(net_step False parse)\<^sup>*\<^sup>* (quiet s) (quiet ?s')" by (rule schedule_steps)
  moreover have "conns ?s' = (conns s)(p := None)" "senders (app ?s') p = None"
    "rooms (registry (app ?s')) room = Some \<lparr>peers = [p], last_activity_ms = now\<rparr>"
    by (simp_all add: create_def)
  ultimately show ?thesis by blast
qed

text \<open>A connection that has just been told that a room does not exist.\<close>

definition demo_refused :: server where
  "demo_refused = server_run demo_parse [Connect (V4 1), Inbound 1 (TextFrame (lit ''j'')) 5 []]"

theorem aborted_reader_leaves_a_ghost_witness:
  "\<exists>s'. (net_step False demo_parse)\<^sup>*\<^sup>* (quiet demo_refused) (quiet s') \<and>
     conns s' = (\<lambda>_. None) \<and> contains (lit ''k7m4qp'') (registry (app s'))"
proof -
  have "demo_parse (lit ''r'') = Some (Reclaim (lit ''k7m4qp''))" by (simp add: demo_parse_def)
  moreover have "conns demo_refused 1 = Some (V4 1)" "senders (app demo_refused) 1 = Some [RoomNotFound]"
    "peer_room (registry (app demo_refused)) 1 = None" "(conns demo_refused)(1 := None) = (\<lambda>_. None)"
    "\<not> contains (lit ''k7m4qp'') (registry (app demo_refused))"
    "fst (allowed (V4 1) 10 (limiter (app demo_refused)))"
    by (simp_all add: demo_refused_def demo_simps)
  ultimately show ?thesis
    using aborted_reader_leaves_a_ghost [where s = demo_refused and p = 1 and parse = demo_parse
        and now = 10 and body = "lit ''r''"] by (fastforce simp: contains_def)
qed

lemma live_count_allowed: "live_count (prune i now l) j now = live_count l j now"
  by (simp add: live_count_def live_failures_prune)

lemma live_count_two_failures:
  assumes "0 < window_ms l"
  shows "live_count (record_failure i now (record_failure i now l)) i now = live_count l i now + 2"
  using assms by (simp add: live_count_def live_failures_record)

text \<open>The budget of failed attempts is checked and charged in two critical sections, so two joins
  that overlap can both pass with one attempt left: the address then has more recorded
  failures in its window than the bound allows.\<close>

theorem overlapping_joins_overdraw_the_budget:
  fixes now :: u64
  assumes "conns s p = Some i" and "conns s q = Some i" and "p \<noteq> q"
    and "parse body = Some (Join room)" and "\<not> contains room (registry (app s))"
    and "limiter_cfg JOIN_WINDOW_MS JOIN_MAX_FAILURES (limiter (app s))"
    and "live_count (limiter (app s)) i now = JOIN_MAX_FAILURES - 1"
  shows "\<exists>s'. (net_step waits parse)\<^sup>*\<^sup>* (quiet s) (quiet s') \<and>
    live_count (limiter (app s')) i now = JOIN_MAX_FAILURES + 1"
proof -
  let ?es = "[Begins p body now [], Begins q body now [], Enters p, Enters q, Enters p, Enters q,
      Enters p, Enters q, Enters p, Enters q]"
  let ?l = "snd (allowed i now (snd (allowed i now (limiter (app s)))))"
  let ?l' = "record_failure i now (record_failure i now ?l)"
  let ?s' = "s\<lparr>app := send_to q RoomNotFound (send_to p RoomNotFound ((app s)\<lparr>limiter := ?l'\<rparr>))\<rparr>"
  have left: "fst (allowed i now (limiter (app s)))"
    using assms(6,7) by (simp add: allowed_iff limiter_cfg_def JOIN_MAX_FAILURES_def)
  have "schedule_run waits parse (quiet s) ?es = Some (quiet ?s')"
    using assms(1-5) left allowed_after_allowed [of i now i "limiter (app s)"]
    by (simp add: quiet_def handler_turn_def case_prod_unfold join_def contains_def send_to_def
        fun_eq_iff split: option.splits)
  then have "(net_step waits parse)\<^sup>*\<^sup>* (quiet s) (quiet ?s')" by (rule schedule_steps)
  moreover have "live_count (limiter (app ?s')) i now = JOIN_MAX_FAILURES + 1"
    using assms(6,7) live_count_two_failures [of ?l i now] live_count_allowed
    by (simp add: limiter_cfg_def snd_allowed JOIN_WINDOW_MS_def JOIN_MAX_FAILURES_def)
  ultimately show ?thesis by blast
qed

text \<open>Two connections behind one address that has failed 29 times.\<close>

definition demo_almost :: server where
  "demo_almost =
     \<lparr>app = app_new\<lparr>senders := [1 \<mapsto> [], 2 \<mapsto> []], limiter :=
        (limiter_new 60000 30)\<lparr>failures := [V4 7 \<mapsto> replicate 29 5]\<rparr>\<rparr>,
      conns = [1 \<mapsto> V4 7, 2 \<mapsto> V4 7], wire = []\<rparr>"

theorem overlapping_joins_overdraw_the_budget_witness:
  "\<exists>s'. (net_step False demo_parse)\<^sup>*\<^sup>* (quiet demo_almost) (quiet s') \<and>
     live_count (limiter (app s')) (V4 7) 10 = 31"
proof -
  have "demo_parse (lit ''j'') = Some (Join (lit ''k7m4qp''))" by (simp add: demo_parse_def)
  moreover have "conns demo_almost 1 = Some (V4 7)" "conns demo_almost 2 = Some (V4 7)"
    "\<not> contains (lit ''k7m4qp'') (registry (app demo_almost))"
    "limiter_cfg JOIN_WINDOW_MS JOIN_MAX_FAILURES (limiter (app demo_almost))"
    "live_count (limiter (app demo_almost)) (V4 7) 10 = JOIN_MAX_FAILURES - 1"
    by (simp_all add: demo_almost_def demo_simps limiter_cfg_def live_count_def live_failures_def)
  ultimately show ?thesis
    using overlapping_joins_overdraw_the_budget [where s = demo_almost and p = 1 and q = 2
        and i = "V4 7" and waits = False and parse = demo_parse and now = 10 and body = "lit ''j''"]
    by (fastforce simp: JOIN_MAX_FAILURES_def)
qed

end
