(* ===== verification/Attempt_Bound.thy ===== *)
theory Attempt_Bound
  imports Server_Interleaving
begin

text \<open>
  How many attempts at a room code one address gets when its handlers overlap. The limiter is asked and
  charged in two critical sections of \<open>handle_message\<close> (\<open>crates/server/src/ws.rs\<close>), so attempts that are
  under way together can all be admitted with one attempt left. What bounds the overdraft is their
  number, and it does so twice: once for those that were admitted together, once for those that read the
  clock within the window and asked the limiter after another had asked it from beyond. Their number
  is limited in turn: \<open>handle_message\<close> does not await, so no more handlers are under way than the
  runtime has threads.
\<close>

section \<open>Attempts in progress\<close>

text \<open>An attempt waits for the limiter, is admitted to the registry, and is charged if it was refused.\<close>

datatype stage = Waiting | Admitted | Refused

fun stage_of :: "lock_step \<Rightarrow> (stage \<times> ip_addr \<times> u64) option" where
  "stage_of (Check_Reclaim peer ip now room) = Some (Waiting, ip, now)"
| "stage_of (Check_Join peer ip now room) = Some (Waiting, ip, now)"
| "stage_of (Look_Reclaim peer ip now room) = Some (Admitted, ip, now)"
| "stage_of (Enter_Room peer ip now room) = Some (Admitted, ip, now)"
| "stage_of (Note_Failure ip now) = Some (Refused, ip, now)"
| "stage_of _ = None"

fun attempt :: "lock_step list \<Rightarrow> (stage \<times> ip_addr \<times> u64) option" where
  "attempt [] = None"
| "attempt (t # ts) = stage_of t"

definition attempting :: "ip_addr \<Rightarrow> (peer_id \<Rightarrow> (stage \<times> ip_addr \<times> u64) option) \<Rightarrow> peer_id set" where
  "attempting ip f = {p. \<exists>g t. f p = Some (g, ip, t)}"

text \<open>The attempts of an address that are under way in a state of the server.\<close>

definition under_way :: "ip_addr \<Rightarrow> net \<Rightarrow> peer_id set" where
  "under_way ip n = attempting ip (\<lambda>p. attempt (handler n p))"

text \<open>The critical sections in which an attempt is refused, whether or not it is charged afterwards.\<close>

fun refusals :: "lock_step \<Rightarrow> app_state \<Rightarrow> (ip_addr \<times> u64) list" where
  "refusals (Look_Reclaim peer ip now room) st = (if contains room (registry st) then [(ip, now)] else [])"
| "refusals (Enter_Room peer ip now room) st =
     (case fst (join peer room now (registry st)) of Full \<Rightarrow> [(ip, now)] | NotFound \<Rightarrow> [(ip, now)] | _ \<Rightarrow> [])"
| "refusals _ st = []"

fun first_refusals :: "lock_step list \<Rightarrow> app_state \<Rightarrow> (ip_addr \<times> u64) list" where
  "first_refusals [] st = []"
| "first_refusals (t # ts) st = refusals t st"

fun move_refusals :: "net \<Rightarrow> move \<Rightarrow> (ip_addr \<times> u64) list" where
  "move_refusals n (Enters p) = first_refusals (handler n p) (app (srv n))"
| "move_refusals n (Cleans p) = first_refusals (closing n p) (app (srv n))"
| "move_refusals n _ = []"

fun schedule_refusals ::
  "bool \<Rightarrow> (rstr \<Rightarrow> signal_msg option) \<Rightarrow> net \<Rightarrow> move list \<Rightarrow> (ip_addr \<times> u64) list" where
  "schedule_refusals waits parse n [] = []"
| "schedule_refusals waits parse n (e # es) =
     move_refusals n e @
     (case move_step waits parse n e of None \<Rightarrow> [] | Some n' \<Rightarrow> schedule_refusals waits parse n' es)"

text \<open>The readings of the clock by joins and reclaims, and the bound on the attempts under way together.\<close>

fun move_clock :: "(rstr \<Rightarrow> signal_msg option) \<Rightarrow> move \<Rightarrow> u64 list" where
  "move_clock parse (Begins p body now fresh) =
     (case parse body of Some (Join room) \<Rightarrow> [now] | Some (Reclaim room) \<Rightarrow> [now] | _ \<Rightarrow> [])"
| "move_clock parse _ = []"

fun overlap_at_most ::
  "nat \<Rightarrow> ip_addr \<Rightarrow> bool \<Rightarrow> (rstr \<Rightarrow> signal_msg option) \<Rightarrow> net \<Rightarrow> move list \<Rightarrow> bool" where
  "overlap_at_most k ip waits parse n [] \<longleftrightarrow> card (under_way ip n) \<le> k"
| "overlap_at_most k ip waits parse n (e # es) \<longleftrightarrow>
     card (under_way ip n) \<le> k \<and>
     (case move_step waits parse n e of None \<Rightarrow> True | Some n' \<Rightarrow> overlap_at_most k ip waits parse n' es)"

section \<open>What one critical section does to an attempt\<close>

abbreviation no_attempts :: "lock_step list \<Rightarrow> bool" where
  "no_attempts ts \<equiv> \<forall>t \<in> set ts. stage_of t = None"

lemma attempt_append: "no_attempts ts \<Longrightarrow> attempt (xs @ ts) = attempt xs"
  by (cases xs; cases ts) auto

lemma lock_no_attempt:
  "stage_of t = None \<Longrightarrow>
     limiter (fst (lock t st)) = limiter st \<and> refusals t st = [] \<and> no_attempts (snd (lock t st))"
  by (cases t) (auto simp: Let_def case_prod_unfold split: option.splits join_outcome.splits)

lemma lock_waiting:
  "stage_of t = Some (Waiting, ip, now) \<Longrightarrow>
     limiter (fst (lock t st)) = snd (allowed ip now (limiter st)) \<and> refusals t st = [] \<and>
     attempt (snd (lock t st)) = (if fst (allowed ip now (limiter st)) then Some (Admitted, ip, now) else None)"
  by (cases t) (auto simp: Let_def case_prod_unfold)

lemma lock_admitted:
  "stage_of t = Some (Admitted, ip, now) \<Longrightarrow>
     limiter (fst (lock t st)) = limiter st \<and>
     (refusals t st = [(ip, now)] \<and> attempt (snd (lock t st)) = Some (Refused, ip, now) \<or>
      refusals t st = [] \<and> attempt (snd (lock t st)) = None)"
  by (cases t) (auto simp: Let_def case_prod_unfold join_def split: option.splits join_outcome.splits)

lemma lock_refused:
  "stage_of t = Some (Refused, ip, now) \<Longrightarrow>
     limiter (fst (lock t st)) = record_failure ip now (limiter st) \<and> refusals t st = [] \<and>
     attempt (snd (lock t st)) = None"
  by (cases t) (auto simp: Let_def case_prod_unfold)

lemma lock_tail: "no_attempts (tl (snd (lock t st)))"
  by (cases t) (auto simp: Let_def case_prod_unfold split: option.splits join_outcome.splits)

lemma first_steps_tail: "no_attempts (tl (first_steps peer ip now fresh m))"
  by (cases m) auto

section \<open>The budget\<close>

definition in_window :: "u64 \<Rightarrow> u64 \<Rightarrow> bool" where
  "in_window a t \<longleftrightarrow> a \<le> t \<and> t - a < JOIN_WINDOW_MS"

definition past :: "u64 \<Rightarrow> u64 \<Rightarrow> bool" where
  "past a t \<longleftrightarrow> a \<le> t \<and> \<not> t - a < JOIN_WINDOW_MS"

definition stored :: "join_limiter \<Rightarrow> ip_addr \<Rightarrow> u64 list" where
  "stored l ip = (case failures l ip of None \<Rightarrow> [] | Some v \<Rightarrow> v)"

text \<open>The failures of the window that the limiter holds.\<close>

definition held :: "u64 \<Rightarrow> join_limiter \<Rightarrow> ip_addr \<Rightarrow> nat" where
  "held a l ip = length (filter (in_window a) (stored l ip))"

lemma past_mono: "past a t \<Longrightarrow> t \<le> u \<Longrightarrow> past a u"
  by (auto simp: past_def word_le_nat_alt word_less_nat_alt unat_sub)

lemma past_not_in_window: "past a t \<Longrightarrow> \<not> in_window a t"
  by (simp add: past_def in_window_def)

lemma kept_in_window: "\<not> past a now \<Longrightarrow> in_window a t \<Longrightarrow> sat_sub now t < JOIN_WINDOW_MS"
  by (auto simp: past_def in_window_def unat_sat_sub word_le_nat_alt word_less_nat_alt unat_sub
      JOIN_WINDOW_MS_def)

lemma stored_prune: "stored (prune ip now l) j = (if j = ip then live_failures l ip now else stored l j)"
  by (simp add: stored_def prune_stored)

lemma stored_record:
  "stored (record_failure ip now l) j = (if j = ip then live_failures l ip now @ [now] else stored l j)"
  using prune_stored [of ip now l ip] by (auto simp: stored_def record_failure_def Let_def)

lemma live_is_stored: "live_failures l ip now = filter (\<lambda>t. sat_sub now t < window_ms l) (stored l ip)"
  by (simp add: live_failures_def stored_def)

lemma window_is_live:
  assumes "window_ms l = JOIN_WINDOW_MS" and "\<not> past a now"
  shows "filter (in_window a) (live_failures l ip now) = filter (in_window a) (stored l ip)"
  unfolding live_is_stored filter_filter assms(1)
  by (rule filter_cong [OF refl]) (use kept_in_window [OF assms(2)] in blast)

lemma held_prune:
  "window_ms l = JOIN_WINDOW_MS \<Longrightarrow> j = ip \<longrightarrow> \<not> past a now \<Longrightarrow> held a (prune j now l) ip = held a l ip"
  by (simp add: held_def stored_prune window_is_live)

lemma held_record:
  "window_ms l = JOIN_WINDOW_MS \<Longrightarrow> j = ip \<longrightarrow> \<not> past a now \<Longrightarrow>
     held a (record_failure j now l) ip = held a l ip + of_bool (j = ip \<and> in_window a now)"
  by (auto simp: held_def stored_record window_is_live)

lemma held_le_live:
  "window_ms l = JOIN_WINDOW_MS \<Longrightarrow> \<not> past a now \<Longrightarrow> held a l ip \<le> live_count l ip now"
  using window_is_live [of l a now ip] length_filter_le [of "in_window a" "live_failures l ip now"]
  by (simp add: held_def live_count_def)

text \<open>The attempts of the window at the given stages.\<close>

fun counts :: "stage set \<Rightarrow> ip_addr \<Rightarrow> u64 \<Rightarrow> (stage \<times> ip_addr \<times> u64) option \<Rightarrow> bool" where
  "counts G ip a None \<longleftrightarrow> False"
| "counts G ip a (Some (g, j, t)) \<longleftrightarrow> g \<in> G \<and> j = ip \<and> in_window a t"

definition at_stage ::
  "stage set \<Rightarrow> ip_addr \<Rightarrow> u64 \<Rightarrow> (peer_id \<Rightarrow> (stage \<times> ip_addr \<times> u64) option) \<Rightarrow> nat" where
  "at_stage G ip a f = card {p. counts G ip a (f p)}"

lemma at_stage_upd:
  "at_stage G ip a (f(p := x)) + of_bool (counts G ip a (f p)) = at_stage G ip a f + of_bool (counts G ip a x)"
proof -
  let ?S = "{q. counts G ip a (f q)}"
  have "{q. counts G ip a ((f(p := x)) q)} = (if counts G ip a x then insert p (?S - {p}) else ?S - {p})"
    by auto
  moreover have "card (?S - {p}) + of_bool (counts G ip a (f p)) = card ?S"
    using card_Suc_Diff1 [of ?S p] by auto
  moreover have "card (insert p (?S - {p})) = Suc (card (?S - {p}))" by (rule card_insert_disjoint) simp_all
  ultimately show ?thesis by (simp add: at_stage_def del: insert_Diff_single)
qed

lemma at_stage_le:
  "at_stage G ip a f \<le> card (attempting ip f)" and
  at_stage_other: "\<not> counts UNIV ip a (f p) \<Longrightarrow> p \<in> attempting ip f \<Longrightarrow> at_stage G ip a f < card (attempting ip f)"
proof -
  have sub: "{q. counts G ip a (f q)} \<subseteq> attempting ip f"
    by (auto simp: attempting_def elim!: counts.elims)
  then show "at_stage G ip a f \<le> card (attempting ip f)" by (simp add: at_stage_def card_mono)
  assume "\<not> counts UNIV ip a (f p)" "p \<in> attempting ip f"
  moreover from this(1) have "\<not> counts G ip a (f p)" by (cases "f p") (auto elim!: counts.elims)
  ultimately have "{q. counts G ip a (f q)} \<subset> attempting ip f" using sub by blast
  then show "at_stage G ip a f < card (attempting ip f)" by (simp add: at_stage_def psubset_card_mono)
qed

lemma at_stage_disjoint:
  assumes "G \<inter> H = {}"
  shows "at_stage G ip a f + at_stage H ip a f \<le> card (attempting ip f)"
proof -
  have "{q. counts G ip a (f q)} \<inter> {q. counts H ip a (f q)} = {}" using assms by (auto elim!: counts.elims)
  then have "at_stage G ip a f + at_stage H ip a f = card ({q. counts G ip a (f q)} \<union> {q. counts H ip a (f q)})"
    by (simp add: at_stage_def card_Un_disjoint)
  also have "\<dots> \<le> card (attempting ip f)"
    by (rule card_mono) (auto simp: attempting_def elim!: counts.elims)
  finally show ?thesis .
qed

text \<open>
  As long as nobody has looked at the limiter from beyond the window, what was refused in the window is
  held by the limiter or about to be, and an attempt is only admitted below the budget. From then
  on nothing is known of the limiter, but no attempt of the window can begin any more. \<open>c\<close> is the
  latest reading of the clock, \<open>L\<close> the number of refusals in the window.
\<close>

definition budget_inv ::
  "nat \<Rightarrow> ip_addr \<Rightarrow> u64 \<Rightarrow> u64 \<Rightarrow> (peer_id \<Rightarrow> (stage \<times> ip_addr \<times> u64) option) \<Rightarrow> join_limiter \<Rightarrow> nat \<Rightarrow> bool" where
  "budget_inv m ip a c f l L \<longleftrightarrow>
     limiter_cfg JOIN_WINDOW_MS JOIN_MAX_FAILURES l \<and>
     (\<forall>p g j t. f p = Some (g, j, t) \<longrightarrow> t \<le> c) \<and>
     (L \<le> held a l ip + at_stage {Refused} ip a f \<and> L + at_stage {Admitted} ip a f \<le> JOIN_MAX_FAILURES + m \<or>
      past a c \<and> L + at_stage {Waiting, Admitted} ip a f \<le> JOIN_MAX_FAILURES + 2 * m)"

lemma attempting_upd:
  "(\<And>g t. x = Some (g, ip, t) \<Longrightarrow> p \<in> attempting ip f) \<Longrightarrow> card (attempting ip (f(p := x))) \<le> card (attempting ip f)"
  by (rule card_mono) (auto simp: attempting_def split: if_splits)

text \<open>Whoever looks at the limiter from beyond the window is himself one of those under way.\<close>

lemma budget_crossed:
  assumes "budget_inv m ip a c f l L" and "f p = Some (g, ip, s)" and "past a s" and "card (attempting ip f) \<le> m + 1"
  shows "past a c" and "L + at_stage {Waiting, Admitted} ip a f \<le> JOIN_MAX_FAILURES + 2 * m"
proof -
  have "s \<le> c" using assms(1,2) by (auto simp: budget_inv_def)
  with assms(3) show "past a c" by (rule past_mono)
  have "at_stage {Waiting, Admitted} ip a f < card (attempting ip f)"
    using assms(2,3) by (intro at_stage_other [of _ _ _ p]) (auto simp: attempting_def dest: past_not_in_window)
  then show "L + at_stage {Waiting, Admitted} ip a f \<le> JOIN_MAX_FAILURES + 2 * m"
    using assms(1,4) by (auto simp: budget_inv_def)
qed

lemma budget_begin:
  assumes "budget_inv m ip a c f l L" and "f p = None" and "c \<le> c'" and "x = None \<or> (\<exists>j. x = Some (Waiting, j, c'))"
  shows "budget_inv m ip a c' (f(p := x)) l L"
proof -
  have "t \<le> c'" if "(f(p := x)) q = Some (g, j, t)" for q g j t
    using that assms(1,3,4) order_trans [of t c c'] by (auto simp: budget_inv_def split: if_splits)
  moreover have "at_stage {Refused} ip a (f(p := x)) = at_stage {Refused} ip a f"
    "at_stage {Admitted} ip a (f(p := x)) = at_stage {Admitted} ip a f"
    using at_stage_upd [of _ ip a f p x] assms(2,4) by fastforce+
  moreover have "at_stage {Waiting, Admitted} ip a (f(p := x)) = at_stage {Waiting, Admitted} ip a f" if "past a c'"
    using at_stage_upd [of "{Waiting, Admitted}" ip a f p x] assms(2,4) past_not_in_window [OF that] by fastforce
  ultimately show ?thesis
    using assms(1) past_mono [OF _ assms(3), of a] by (auto simp: budget_inv_def)
qed

lemma budget_check:
  assumes "budget_inv m ip a c f l L" and "f p = Some (Waiting, j, s)" and "card (attempting ip f) \<le> m + 1"
  defines "x \<equiv> if fst (allowed j s l) then Some (Admitted, j, s) else None"
  shows "budget_inv m ip a c (f(p := x)) (snd (allowed j s l)) L"
proof -
  let ?f = "f(p := x)" and ?l = "prune j s l"
  have l: "window_ms l = JOIN_WINDOW_MS" "max_failures l = JOIN_MAX_FAILURES" and s: "s \<le> c"
    using assms(1,2) by (auto simp: budget_inv_def limiter_cfg_def)
  have "limiter_cfg JOIN_WINDOW_MS JOIN_MAX_FAILURES ?l" "\<forall>q g i t. ?f q = Some (g, i, t) \<longrightarrow> t \<le> c"
    using assms(1,2) by (auto simp: budget_inv_def limiter_cfg_def x_def)
  moreover have R: "at_stage {Refused} ip a ?f = at_stage {Refused} ip a f"
    and A: "at_stage {Admitted} ip a ?f = at_stage {Admitted} ip a f + of_bool (counts {Admitted} ip a x)"
    and W: "at_stage {Waiting, Admitted} ip a ?f \<le> at_stage {Waiting, Admitted} ip a f"
    using at_stage_upd [of "{Refused}" ip a f p x] at_stage_upd [of "{Admitted}" ip a f p x]
      at_stage_upd [of "{Waiting, Admitted}" ip a f p x] assms(2) by (auto simp: x_def split: if_splits)
  moreover have "L + at_stage {Admitted} ip a ?f \<le> JOIN_MAX_FAILURES + m"
    if "counts {Admitted} ip a x" "L \<le> held a l ip + at_stage {Refused} ip a f"
  proof -
    have j: "j = ip" "in_window a s" "live_count l ip s < JOIN_MAX_FAILURES"
      using that(1) l(2) by (auto simp: x_def allowed_iff split: if_splits)
    then have "\<not> past a s" using past_not_in_window by blast
    from held_le_live [OF l(1) this, of ip] j(3) that(2)
    have "L < JOIN_MAX_FAILURES + at_stage {Refused} ip a ?f" unfolding R by linarith
    moreover have "at_stage {Refused} ip a ?f + at_stage {Admitted} ip a ?f \<le> card (attempting ip ?f)"
      by (rule at_stage_disjoint) simp
    moreover have "card (attempting ip ?f) \<le> card (attempting ip f)"
      using assms(2) by (intro attempting_upd) (auto simp: x_def attempting_def split: if_splits)
    ultimately show ?thesis using assms(3) by linarith
  qed
  moreover have "held a ?l ip = held a l ip" if "\<not> (j = ip \<and> past a s)"
    using that by (intro held_prune [OF l(1)]) blast
  moreover note budget_crossed [OF assms(1), of p Waiting s] assms(2,3)
  ultimately show ?thesis
    using assms(1) unfolding budget_inv_def snd_allowed
    by (cases "j = ip \<and> past a s"; cases "counts {Admitted} ip a x") (auto intro: order_trans [OF add_left_mono])
qed

lemma budget_refuse:
  assumes "budget_inv m ip a c f l L" and "f p = Some (Admitted, j, s)"
  shows "budget_inv m ip a c (f(p \<mapsto> (Refused, j, s))) l (L + of_bool (j = ip \<and> in_window a s))"
    and "budget_inv m ip a c (f(p := None)) l L"
proof -
  note upd = at_stage_upd [of "{Refused}" ip a f p] at_stage_upd [of "{Admitted}" ip a f p]
    at_stage_upd [of "{Waiting, Admitted}" ip a f p]
  show "budget_inv m ip a c (f(p \<mapsto> (Refused, j, s))) l (L + of_bool (j = ip \<and> in_window a s))"
    using assms upd [of "Some (Refused, j, s)"] by (cases "j = ip \<and> in_window a s") (auto simp: budget_inv_def)
  show "budget_inv m ip a c (f(p := None)) l L"
    using assms upd [of None] by (cases "j = ip \<and> in_window a s") (auto simp: budget_inv_def)
qed

lemma budget_charge:
  assumes "budget_inv m ip a c f l L" and "f p = Some (Refused, j, s)" and "card (attempting ip f) \<le> m + 1"
  shows "budget_inv m ip a c (f(p := None)) (record_failure j s l) L"
proof -
  let ?f = "f(p := None)"
  have l: "window_ms l = JOIN_WINDOW_MS" using assms(1) by (auto simp: budget_inv_def limiter_cfg_def)
  have "limiter_cfg JOIN_WINDOW_MS JOIN_MAX_FAILURES (record_failure j s l)" "\<forall>q g i t. ?f q = Some (g, i, t) \<longrightarrow> t \<le> c"
    using assms(1) by (auto simp: budget_inv_def limiter_cfg_def)
  moreover have "at_stage {Refused} ip a ?f + of_bool (j = ip \<and> in_window a s) = at_stage {Refused} ip a f"
    "at_stage {Admitted} ip a ?f = at_stage {Admitted} ip a f"
    "at_stage {Waiting, Admitted} ip a ?f = at_stage {Waiting, Admitted} ip a f"
    using at_stage_upd [of "{Refused}" ip a f p None] at_stage_upd [of "{Admitted}" ip a f p None]
      at_stage_upd [of "{Waiting, Admitted}" ip a f p None] assms(2) by simp_all
  moreover have "held a (record_failure j s l) ip = held a l ip + of_bool (j = ip \<and> in_window a s)"
    if "\<not> (j = ip \<and> past a s)"
    using that by (intro held_record [OF l]) blast
  moreover note budget_crossed [OF assms(1), of p Refused s] assms(2,3)
  ultimately show ?thesis
    using assms(1) unfolding budget_inv_def by (cases "j = ip \<and> past a s") (auto simp: add.assoc)
qed

section \<open>All schedules\<close>

text \<open>Only the first section of a handler can belong to an attempt, and the clean-ups make none.\<close>

definition one_attempt :: "net \<Rightarrow> bool" where
  "one_attempt n \<longleftrightarrow> (\<forall>p. no_attempts (tl (handler n p)) \<and> no_attempts (closing n p))"

abbreviation attempts_of :: "net \<Rightarrow> peer_id \<Rightarrow> (stage \<times> ip_addr \<times> u64) option" where
  "attempts_of n \<equiv> \<lambda>p. attempt (handler n p)"

lemma one_attempt_handler:
  assumes "one_attempt n" and "handler n p = t # ts"
  shows "one_attempt (handler_turn p t ts n)"
    and "attempts_of (handler_turn p t ts n) = (attempts_of n)(p := attempt (snd (lock t (app (srv n)))))"
proof -
  have "no_attempts ts" using assms by (auto simp: one_attempt_def dest: spec [of _ p])
  moreover from this have "no_attempts (tl ts)" by (cases ts) simp_all
  ultimately show "one_attempt (handler_turn p t ts n)"
    and "attempts_of (handler_turn p t ts n) = (attempts_of n)(p := attempt (snd (lock t (app (srv n)))))"
    using assms(1) lock_tail [of t "app (srv n)"]
    by (auto simp: one_attempt_def handler_turn_def attempt_append fun_eq_iff tl_append split: list.splits)
qed

lemma one_attempt_closing:
  assumes "one_attempt n" and "closing n p = t # ts"
  shows "one_attempt (closing_turn p t ts n)" and "limiter (app (srv (closing_turn p t ts n))) = limiter (app (srv n))"
    and "refusals t (app (srv n)) = []"
proof -
  have "stage_of t = None" "no_attempts ts" using assms by (auto simp: one_attempt_def dest: spec [of _ p])
  with lock_no_attempt [OF this(1), of "app (srv n)"] assms(1)
  show "one_attempt (closing_turn p t ts n)" "limiter (app (srv (closing_turn p t ts n))) = limiter (app (srv n))"
    "refusals t (app (srv n)) = []" by (auto simp: one_attempt_def closing_turn_def)
qed

definition refused_in_window :: "ip_addr \<Rightarrow> u64 \<Rightarrow> (ip_addr \<times> u64) list \<Rightarrow> nat" where
  "refused_in_window ip a xs = length (filter (\<lambda>(j, t). j = ip \<and> in_window a t) xs)"

lemma refused_in_window_simps [simp]:
  "refused_in_window ip a [] = 0" "refused_in_window ip a (xs @ ys) = refused_in_window ip a xs + refused_in_window ip a ys"
  "refused_in_window ip a [(j, t)] = of_bool (j = ip \<and> in_window a t)"
  by (simp_all add: refused_in_window_def)

abbreviation budget_kept :: "nat \<Rightarrow> ip_addr \<Rightarrow> u64 \<Rightarrow> u64 \<Rightarrow> net \<Rightarrow> nat \<Rightarrow> bool" where
  "budget_kept m ip a c n L \<equiv> budget_inv m ip a c (attempts_of n) (limiter (app (srv n))) L"

lemma budget_turn:
  assumes "budget_kept m ip a c n L" and "one_attempt n" and "handler n p = t # ts" and "card (under_way ip n) \<le> m + 1"
  shows "budget_kept m ip a c (handler_turn p t ts n) (L + refused_in_window ip a (refusals t (app (srv n))))"
proof -
  let ?st = "app (srv n)"
  have f: "attempts_of n p = stage_of t" and k: "card (attempting ip (attempts_of n)) \<le> m + 1"
    using assms(3,4) by (simp_all add: under_way_def)
  note new = one_attempt_handler(2) [OF assms(2,3)]
  have l: "limiter (app (srv (handler_turn p t ts n))) = limiter (fst (lock t ?st))" by (simp add: handler_turn_def)
  show ?thesis
  proof (cases "stage_of t")
    case None
    then have "attempt (snd (lock t ?st)) = None"
      using lock_no_attempt [OF None, of ?st] by (cases "snd (lock t ?st)") auto
    with None f have "attempts_of (handler_turn p t ts n) = attempts_of n" unfolding new by (auto simp: fun_eq_iff)
    with lock_no_attempt [OF None, of ?st] assms(1) show ?thesis unfolding l by simp
  next
    case (Some x)
    then obtain g j s where x: "stage_of t = Some (g, j, s)" by (cases x) auto
    note here = f [unfolded x]
    show ?thesis
    proof (cases g)
      case Waiting
      from lock_waiting [OF x [unfolded Waiting], of ?st] budget_check [OF assms(1) here [unfolded Waiting] k]
      show ?thesis unfolding new l by simp
    next
      case Admitted
      from lock_admitted [OF x [unfolded Admitted], of ?st] budget_refuse [OF assms(1) here [unfolded Admitted]]
      show ?thesis unfolding new l by auto
    next
      case Refused
      from lock_refused [OF x [unfolded Refused], of ?st] budget_charge [OF assms(1) here [unfolded Refused] k]
      show ?thesis unfolding new l by simp
    qed
  qed
qed

text \<open>The latest reading of the clock after a move.\<close>

definition clock_after :: "(rstr \<Rightarrow> signal_msg option) \<Rightarrow> u64 \<Rightarrow> move \<Rightarrow> u64" where
  "clock_after parse c e = (case move_clock parse e of [] \<Rightarrow> c | t # ts \<Rightarrow> t)"

lemma budget_begins:
  fixes j
  assumes "budget_kept m ip a c n L" and "one_attempt n" and "handler n p = []" and "parse body = Some x"
    and "\<forall>t \<in> set (move_clock parse (Begins p body now fresh)). c \<le> t"
  defines "n' \<equiv> n\<lparr>handler := (handler n)(p := first_steps p j now fresh x)\<rparr>"
  shows "budget_kept m ip a (clock_after parse c (Begins p body now fresh)) n' L" and "one_attempt n'"
proof -
  show "one_attempt n'" using assms(2) first_steps_tail by (auto simp: one_attempt_def n'_def)
  let ?x = "attempt (first_steps p j now fresh x)" and ?c = "clock_after parse c (Begins p body now fresh)"
  have "attempts_of n' = (attempts_of n)(p := ?x)" by (auto simp: n'_def)
  moreover have "c \<le> ?c" "?x = None \<or> (\<exists>j. ?x = Some (Waiting, j, ?c))"
    using assms(4,5) by (cases x; simp add: clock_after_def)+
  note budget_begin [OF assms(1) _ this, of p]
  ultimately show "budget_kept m ip a ?c n' L" using assms(3) by (simp add: n'_def)
qed

lemma budget_move:
  assumes "budget_kept m ip a c n L" and "one_attempt n" and "move_step waits parse n e = Some n'"
    and "card (under_way ip n) \<le> m + 1" and "\<forall>t \<in> set (move_clock parse e). c \<le> t"
  shows "budget_kept m ip a (clock_after parse c e) n' (L + refused_in_window ip a (move_refusals n e)) \<and> one_attempt n'"
proof (cases e)
  case (Begins p body now fresh)
  with assms(3) obtain j x where "handler n p = []" "parse body = Some x"
    "n' = n\<lparr>handler := (handler n)(p := first_steps p j now fresh x)\<rparr>"
    by (auto split: option.splits list.splits)
  with budget_begins [OF assms(1,2), of p parse body x now fresh j] assms(5) show ?thesis by (simp add: Begins)
next
  case (Enters p)
  with assms(3) obtain t ts where "handler n p = t # ts" "n' = handler_turn p t ts n" by (auto split: list.splits)
  with budget_turn [OF assms(1,2) _ assms(4)] one_attempt_handler(1) [OF assms(2)] show ?thesis
    by (simp add: Enters clock_after_def)
next
  case (Cleans p)
  with assms(3) obtain t ts where ts: "closing n p = t # ts" "n' = closing_turn p t ts n" by (auto split: list.splits)
  with one_attempt_closing [OF assms(2) ts(1)] assms(1) show ?thesis
    by (simp add: Cleans clock_after_def) (simp add: closing_turn_def)
next
  case (Opens j)
  with assms show ?thesis by (auto simp: clock_after_def one_attempt_def connect_socket_def Let_def)
next
  case (Ends p)
  with assms show ?thesis by (auto simp: clock_after_def one_attempt_def start_closing_def split: if_splits)
next
  case (Fails p)
  with assms show ?thesis
    by (auto simp: clock_after_def one_attempt_def start_closing_def split: if_splits option.splits list.splits)
next
  case (Writes p)
  with assms show ?thesis
    by (auto simp: clock_after_def one_attempt_def drain_def split: if_splits option.splits list.splits)
qed

lemma stuck_refuses_nothing: "move_step waits parse n e = None \<Longrightarrow> move_refusals n e = []"
  by (cases e) (auto split: list.splits)

lemma budget_end: "budget_inv m ip a c f l L \<Longrightarrow> L \<le> JOIN_MAX_FAILURES + 2 * m"
  by (auto simp: budget_inv_def)

lemma budget_schedule:
  "budget_kept m ip a c n L \<Longrightarrow> one_attempt n \<Longrightarrow> sorted (c # concat (map (move_clock parse) es)) \<Longrightarrow>
   overlap_at_most (m + 1) ip waits parse n es \<Longrightarrow>
     L + refused_in_window ip a (schedule_refusals waits parse n es) \<le> JOIN_MAX_FAILURES + 2 * m"
proof (induction es arbitrary: c n L)
  case Nil
  then show ?case using budget_end by simp
next
  case (Cons e es)
  show ?case
  proof (cases "move_step waits parse n e")
    case None
    then show ?thesis using budget_end [OF Cons.prems(1)] by (simp add: stuck_refuses_nothing)
  next
    case (Some n')
    have "\<forall>t \<in> set (move_clock parse e). c \<le> t" "card (under_way ip n) \<le> m + 1" using Cons.prems(3,4) by simp_all
    from budget_move [OF Cons.prems(1,2) Some this(2,1)]
    have kept: "budget_kept m ip a (clock_after parse c e) n' (L + refused_in_window ip a (move_refusals n e))" "one_attempt n'"
      by simp_all
    have "sorted (clock_after parse c e # concat (map (move_clock parse) es))"
      using Cons.prems(3) by (auto simp: clock_after_def sorted_append split: list.splits)
    from Cons.IH [OF kept this] Cons.prems(4) Some show ?thesis by simp
  qed
qed

text \<open>(C14) Room codes cannot be enumerated, whatever the handlers of all connections do to each other. In
  every schedule of their critical sections, as long as the clock that joins and reclaims read does not
  run backwards, an address of which never more than \<open>m + 1\<close> attempts are under way at the same time has at
  most \<open>30 + 2 * m\<close> attempts refused in any window of 60 seconds: exactly the budget of 30 when its attempts
  do not overlap. An attempt counts when the registry refuses it, whether or not it is charged.\<close>

theorem overlap_bounds_the_attempts:
  assumes "sorted (concat (map (move_clock parse) es))"
    and "overlap_at_most (m + 1) ip waits parse (quiet server_new) es"
  shows "length (filter (\<lambda>(j, t). j = ip \<and> a \<le> t \<and> t - a < 60000)
      (schedule_refusals waits parse (quiet server_new) es)) \<le> 30 + 2 * m"
proof -
  have "budget_kept m ip a 0 (quiet server_new) 0" "one_attempt (quiet server_new)"
    by (simp_all add: budget_inv_def quiet_def server_new_def app_new_def limiter_cfg_new at_stage_def one_attempt_def)
  moreover have "sorted (0 # concat (map (move_clock parse) es))" using assms(1) by simp
  ultimately have "0 + refused_in_window ip a (schedule_refusals waits parse (quiet server_new) es) \<le> JOIN_MAX_FAILURES + 2 * m"
    using assms(2) by (rule budget_schedule)
  then show ?thesis by (simp add: refused_in_window_def in_window_def JOIN_WINDOW_MS_def JOIN_MAX_FAILURES_def)
qed

text \<open>Two connections of one address whose attempts at an absent room overlap.\<close>

definition demo_overlap :: "move list" where
  "demo_overlap =
     [Opens (V4 7), Opens (V4 7), Begins 1 (lit ''j'') 10 [], Begins 2 (lit ''j'') 11 [],
      Enters 1, Enters 2, Enters 1, Enters 2, Enters 1, Enters 2]"

theorem overlap_bounds_the_attempts_witness:
  "schedule_refusals False demo_parse (quiet server_new) demo_overlap = [(V4 7, 10), (V4 7, 11)] \<and>
   length (filter (\<lambda>(j, t). j = V4 7 \<and> 10 \<le> t \<and> t - 10 < 60000)
     (schedule_refusals False demo_parse (quiet server_new) demo_overlap)) \<le> 32"
proof -
  have "attempting j f \<subseteq> {1, 2}" if "\<And>p. p \<noteq> 1 \<Longrightarrow> p \<noteq> 2 \<Longrightarrow> f p = None" for j f
    using that by (force simp: attempting_def)
  then have two: "card (attempting j f) \<le> Suc (Suc 0)" if "\<And>p. p \<noteq> 1 \<Longrightarrow> p \<noteq> 2 \<Longrightarrow> f p = None" for j f
    using that card_mono [of "{1, 2}" "attempting j f"] by (simp add: numeral_2_eq_2)
  have "sorted (concat (map (move_clock demo_parse) demo_overlap))"
    by (simp add: demo_overlap_def demo_parse_def)
  moreover have "overlap_at_most (1 + 1) (V4 7) False demo_parse (quiet server_new) demo_overlap"
    by (simp add: demo_overlap_def quiet_def demo_simps handler_turn_def under_way_def two)
  moreover have "schedule_refusals False demo_parse (quiet server_new) demo_overlap = [(V4 7, 10), (V4 7, 11)]"
    by (simp add: demo_overlap_def quiet_def demo_simps handler_turn_def)
  ultimately show ?thesis using overlap_bounds_the_attempts [of demo_parse demo_overlap 1 "V4 7" False 10] by simp
qed

end
