(* ===== verification/Binary64.thy ===== *)
theory Binary64
  imports Complex_Main "HOL-Library.Log_Nat" Rust_Base
begin

text \<open>
  Rust's \<open>f64\<close>, the type of file sizes, byte counts, fractions and speeds: IEEE 754 binary64 with
  rounding to nearest, ties to even. A finite value is the rational number it denotes. The two
  zeros are identified: the program compares and adds zeros but never divides by one, so the
  sign of a zero cannot be observed.
\<close>

section \<open>Values and rounding\<close>

datatype f64 = Fin rat | Inf bool  \<comment> \<open>\<open>True\<close> for minus infinity\<close> | NaN

text \<open>The exponent of the binade of a positive rational: the greatest \<open>e\<close> with \<open>2 ^ e \<le> q\<close>.\<close>

definition binade :: "rat \<Rightarrow> int" where
  "binade q =
     (let (n, d) = quotient_of q; k = bitlen n - bitlen d in if 2 powi k \<le> q then k else k - 1)"

text \<open>Round to the nearest integer, to the even one in the middle.\<close>

definition round_even :: "rat \<Rightarrow> int" where
  "round_even x =
     (let f = \<lfloor>x\<rfloor>; r = x - of_int f in
      if r < 1 / 2 then f else if r > 1 / 2 then f + 1 else if even f then f else f + 1)"

text \<open>The distance between neighbours: 52 fraction bits, subnormal below \<open>2 ^ -1022\<close>.\<close>

definition ulp :: "rat \<Rightarrow> rat" where
  "ulp q = 2 powi (max (binade q) (- 1022) - 52)"

definition round_pos :: "rat \<Rightarrow> rat" where
  "round_pos q = of_int (round_even (q / ulp q)) * ulp q"

definition round_f64 :: "rat \<Rightarrow> f64" where
  "round_f64 q =
     (let r = (if q = 0 then 0 else if q > 0 then round_pos q else - round_pos (- q)) in
      if \<bar>r\<bar> \<ge> 2 ^ 1024 then Inf (r < 0) else Fin r)"

section \<open>Operations\<close>

fun f_neg :: "f64 \<Rightarrow> f64" where
  "f_neg (Fin a) = Fin (- a)"
| "f_neg (Inf s) = Inf (\<not> s)"
| "f_neg NaN = NaN"

fun f_add :: "f64 \<Rightarrow> f64 \<Rightarrow> f64" where
  "f_add (Fin a) (Fin b) = round_f64 (a + b)"
| "f_add (Inf s) (Inf s') = (if s = s' then Inf s else NaN)"
| "f_add (Inf s) (Fin b) = Inf s"
| "f_add (Fin a) (Inf s) = Inf s"
| "f_add _ _ = NaN"

definition f_sub :: "f64 \<Rightarrow> f64 \<Rightarrow> f64" where
  "f_sub a b = f_add a (f_neg b)"

fun f_div :: "f64 \<Rightarrow> f64 \<Rightarrow> f64" where
  "f_div (Fin a) (Fin b) =
     (if b = 0 then (if a = 0 then NaN else Inf (a < 0)) else round_f64 (a / b))"
| "f_div (Fin a) (Inf s) = Fin 0"
| "f_div (Inf s) (Fin b) = Inf (s \<noteq> (b < 0))"
| "f_div _ _ = NaN"

text \<open>Comparisons: false as soon as an operand is not a number.\<close>

fun f_le :: "f64 \<Rightarrow> f64 \<Rightarrow> bool" where
  "f_le (Fin a) (Fin b) \<longleftrightarrow> a \<le> b"
| "f_le (Fin a) (Inf s) \<longleftrightarrow> \<not> s"
| "f_le (Inf s) (Fin b) \<longleftrightarrow> s"
| "f_le (Inf s) (Inf s') \<longleftrightarrow> s \<or> \<not> s'"
| "f_le _ _ \<longleftrightarrow> False"

fun f_eq :: "f64 \<Rightarrow> f64 \<Rightarrow> bool" where
  "f_eq NaN _ \<longleftrightarrow> False"
| "f_eq _ NaN \<longleftrightarrow> False"
| "f_eq a b \<longleftrightarrow> a = b"

definition f_less :: "f64 \<Rightarrow> f64 \<Rightarrow> bool" where
  "f_less a b \<longleftrightarrow> f_le a b \<and> \<not> f_eq a b"

fun f_is_finite :: "f64 \<Rightarrow> bool" where
  "f_is_finite (Fin a) \<longleftrightarrow> True"
| "f_is_finite _ \<longleftrightarrow> False"

text \<open>\<open>x as u64\<close> and \<open>x as u32\<close>: truncation towards zero, saturating, \<open>NaN\<close> to 0.\<close>

definition sat_cast :: "f64 \<Rightarrow> 'a::len word" where
  "sat_cast x =
     (case x of
        NaN \<Rightarrow> 0
      | Inf s \<Rightarrow> if s then 0 else - 1
      | Fin a \<Rightarrow> if a \<le> 0 then 0 else if \<lfloor>a\<rfloor> \<ge> 2 ^ LENGTH('a) then - 1 else of_int \<lfloor>a\<rfloor>)"

text \<open>\<open>n as f64\<close> for an unsigned machine word \<open>n\<close>.\<close>

definition f_of_word :: "'a::len word \<Rightarrow> f64" where
  "f_of_word n = round_f64 (of_int (uint n))"

section \<open>The binade of a number\<close>

lemma two_powi_less: "a < b \<Longrightarrow> (2::rat) powi a < 2 powi b"
  by (rule power_int_strict_increasing) simp_all

lemma two_powi_less_iff: "(2::rat) powi a < 2 powi b \<longleftrightarrow> a < b"
  using two_powi_less [of a b] two_powi_less [of b a] by (cases a b rule: linorder_cases) auto

lemma two_powi_le_iff: "(2::rat) powi a \<le> 2 powi b \<longleftrightarrow> a \<le> b"
  unfolding linorder_not_less [symmetric] two_powi_less_iff by (rule refl)

lemma two_powi_pos [simp]: "0 < (2::rat) powi a"
  by (simp add: zero_less_power_int)

lemma two_powi_add: "(2::rat) powi (a + b) = 2 powi a * 2 powi b"
  by (simp add: power_int_add)

text \<open>Shifting by \<open>k\<close> places, with the power as an integer.\<close>

lemma two_powi_shift: "of_int (2 ^ k) * (2::rat) powi e = 2 powi (e + int k)"
  by (simp add: power_int_add power_int_of_nat)

lemma binade_bounds:
  assumes "0 < q"
  shows "2 powi binade q \<le> q" and "q < 2 powi (binade q + 1)"
proof -
  obtain n d where nd: "quotient_of q = (n, d)" by (cases "quotient_of q")
  have d: "0 < d" and q: "q = of_int n / of_int d"
    using quotient_of_denom_pos [OF nd] quotient_of_div [OF nd] by auto
  then have n: "0 < n" using assms by (simp add: zero_less_divide_iff)
  define k where "k = bitlen n - bitlen d"
  have bits: "(2::rat) powi (bitlen x - 1) \<le> of_int x" "of_int x < (2::rat) powi bitlen x"
    if "0 < x" for x :: int
  proof -
    have pos: "1 \<le> bitlen x" using that bitlen_nonneg [of x] bitlen_eq_zero_iff [of x] by linarith
    have "2 ^ nat (bitlen x - 1) \<le> x" "x < 2 ^ nat (bitlen x)" using bitlen_bounds [OF that] by auto
    then have "of_int (2 ^ nat (bitlen x - 1)) \<le> (of_int x :: rat)"
      "(of_int x :: rat) < of_int (2 ^ nat (bitlen x))" by (simp_all only: of_int_le_iff of_int_less_iff)
    with pos show "(2::rat) powi (bitlen x - 1) \<le> of_int x" "of_int x < (2::rat) powi bitlen x"
      by (simp_all add: power_int_def)
  qed
  have "2 powi (k - 1) = (2::rat) powi (bitlen n - 1) / 2 powi bitlen d"
    using two_powi_add [of "bitlen d" "k - 1"] by (simp add: k_def field_simps)
  also have "\<dots> \<le> of_int n / of_int d"
    using bits [OF n] bits [OF d] n d by (intro frac_le) auto
  finally have low: "2 powi (k - 1) \<le> q" by (simp add: q)
  have "of_int n / of_int d < (2::rat) powi bitlen n / 2 powi (bitlen d - 1)"
    using bits [OF n] bits [OF d] n d by (intro frac_less) auto
  also have "\<dots> = 2 powi (k + 1)"
    using two_powi_add [of "bitlen d - 1" "k + 1"] by (simp add: k_def field_simps)
  finally have high: "q < 2 powi (k + 1)" by (simp add: q)
  show "2 powi binade q \<le> q" "q < 2 powi (binade q + 1)"
    using low high by (auto simp: binade_def nd k_def [symmetric] Let_def)
qed

lemma binade_mono:
  assumes "0 < q" and "q \<le> q'"
  shows "binade q \<le> binade q'"
proof -
  have "2 powi binade q < (2::rat) powi (binade q' + 1)"
    using binade_bounds(1) [OF assms(1)] binade_bounds(2) [of q'] assms by linarith
  then show ?thesis by (simp add: two_powi_less_iff)
qed

section \<open>Rounding to an integer\<close>

lemma round_even_of_int [simp]: "round_even (of_int n) = n"
  by (simp add: round_even_def Let_def)

lemma round_even_mono:
  assumes "x \<le> y"
  shows "round_even x \<le> round_even y"
proof (cases "\<lfloor>x\<rfloor> = \<lfloor>y\<rfloor>")
  case True
  with assms show ?thesis by (auto simp: round_even_def Let_def)
next
  case False
  then have "\<lfloor>x\<rfloor> + 1 \<le> \<lfloor>y\<rfloor>" using floor_mono [OF assms] by linarith
  moreover have "round_even x \<le> \<lfloor>x\<rfloor> + 1" "\<lfloor>y\<rfloor> \<le> round_even y"
    by (auto simp: round_even_def Let_def)
  ultimately show ?thesis by linarith
qed

lemma round_even_ge: "of_int n \<le> x \<Longrightarrow> n \<le> round_even x"
  using round_even_mono [of "of_int n" x] by simp

lemma round_even_le: "x \<le> of_int n \<Longrightarrow> round_even x \<le> n"
  using round_even_mono [of x "of_int n"] by simp

section \<open>Rounding to a neighbour\<close>

lemma ulp_pos [simp]: "0 < ulp q"
  by (simp add: ulp_def)

text \<open>The numbers that a binary64 can hold.\<close>

definition representable :: "rat \<Rightarrow> bool" where
  "representable q \<longleftrightarrow> (\<exists>m e. q = of_int m * 2 powi e \<and> \<bar>m\<bar> < 2 ^ 53 \<and> - 1074 \<le> e)"

lemma representableI:
  "q = of_int m * 2 powi e \<Longrightarrow> \<bar>m\<bar> < 2 ^ 53 \<Longrightarrow> - 1074 \<le> e \<Longrightarrow> representable q"
  unfolding representable_def by blast

lemma round_pos_exact:
  assumes "0 < q" and "representable q"
  shows "round_pos q = q"
proof -
  from assms(2) obtain m e where q: "q = of_int m * 2 powi e" "\<bar>m\<bar> < 2 ^ 53" "- 1074 \<le> e"
    unfolding representable_def by blast
  define E where "E = max (binade q) (- 1022)"
  have "E - 52 \<le> e"
  proof (rule ccontr)
    assume "\<not> E - 52 \<le> e"
    then have "E = binade q" "e + 53 \<le> E" using q(3) unfolding E_def by linarith+
    have "q < 2 powi 53 * 2 powi e"
    proof -
      have "of_int m < (of_int (2 ^ 53) :: rat)" using q(2) by (simp only: of_int_less_iff)
      then show ?thesis unfolding q(1) by (intro mult_strict_right_mono) simp_all
    qed
    also have "\<dots> = 2 powi (e + 53)" by (simp only: two_powi_add mult.commute)
    also have "\<dots> \<le> 2 powi E" using \<open>e + 53 \<le> E\<close> by (simp only: two_powi_le_iff)
    also have "\<dots> \<le> q" using binade_bounds(1) [OF assms(1)] \<open>E = binade q\<close> by simp
    finally show False by simp
  qed
  then obtain k where k: "e = E - 52 + int k" using zle_iff_zadd by blast
  have u: "ulp q = 2 powi (E - 52)" by (simp add: ulp_def E_def)
  have q_ulp: "q = of_int (m * 2 ^ k) * ulp q"
    unfolding u by (simp add: q(1) k two_powi_add power_int_of_nat)
  have "q / ulp q = of_int (m * 2 ^ k)"
    by (subst q_ulp) (simp add: less_imp_neq [OF ulp_pos, symmetric])
  then have "round_even (q / ulp q) = m * 2 ^ k" by (simp only: round_even_of_int)
  then show ?thesis using q_ulp by (simp only: round_pos_def)
qed

lemma round_pos_mono:
  assumes "0 < q" and "q \<le> q'"
  shows "round_pos q \<le> round_pos q'"
proof -
  define E E' where "E = max (binade q) (- 1022)" and "E' = max (binade q') (- 1022)"
  have "E \<le> E'" using binade_mono [OF assms] unfolding E_def E'_def by simp
  show ?thesis
  proof (cases "E = E'")
    case True
    then have u: "ulp q = ulp q'" by (simp add: ulp_def E_def E'_def)
    have "q / ulp q' \<le> q' / ulp q'" using assms(2) by (simp add: divide_right_mono less_imp_le)
    then have "round_even (q / ulp q') \<le> round_even (q' / ulp q')" by (rule round_even_mono)
    then show ?thesis by (simp add: round_pos_def u)
  next
    case False
    then have "E < E'" using \<open>E \<le> E'\<close> by simp
    then have E': "E' = binade q'" "E + 1 \<le> E'" unfolding E_def E'_def by linarith+
    have "q \<le> 2 powi (E + 1)"
      using binade_bounds(2) [OF assms(1)] two_powi_le_iff [of "binade q + 1" "E + 1"]
      unfolding E_def by linarith
    also have top: "2 powi (E + 1) = of_int (2 ^ 53) * ulp q"
      unfolding ulp_def E_def [symmetric] two_powi_shift by (rule arg_cong [where f = "(powi) 2"]) simp
    finally have "q / ulp q \<le> of_int (2 ^ 53)" by (simp only: pos_divide_le_eq ulp_pos)
    then have "of_int (round_even (q / ulp q)) \<le> (of_int (2 ^ 53) :: rat)"
      by (simp only: of_int_le_iff round_even_le)
    then have "round_pos q \<le> of_int (2 ^ 53) * ulp q"
      unfolding round_pos_def by (rule mult_right_mono) (simp add: less_imp_le)
    also have "\<dots> = 2 powi (E + 1)" by (rule top [symmetric])
    also have "\<dots> \<le> 2 powi E'" using E'(2) by (simp only: two_powi_le_iff)
    also have bottom: "2 powi E' = of_int (2 ^ 52) * ulp q'"
      unfolding ulp_def E'_def [symmetric] two_powi_shift by (rule arg_cong [where f = "(powi) 2"]) simp
    also have "\<dots> \<le> round_pos q'"
    proof -
      have "2 powi E' \<le> q'" using binade_bounds(1) [of q'] assms E'(1) by simp
      then have "of_int (2 ^ 52) \<le> q' / ulp q'"
        unfolding bottom by (simp only: pos_le_divide_eq ulp_pos)
      then have "2 ^ 52 \<le> round_even (q' / ulp q')" by (rule round_even_ge)
      then have "of_int (2 ^ 52) \<le> (of_int (round_even (q' / ulp q')) :: rat)"
        by (simp only: of_int_le_iff)
      then show ?thesis
        unfolding round_pos_def by (rule mult_right_mono) (simp add: less_imp_le)
    qed
    finally show ?thesis .
  qed
qed

section \<open>Whole numbers up to \<open>2 ^ 53\<close>, and fractions of them\<close>

text \<open>A byte count: a whole number that a binary64 holds exactly.\<close>

definition f_int :: "int \<Rightarrow> f64" where
  "f_int n = Fin (of_int n)"

lemma representable_int:
  assumes "\<bar>n\<bar> \<le> 2 ^ 53"
  shows "representable (of_int n)"
proof (cases "\<bar>n\<bar> = 2 ^ 53")
  case False
  then show ?thesis using assms by (intro representableI [of _ n 0]) simp_all
next
  case True
  then consider "n = 2 ^ 52 * 2" | "n = - (2 ^ 52) * 2" by (auto simp: abs_if split: if_splits)
  then show ?thesis
  proof cases
    case 1
    show ?thesis unfolding 1 by (rule representableI [of _ "2 ^ 52" 1]) simp_all
  next
    case 2
    show ?thesis unfolding 2 by (rule representableI [of _ "- (2 ^ 52)" 1]) simp_all
  qed
qed

lemma representable_minus:
  assumes "representable q"
  shows "representable (- q)"
proof -
  from assms obtain m e where "q = of_int m * 2 powi e" "\<bar>m\<bar> < 2 ^ 53" "- 1074 \<le> e"
    unfolding representable_def by blast
  then show ?thesis by (intro representableI [of _ "- m" e]) simp_all
qed

lemma round_f64_exact:
  assumes "representable q" and "\<bar>q\<bar> < 2 ^ 1024"
  shows "round_f64 q = Fin q"
  using assms round_pos_exact [of q] round_pos_exact [of "- q"] representable_minus [of q]
  by (auto simp: round_f64_def Let_def)

lemma int_below_overflow: "\<bar>n\<bar> \<le> 2 ^ 53 \<Longrightarrow> \<bar>of_int n :: rat\<bar> < 2 ^ 1024"
proof -
  assume "\<bar>n\<bar> \<le> 2 ^ 53"
  then have "of_int \<bar>n\<bar> \<le> (of_int (2 ^ 53) :: rat)" by (simp only: of_int_le_iff)
  also have "\<dots> = (2 :: rat) ^ 53" by simp
  also have "\<dots> < 2 ^ 1024" by (rule power_strict_increasing) simp_all
  finally show ?thesis by (simp only: of_int_abs)
qed

lemma round_f64_int: "\<bar>n\<bar> \<le> 2 ^ 53 \<Longrightarrow> round_f64 (of_int n) = f_int n"
  unfolding f_int_def by (intro round_f64_exact representable_int int_below_overflow)

lemma f_add_int [simp]: "\<bar>a + b\<bar> \<le> 2 ^ 53 \<Longrightarrow> f_add (f_int a) (f_int b) = f_int (a + b)"
  using round_f64_int [of "a + b"] by (simp add: f_int_def)

lemma f_sub_int [simp]: "\<bar>a - b\<bar> \<le> 2 ^ 53 \<Longrightarrow> f_sub (f_int a) (f_int b) = f_int (a - b)"
  using round_f64_int [of "a - b"] by (simp add: f_int_def f_sub_def)

lemma f_of_word_int: "uint w \<le> 2 ^ 53 \<Longrightarrow> f_of_word w = f_int (uint w)"
  unfolding f_of_word_def by (rule round_f64_int) simp

lemma f_le_int [simp]: "f_le (f_int a) (f_int b) \<longleftrightarrow> a \<le> b"
  by (simp add: f_int_def)

lemma f_eq_int [simp]: "f_eq (f_int a) (f_int b) \<longleftrightarrow> a = b"
  by (simp add: f_int_def)

lemma f_less_int [simp]: "f_less (f_int a) (f_int b) \<longleftrightarrow> a < b"
  by (auto simp: f_less_def)

lemma f_int_eq_iff [simp]: "f_int a = f_int b \<longleftrightarrow> a = b"
  by (simp add: f_int_def)

lemma f_is_finite_int [simp]: "f_is_finite (f_int a)"
  by (simp add: f_int_def)

lemma sat_cast_int:
  assumes "0 \<le> n" and "n < 2 ^ LENGTH('a)"
  shows "uint (sat_cast (f_int n) :: 'a::len word) = n"
proof (cases "n = 0")
  case False
  then have "sat_cast (f_int n) = (of_int n :: 'a word)" using assms by (simp add: sat_cast_def f_int_def)
  moreover have "uint (of_int n :: 'a word) = n" using assms by (simp add: uint_word_of_int take_bit_int_eq_self)
  ultimately show ?thesis by simp
qed (simp add: sat_cast_def f_int_def)

lemma round_f64_le:
  assumes "0 \<le> q" and "q \<le> r" and "representable r" and "r < 2 ^ 1024"
  shows "\<exists>x. round_f64 q = Fin x \<and> 0 \<le> x \<and> x \<le> r"
proof (cases "q = 0")
  case True
  then show ?thesis using assms by (simp add: round_f64_def)
next
  case False
  with assms have q: "0 < q" "0 < r" by linarith+
  have "round_pos q \<le> r" using round_pos_mono [OF q(1) assms(2)] round_pos_exact [OF q(2) assms(3)] by simp
  moreover have "0 \<le> round_pos q"
  proof -
    have "0 \<le> round_even (q / ulp q)"
      by (rule round_even_ge) (simp add: less_imp_le [OF q(1)] less_imp_le [OF ulp_pos])
    then show ?thesis by (simp add: round_pos_def less_imp_le [OF ulp_pos])
  qed
  ultimately show ?thesis using assms(4) q by (simp add: round_f64_def Let_def)
qed

lemma round_f64_ge_1:
  assumes "1 \<le> q"
  shows "f_le (Fin 1) (round_f64 q)"
proof -
  have "representable 1" using representable_int [of 1] by simp
  then have "1 \<le> round_pos q" using round_pos_mono [of 1 q] round_pos_exact [of 1] assms by simp
  then show ?thesis using assms by (simp add: round_f64_def Let_def)
qed

text \<open>
  The quotient of two byte counts is at least 1 exactly when the dividend is at least the
  divisor: rounding never lifts a proper fraction of at most \<open>2 ^ 53\<close> to 1, because the
  largest such fraction, \<open>1 - 2 ^ -53\<close>, is itself a binary64.
\<close>

lemma f_div_int_less_1:
  assumes "0 \<le> a" and "a < b" and "b \<le> 2 ^ 53"
  shows "\<exists>x. f_div (f_int a) (f_int b) = Fin x \<and> 0 \<le> x \<and> x < 1"
proof -
  let ?r = "of_int (2 ^ 53 - 1) * (2 :: rat) powi (- 53)"
  have b: "0 < b" using assms by linarith
  have "representable ?r" by (rule representableI [OF refl]) simp_all
  moreover have r: "?r < 1" by (simp add: power_int_minus)
  moreover have "of_int a / of_int b \<le> ?r"
  proof -
    have "a * 2 ^ 53 \<le> (b - 1) * 2 ^ 53" using assms(2) by simp
    also have "\<dots> \<le> (2 ^ 53 - 1) * b" using assms(3) by (simp add: algebra_simps)
    finally have "(of_int (a * 2 ^ 53) :: rat) \<le> of_int ((2 ^ 53 - 1) * b)" by (simp only: of_int_le_iff)
    then have "of_int a * 2 ^ 53 \<le> (2 ^ 53 - 1) * (of_int b :: rat)" by simp
    then show ?thesis using b by (simp add: power_int_minus field_simps)
  qed
  moreover have "(0::rat) \<le> of_int a / of_int b" using assms b by simp
  moreover have "?r < 2 ^ 1024" using r by (rule less_trans) simp
  ultimately obtain x where "round_f64 (of_int a / of_int b) = Fin x" "0 \<le> x" "x \<le> ?r"
    using round_f64_le by blast
  with r b show ?thesis by (auto simp: f_int_def)
qed

lemma f_div_int_ge_1:
  assumes "0 < b" and "b \<le> a"
  shows "f_le (f_int 1) (f_div (f_int a) (f_int b))"
proof -
  have "(1::rat) \<le> of_int a / of_int b" using assms by simp
  from round_f64_ge_1 [OF this] show ?thesis using assms by (simp add: f_int_def)
qed

lemma f_div_int_done_iff:
  assumes "0 \<le> a" and "0 < b" and "b \<le> 2 ^ 53"
  shows "f_le (f_int 1) (f_div (f_int a) (f_int b)) \<longleftrightarrow> b \<le> a"
  using f_div_int_ge_1 [of b a] f_div_int_less_1 [of a b] assms
  by (cases "b \<le> a") (auto simp: f_int_def)

lemma f_div_self [simp]: "0 < b \<Longrightarrow> f_div (f_int b) (f_int b) = f_int 1"
  using round_f64_int [of 1] by (simp add: f_int_def)

end
