(* ===== verification/File_Protocol.thy ===== *)
theory File_Protocol
  imports Binary64
begin

text \<open>
  The data-channel protocol of \<open>crates/client/src/protocol.rs\<close>: the control frames and the loop
  that splits a file into consecutive byte ranges. The client is compiled to wasm32, where
  \<open>usize\<close> has 32 bits. The JSON text of a frame is made and read by serde\_json, which is not
  part of the repository; routers take the decoder as an argument.
\<close>

section \<open>Frames\<close>

type_synonym usize = u32

definition CHUNK_SIZE :: usize where "CHUNK_SIZE = 256 * 1024"

definition SLAB_SIZE :: usize where "SLAB_SIZE = 8 * 1024 * 1024"

record file_start =
  fs_id :: u64
  fs_name :: rstr
  fs_size :: f64
  fs_mime :: rstr

record file_end =
  fe_id :: u64

datatype control =
    Offer file_start
  | Accept u64
  | Reject u64
  | Start file_start
  | End file_end
  | Cancel u64
  | Abort u64

section \<open>Splitting a length into ranges\<close>

text \<open>
  The additions are on \<open>u64\<close> and wrap in the release build (a debug build panics at the same
  place), so the loop need not end: \<open>None\<close> means that it does not.
\<close>

partial_function (option) split_loop ::
  "u64 \<Rightarrow> u64 \<Rightarrow> u64 \<Rightarrow> (u64 \<times> u64) list \<Rightarrow> (u64 \<times> u64) list option" where
  "split_loop tot step start ranges =
     (if start < tot then
        (let e = min (start + step) tot in split_loop tot step e (ranges @ [(start, e)]))
      else Some ranges)"

definition split_ranges :: "u64 \<Rightarrow> usize \<Rightarrow> (u64 \<times> u64) list option" where
  "split_ranges tot step = (if step = 0 then Some [] else split_loop tot (ucast step) 0 [])"

text \<open>The reference: the same ranges over unbounded numbers.\<close>

function ref_ranges :: "nat \<Rightarrow> nat \<Rightarrow> nat \<Rightarrow> (nat \<times> nat) list" where
  "ref_ranges tot step start =
     (if start < tot \<and> 0 < step
      then (start, min (start + step) tot) # ref_ranges tot step (min (start + step) tot)
      else [])"
  by pat_completeness auto
termination by (relation "measure (\<lambda>(tot, step, start). tot - start)") auto

declare ref_ranges.simps [simp del]

lemma ref_ranges_stop [simp]: "\<not> start < tot \<Longrightarrow> ref_ranges tot step start = []"
  by (simp add: ref_ranges.simps)

lemma ref_ranges_next:
  "start < tot \<Longrightarrow> 0 < step \<Longrightarrow>
     ref_ranges tot step start =
       (start, min (start + step) tot) # ref_ranges tot step (min (start + step) tot)"
  by (subst ref_ranges.simps) simp

lemma ref_ranges_bounds:
  "(a, b) \<in> set (ref_ranges tot step start) \<Longrightarrow> start \<le> a \<and> a < b \<and> b \<le> tot \<and> b - a \<le> step"
proof (induction tot step start rule: ref_ranges.induct)
  case (1 tot step start)
  show ?case
  proof (cases "start < tot \<and> 0 < step")
    case True
    with 1 show ?thesis by (fastforce simp: ref_ranges_next)
  next
    case False
    with 1(2) show ?thesis by (simp add: ref_ranges.simps [of tot step start])
  qed
qed

text \<open>Cutting a list along the ranges and putting the pieces together gives the list back.\<close>

definition slice :: "'b list \<Rightarrow> nat \<times> nat \<Rightarrow> 'b list" where
  "slice xs = (\<lambda>(a, b). take (b - a) (drop a xs))"

lemma slice_append:
  "a \<le> b \<Longrightarrow> b \<le> c \<Longrightarrow> slice xs (a, b) @ slice xs (b, c) = slice xs (a, c)"
proof -
  assume "a \<le> b" "b \<le> c"
  then have "drop b xs = drop (b - a) (drop a xs)" "c - a = (b - a) + (c - b)" by auto
  then show ?thesis unfolding slice_def by (simp only: prod.case take_add)
qed

lemma concat_ref_ranges:
  "start \<le> tot \<Longrightarrow> 0 < step \<Longrightarrow>
     concat (map (slice xs) (ref_ranges tot step start)) = slice xs (start, tot)"
proof (induction tot step start rule: ref_ranges.induct)
  case (1 tot step start)
  show ?case
  proof (cases "start < tot")
    case True
    with 1 have "concat (map (slice xs) (ref_ranges tot step (min (start + step) tot))) =
        slice xs (min (start + step) tot, tot)" by simp
    with True 1 show ?thesis by (simp add: ref_ranges_next slice_append)
  next
    case False
    with 1 show ?thesis by (simp add: slice_def)
  qed
qed

lemma slice_all [simp]: "slice xs (0, length xs) = xs"
  by (simp add: slice_def)

lemma length_ref_ranges:
  "0 < step \<Longrightarrow> length (ref_ranges tot step start) = (tot - start + step - 1) div step"
proof (induction tot step start rule: ref_ranges.induct)
  case (1 tot step start)
  show ?case
  proof (cases "start < tot")
    case True
    have "length (ref_ranges tot step start) =
        Suc ((tot - min (start + step) tot + step - 1) div step)"
      using True 1 by (simp add: ref_ranges_next)
    also have "\<dots> = (tot - start + step - 1) div step"
    proof (cases "start + step \<le> tot")
      case True
      then have "tot - start + step - 1 = (tot - min (start + step) tot + step - 1) + step"
        using 1(2) by simp
      then show ?thesis using 1(2) by (simp only: div_add_self2)
    next
      case False
      then have "tot - start + step - 1 = (tot - start - 1) + step" "tot - start - 1 < step"
        using True by linarith+
      then have "(tot - start + step - 1) div step = Suc 0"
        using 1(2) by (simp only: div_add_self2 div_less)
      with False 1(2) show ?thesis by simp
    qed
    finally show ?thesis .
  next
    case False
    with 1 show ?thesis by simp
  qed
qed

lemma ref_ranges_index:
  "0 < step \<Longrightarrow> i < length (ref_ranges tot step start) \<longleftrightarrow> start + i * step < tot"
proof (induction tot step start arbitrary: i rule: ref_ranges.induct)
  case (1 tot step start)
  show ?case
  proof (cases "start < tot")
    case True
    let ?e = "min (start + step) tot"
    have L: "length (ref_ranges tot step start) = Suc (length (ref_ranges tot step ?e))"
      using True 1(2) by (simp add: ref_ranges_next)
    show ?thesis
    proof (cases i)
      case 0
      with True L show ?thesis by simp
    next
      case (Suc j)
      have "j < length (ref_ranges tot step ?e) \<longleftrightarrow> ?e + j * step < tot"
        using 1(1) [of j] 1(2) True by simp
      also have "\<dots> \<longleftrightarrow> start + Suc j * step < tot" by (auto simp: min_def)
      finally show ?thesis using L Suc by simp
    qed
  next
    case False
    then show ?thesis by simp
  qed
qed

lemma ref_ranges_nth:
  "0 < step \<Longrightarrow> start + i * step < tot \<Longrightarrow>
     ref_ranges tot step start ! i = (start + i * step, min (start + Suc i * step) tot)"
proof (induction tot step start arbitrary: i rule: ref_ranges.induct)
  case (1 tot step start)
  show ?case
  proof (cases i)
    case 0
    with 1(2,3) show ?thesis by (simp add: ref_ranges_next)
  next
    case (Suc j)
    with 1(2,3) have step: "start < tot" "min (start + step) tot = start + step" by simp_all
    with 1 Suc show ?thesis by (simp add: ref_ranges_next add.assoc)
  qed
qed

text \<open>Below the overflow the machine loop computes the reference.\<close>

lemma split_loop_ref:
  assumes "unat tot + unat step \<le> 2 ^ 64" and "0 < step"
  shows "split_loop tot step start ranges =
     Some (ranges @ map (map_prod of_nat of_nat) (ref_ranges (unat tot) (unat step) (unat start)))"
proof (induction "unat tot - unat start" arbitrary: start ranges rule: less_induct)
  case less
  show ?case
  proof (cases "start < tot")
    case False
    then show ?thesis by (simp add: split_loop.simps [of tot step start] word_less_nat_alt)
  next
    case True
    have step: "0 < unat step" using assms(2) by (simp add: word_less_nat_alt)
    have sum: "unat (start + step) = unat start + unat step"
      using True assms(1) by (intro unat_add_lem [THEN iffD1]) (simp add: word_less_nat_alt)
    define e where "e = min (start + step) tot"
    have e: "unat e = min (unat start + unat step) (unat tot)"
      using sum by (auto simp: e_def min_def word_le_nat_alt)
    have "unat tot - unat e < unat tot - unat start"
      using True step e by (simp add: word_less_nat_alt)
    then have "split_loop tot step e (ranges @ [(start, e)]) =
        Some ((ranges @ [(start, e)]) @
          map (map_prod of_nat of_nat) (ref_ranges (unat tot) (unat step) (unat e)))"
      by (rule less.hyps)
    moreover have "split_loop tot step start ranges = split_loop tot step e (ranges @ [(start, e)])"
      using True by (simp add: split_loop.simps [of tot step start] e_def Let_def)
    moreover have "ref_ranges (unat tot) (unat step) (unat start) =
        (unat start, unat e) # ref_ranges (unat tot) (unat step) (unat e)"
      using True step by (simp add: ref_ranges_next word_less_nat_alt e)
    ultimately show ?thesis by simp
  qed
qed

lemma unat_usize: "unat (ucast (n :: usize) :: u64) = unat n"
proof -
  have "unat n < 2 ^ 32" using unsigned_less [of n] by simp
  then show ?thesis by (simp add: unsigned_ucast_eq take_bit_nat_eq_self)
qed

lemma unat_SLAB_SIZE: "unat (ucast SLAB_SIZE :: u64) = 8388608"
  by (simp add: SLAB_SIZE_def)

lemma split_ranges_ref:
  assumes "unat tot + unat step \<le> 2 ^ 64" and "step \<noteq> 0"
  shows "split_ranges tot step =
     Some (map (map_prod of_nat of_nat) (ref_ranges (unat tot) (unat step) 0))"
proof -
  have "0 < (ucast step :: u64)"
    using assms(2) by (simp add: word_less_nat_alt unat_usize unat_gt_0)
  then show ?thesis using assms by (simp add: split_ranges_def split_loop_ref unat_usize)
qed

text \<open>
  At the top of the range the loop over slabs runs in circles: every start it reaches is a
  multiple of the slab, the addition wraps to 0 and no start is ever at the end.
\<close>

lemma slab_multiple:
  fixes start tot :: u64
  assumes "unat start mod 8388608 = 0" and "2 ^ 64 - 8388608 < unat tot"
  shows "start < tot" and "min (start + 8388608) tot = start + 8388608"
    and "unat (start + 8388608) mod 8388608 = 0"
proof -
  have small: "unat w \<le> 2 ^ 64 - 8388608" if "unat w mod 8388608 = 0" for w :: u64
  proof -
    have "unat w < 2 ^ 64" using unsigned_less [of w] by simp
    moreover from that obtain q where "unat w = 8388608 * q" by (auto simp: mod_eq_0_iff_dvd dvd_def)
    ultimately show ?thesis by simp
  qed
  from small [OF assms(1)] assms(2) show "start < tot" by (simp add: word_less_nat_alt)
  have "unat (start + 8388608) = (unat start + 8388608) mod 2 ^ 64"
    by (simp add: unat_word_ariths)
  moreover have "(n + 8388608) mod 2 ^ 64 mod 8388608 = (n + 8388608) mod (8388608 :: nat)" for n
    by (rule mod_mod_cancel) simp
  ultimately show *: "unat (start + 8388608) mod 8388608 = 0" using assms(1) by simp
  from small [OF *] assms(2) show "min (start + 8388608) tot = start + 8388608"
    by (simp add: min_def word_le_nat_alt)
qed

lemma slab_loop_diverges:
  assumes "2 ^ 64 - 8388608 < unat tot" and "unat start mod 8388608 = 0"
  shows "split_loop tot 8388608 start ranges = None"
proof (rule ccontr)
  assume "split_loop tot 8388608 start ranges \<noteq> None"
  then obtain r where "split_loop tot 8388608 start ranges = Some r" by blast
  then have "(8388608 :: u64) = 8388608 \<longrightarrow> 2 ^ 64 - 8388608 < unat tot \<longrightarrow> unat start mod 8388608 \<noteq> 0"
  proof (rule split_loop.raw_induct [where P = "\<lambda>tot step start ranges r. step = 8388608 \<longrightarrow>
        2 ^ 64 - 8388608 < unat tot \<longrightarrow> unat start mod 8388608 \<noteq> 0", rotated])
    fix f and tot step start :: u64 and ranges r
    assume IH: "\<And>tot step start ranges r. f tot step start ranges = Some r \<Longrightarrow> step = 8388608 \<longrightarrow>
          2 ^ 64 - 8388608 < unat tot \<longrightarrow> unat start mod 8388608 \<noteq> 0"
      and eq: "(if start < tot then let e = min (start + step) tot in f tot step e (ranges @ [(start, e)])
          else Some ranges) = Some r"
    show "step = 8388608 \<longrightarrow> 2 ^ 64 - 8388608 < unat tot \<longrightarrow> unat start mod 8388608 \<noteq> 0"
    proof (intro impI notI)
      assume "step = 8388608" "2 ^ 64 - 8388608 < unat tot" "unat start mod 8388608 = 0"
      note slab = this slab_multiple [OF this(3,2)]
      with eq have "f tot step (start + 8388608) (ranges @ [(start, start + 8388608)]) = Some r"
        by (simp add: Let_def)
      from IH [OF this] slab show False by simp
    qed
  qed
  with assms show False by simp
qed

section \<open>The sender's loops\<close>

text \<open>(C31) The ranges the sender reads and sends partition the file: for every size that leaves room for
  one more step below \<open>2\<^sup>6\<^sup>4\<close> the loop ends, every range is non-empty and at most one step long,
  the pieces of the file along the ranges give the file back in order, and there are as many as
  needed and no more.\<close>

theorem split_ranges_partitions_the_file:
  fixes content :: "'b list"
  assumes "length content + unat step \<le> 2 ^ 64" and "step \<noteq> 0"
  shows "case split_ranges (of_nat (length content)) step of None \<Rightarrow> False
    | Some ranges \<Rightarrow>
        (\<forall>(a, b) \<in> set ranges. a < b \<and> unat b \<le> length content \<and> unat b - unat a \<le> unat step) \<and>
        concat (map (\<lambda>(a, b). slice content (unat a, unat b)) ranges) = content \<and>
        length ranges = (length content + unat step - 1) div unat step"
proof -
  let ?n = "length content" and ?s = "unat step"
  have s: "0 < ?s" using assms(2) by (simp add: unat_gt_0)
  have n: "?n < 2 ^ 64" using assms(1) s by linarith
  then have tot: "unat (of_nat ?n :: u64) = ?n" by (simp add: unat_of_nat_u64)
  let ?rs = "ref_ranges ?n ?s 0"
  have ran: "split_ranges (of_nat ?n) step = Some (map (map_prod of_nat of_nat) ?rs)"
    using assms tot by (simp add: split_ranges_ref)
  have bounds: "a < b \<and> b \<le> ?n \<and> b - a \<le> ?s" if "(a, b) \<in> set ?rs" for a b
    using ref_ranges_bounds [OF that] by simp
  then have small: "unat (of_nat a :: u64) = a \<and> unat (of_nat b :: u64) = b" if "(a, b) \<in> set ?rs" for a b
    using that n by (fastforce simp: unat_of_nat_u64)
  have "concat (map (\<lambda>(a, b). slice content (unat a, unat b)) (map (map_prod of_nat of_nat :: _ \<Rightarrow> u64 \<times> u64) ?rs)) =
      concat (map (slice content) ?rs)"
    using small by (auto intro!: arg_cong [where f = concat])
  also have "\<dots> = content" using s by (simp add: concat_ref_ranges)
  finally show ?thesis
    using bounds small s by (auto simp: ran length_ref_ranges word_less_nat_alt)
qed

theorem split_ranges_partitions_the_file_witness:
  "case split_ranges (of_nat (length [10, 20, 30, 40, 50 :: nat])) 2 of None \<Rightarrow> False
    | Some ranges \<Rightarrow>
        concat (map (\<lambda>(a, b). slice [10, 20, 30, 40, 50 :: nat] (unat a, unat b)) ranges) = [10, 20, 30, 40, 50] \<and>
        length ranges = 3"
  using split_ranges_partitions_the_file [of "[10, 20, 30, 40, 50 :: nat]" 2] by (auto split: option.splits)

text \<open>The loop over the slabs ends exactly for the sizes up to \<open>2\<^sup>6\<^sup>4 - SLAB_SIZE\<close>: for a larger
  \<open>total\<close> the addition \<open>start + step\<close> wraps to 0 and the list of ranges grows without end.\<close>

theorem slab_ranges_end_iff_no_wrap:
  "split_ranges tot SLAB_SIZE = None \<longleftrightarrow> 2 ^ 64 - unat SLAB_SIZE < unat tot"
proof (cases "2 ^ 64 - unat SLAB_SIZE < unat tot")
  case True
  then show ?thesis
    using slab_loop_diverges [of tot 0 "[]"] by (simp add: split_ranges_def SLAB_SIZE_def)
next
  case False
  then have "unat tot + unat SLAB_SIZE \<le> 2 ^ 64" by (simp add: SLAB_SIZE_def)
  moreover have "SLAB_SIZE \<noteq> 0" by (simp add: SLAB_SIZE_def)
  ultimately show ?thesis using False by (simp add: split_ranges_ref)
qed

end
