(* ===== verification/Transfer_State.thy ===== *)
theory Transfer_State
  imports File_Protocol "HOL-Library.Sublist"
begin

text \<open>
  The pure part of the transfer protocol, \<open>crates/client/src/transfer_state.rs\<close>: the sender's
  bookkeeping of offered, queued, streaming and cancelled files with its scheduler, and the
  receiver's accounting of one incoming file.
\<close>

section \<open>State\<close>

type_synonym u8 = "8 word"

record incoming =
  meta :: "file_start option"
  chunks :: "u8 list list"
  received :: f64
  speed :: f64
  win_start :: f64
  win_bytes :: f64

definition incoming_default :: incoming where
  "incoming_default =
     \<lparr>meta = None, chunks = [], received = f_int 0, speed = f_int 0, win_start = f_int 0,
      win_bytes = f_int 0\<rparr>"

record 'f outgoing =
  offered :: "u64 \<Rightarrow> 'f option"
  queue :: "(u64 \<times> 'f) list"
  active :: "u64 set"
  cancelled :: "u64 set"

definition outgoing_default :: "'f outgoing" where
  "outgoing_default = \<lparr>offered = Map.empty, queue = [], active = {}, cancelled = {}\<rparr>"

section \<open>The sender's operations\<close>

definition enqueue_accepted :: "'f outgoing \<Rightarrow> u64 \<Rightarrow> 'f outgoing" where
  "enqueue_accepted out i =
     (case offered out i of
        Some file \<Rightarrow> out\<lparr>offered := (offered out)(i := None), queue := queue out @ [(i, file)]\<rparr>
      | None \<Rightarrow> out)"

text \<open>The \<open>while\<close> of \<open>schedule\<close>, over the queue, the active set and the files started so far.\<close>

fun schedule_loop ::
  "nat \<Rightarrow> (u64 \<times> 'f) list \<Rightarrow> u64 set \<Rightarrow> (u64 \<times> 'f) list \<Rightarrow>
     (u64 \<times> 'f) list \<times> u64 set \<times> (u64 \<times> 'f) list" where
  "schedule_loop cap [] act started = ([], act, started)"
| "schedule_loop cap ((i, file) # q) act started =
     (if card act < cap then schedule_loop cap q (insert i act) (started @ [(i, file)])
      else ((i, file) # q, act, started))"

definition schedule :: "'f outgoing \<Rightarrow> nat \<Rightarrow> (u64 \<times> 'f) list \<times> 'f outgoing" where
  "schedule out cap =
     (let (q, act, started) = schedule_loop cap (queue out) (active out) []
      in (started, out\<lparr>queue := q, active := act\<rparr>))"

definition cancel_outgoing :: "'f outgoing \<Rightarrow> u64 \<Rightarrow> 'f outgoing" where
  "cancel_outgoing out i =
     out\<lparr>offered := (offered out)(i := None),
         queue := filter (\<lambda>(qid, _). qid \<noteq> i) (queue out),
         cancelled := insert i (cancelled out)\<rparr>"

section \<open>The receiver's operations\<close>

definition WINDOW_MS :: f64 where "WINDOW_MS = f_int 250"

definition update_speed :: "incoming \<Rightarrow> f64 \<Rightarrow> f64 \<Rightarrow> incoming" where
  "update_speed inc len now =
     (let inc = inc\<lparr>win_bytes := f_add (win_bytes inc) len\<rparr> in
      if f_eq (win_start inc) (f_int 0) then inc\<lparr>win_start := now\<rparr>
      else
        (let dt = f_sub now (win_start inc) in
         if f_le WINDOW_MS dt
         then inc\<lparr>speed := f_div (win_bytes inc) (f_div dt (f_int 1000)), win_start := now,
                  win_bytes := f_int 0\<rparr>
         else inc))"

definition account_chunk ::
  "incoming \<Rightarrow> f64 \<Rightarrow> f64 \<Rightarrow> (u64 \<times> rstr \<times> f64 \<times> f64 \<times> f64) option \<times> incoming" where
  "account_chunk inc len now =
     (let inc = update_speed (inc\<lparr>received := f_add (received inc) len\<rparr>) len now in
      (map_option (\<lambda>m. (fs_id m, fs_name m, fs_size m, received inc, speed inc)) (meta inc), inc))"

definition finalize_decision :: "incoming \<Rightarrow> file_start option \<times> incoming" where
  "finalize_decision inc = (meta inc, inc\<lparr>meta := None\<rparr>)"

text \<open>The checked variant, which the program does not call yet and which ignores the id.\<close>

definition finalize_decision_checked :: "incoming \<Rightarrow> u64 \<Rightarrow> file_start option \<times> incoming" where
  "finalize_decision_checked inc end_id = (meta inc, inc\<lparr>meta := None\<rparr>)"

section \<open>What the scheduler does\<close>

lemma schedule_loop_split:
  "schedule_loop cap q act started = (q', act', started') \<Longrightarrow>
     \<exists>new. started' = started @ new \<and> q = new @ q' \<and> act' = act \<union> fst ` set new"
proof (induction cap q act started rule: schedule_loop.induct)
  case (2 cap i f q act started)
  then show ?case by (fastforce split: if_splits)
qed simp

lemma schedule_loop_full:
  "schedule_loop cap q act started = (q', act', started') \<Longrightarrow> q' \<noteq> [] \<Longrightarrow> cap \<le> card act'"
  by (induction cap q act started rule: schedule_loop.induct) (auto split: if_splits)

lemma schedule_loop_card:
  "schedule_loop cap q act started = (q', act', started') \<Longrightarrow> finite act \<Longrightarrow> card act \<le> cap \<Longrightarrow>
     finite act' \<and> card act' \<le> cap"
  by (induction cap q act started rule: schedule_loop.induct) (auto simp: card_insert_if split: if_splits)

lemma schedule_frame [simp]:
  "offered (snd (schedule out cap)) = offered out"
  "cancelled (snd (schedule out cap)) = cancelled out"
  by (simp_all add: schedule_def case_prod_unfold Let_def)

lemma schedule_splits_queue: "queue out = fst (schedule out cap) @ queue (snd (schedule out cap))"
  and schedule_active: "active (snd (schedule out cap)) = active out \<union> fst ` set (fst (schedule out cap))"
  using schedule_loop_split [of cap "queue out" "active out" "[]"]
  by (auto simp: schedule_def case_prod_unfold Let_def prod_eq_iff)

lemma schedule_full: "queue (snd (schedule out cap)) \<noteq> [] \<Longrightarrow> cap \<le> card (active (snd (schedule out cap)))"
  using schedule_loop_full [of cap "queue out" "active out" "[]"]
  by (auto simp: schedule_def case_prod_unfold Let_def prod_eq_iff)

lemma schedule_card:
  "finite (active out) \<Longrightarrow> card (active out) \<le> cap \<Longrightarrow>
     finite (active (snd (schedule out cap))) \<and> card (active (snd (schedule out cap))) \<le> cap"
  using schedule_loop_card [of cap "queue out" "active out" "[]"]
  by (auto simp: schedule_def case_prod_unfold Let_def prod_eq_iff)

lemma enqueue_accepted_simps [simp]:
  "active (enqueue_accepted out i) = active out"
  "cancelled (enqueue_accepted out i) = cancelled out"
  "offered (enqueue_accepted out i) = (offered out)(i := None)"
  "queue (enqueue_accepted out i) =
     queue out @ (case offered out i of None \<Rightarrow> [] | Some file \<Rightarrow> [(i, file)])"
  by (auto simp: enqueue_accepted_def fun_eq_iff split: option.splits)

lemma cancel_outgoing_simps [simp]:
  "active (cancel_outgoing out i) = active out"
  "cancelled (cancel_outgoing out i) = insert i (cancelled out)"
  "offered (cancel_outgoing out i) = (offered out)(i := None)"
  "queue (cancel_outgoing out i) = filter (\<lambda>(qid, _). qid \<noteq> i) (queue out)"
  by (simp_all add: cancel_outgoing_def)

section \<open>What the receiver counts\<close>

text \<open>A sequence of chunks, each with its length (\<open>array.length() as f64\<close>) and its arrival time.\<close>

fun account_all :: "incoming \<Rightarrow> (u32 \<times> f64) list \<Rightarrow> incoming" where
  "account_all inc [] = inc"
| "account_all inc ((len, now) # xs) = account_all (snd (account_chunk inc (f_of_word len) now)) xs"

lemma update_speed_frame [simp]:
  "received (update_speed inc len now) = received inc"
  "meta (update_speed inc len now) = meta inc"
  "chunks (update_speed inc len now) = chunks inc"
  by (simp_all add: update_speed_def Let_def)

lemma account_chunk_simps [simp]:
  "received (snd (account_chunk inc len now)) = f_add (received inc) len"
  "meta (snd (account_chunk inc len now)) = meta inc"
  "chunks (snd (account_chunk inc len now)) = chunks inc"
  by (simp_all add: account_chunk_def Let_def)

lemma uint_u32_le: "uint (w :: u32) \<le> 2 ^ 53"
  using uint_lt2p [of w] by simp

lemma received_account_all:
  "received inc = f_int n \<Longrightarrow> 0 \<le> n \<Longrightarrow> n + (\<Sum>(len, _) \<leftarrow> xs. uint len) \<le> 2 ^ 53 \<Longrightarrow>
     received (account_all inc xs) = f_int (n + (\<Sum>(len, _) \<leftarrow> xs. uint len)) \<and>
     meta (account_all inc xs) = meta inc"
proof (induction xs arbitrary: inc n)
  case (Cons x xs)
  obtain len now where x: "x = (len, now)" by fastforce
  have nn: "0 \<le> (\<Sum>(len, _) \<leftarrow> xs. uint len)" by (rule sum_list_nonneg) auto
  let ?inc = "snd (account_chunk inc (f_of_word len) now)"
  have "received ?inc = f_int (n + uint len)"
    using Cons.prems nn by (simp add: x f_of_word_int uint_u32_le)
  from Cons.IH [OF this] Cons.prems show ?case by (simp add: x add.assoc)
qed simp

text \<open>The count of received bytes is exact: after any chunks of a file of up to \<open>2\<^sup>5\<^sup>3\<close> bytes,
  whatever their arrival times, the next progress report carries the file's own id, name and
  size and the sum of all lengths, without a rounding error in the \<open>f64\<close> accumulator.\<close>

theorem received_bytes_are_exact:
  fixes len :: u32 and m :: file_start
  assumes "(\<Sum>(len, _) \<leftarrow> xs. uint len) + uint len \<le> 2 ^ 53"
  defines "inc \<equiv> account_all (incoming_default\<lparr>meta := Some m\<rparr>) xs"
  shows "\<exists>sp. fst (account_chunk inc (f_of_word len) now) =
    Some (fs_id m, fs_name m, fs_size m, f_int ((\<Sum>(len, _) \<leftarrow> xs. uint len) + uint len), sp)"
proof -
  let ?n = "\<Sum>(len, _) \<leftarrow> xs. uint len"
  have nn: "0 \<le> ?n" by (rule sum_list_nonneg) auto
  have "0 \<le> uint len" by simp
  with assms(1) have "?n \<le> 2 ^ 53" by linarith
  then have "received inc = f_int ?n \<and> meta inc = Some m"
    unfolding inc_def using received_account_all [of "incoming_default\<lparr>meta := Some m\<rparr>" 0 xs]
    by (simp add: incoming_default_def)
  then show ?thesis using assms(1) nn
    by (simp add: account_chunk_def Let_def f_of_word_int uint_u32_le)
qed

theorem received_bytes_are_exact_witness:
  "\<exists>sp. fst (account_chunk (account_all (incoming_default\<lparr>meta :=
        Some \<lparr>fs_id = 7, fs_name = lit ''a'', fs_size = f_int 262149, fs_mime = []\<rparr>\<rparr>)
        [(262144, f_int 10)]) (f_of_word (5 :: u32)) (f_int 20)) =
    Some (7, lit ''a'', f_int 262149, f_int ((\<Sum>(len, _) \<leftarrow> [(262144 :: u32, f_int 10)]. uint len) + uint (5 :: u32)), sp)"
  using received_bytes_are_exact [of "[(262144, f_int 10)]" 5
      "\<lparr>fs_id = 7, fs_name = lit ''a'', fs_size = f_int 262149, fs_mime = []\<rparr>" "f_int 20"] by simp

text \<open>What the rate estimate measures: a window that closes after \<open>d \<ge> 250\<close> milliseconds shows
  the bytes that arrived since the previous window closed, per second. Only the very first one
  is wrong: it also counts the chunk whose arrival opened it, so for chunks that arrive at a
  steady pace of one per window the first estimate is twice the rate.\<close>

theorem first_window_counts_the_opening_chunk:
  fixes t d a b c :: int
  assumes "0 < t" and "250 \<le> d" and "t + 2 * d \<le> 2 ^ 53"
    and "0 \<le> a" and "0 \<le> b" and "0 \<le> c" and "a + b \<le> 2 ^ 53" and "c \<le> 2 ^ 53"
  defines "i1 \<equiv> update_speed incoming_default (f_int a) (f_int t)"
  defines "i2 \<equiv> update_speed i1 (f_int b) (f_int (t + d))"
  defines "i3 \<equiv> update_speed i2 (f_int c) (f_int (t + 2 * d))"
  shows "speed i1 = f_int 0 \<and> speed i2 = f_div (f_int (a + b)) (f_div (f_int d) (f_int 1000)) \<and>
    speed i3 = f_div (f_int c) (f_div (f_int d) (f_int 1000))"
proof -
  have "i1 = incoming_default\<lparr>win_bytes := f_int a, win_start := f_int t\<rparr>"
    using assms(1-8) by (simp add: i1_def update_speed_def incoming_default_def)
  then have "i2 = incoming_default\<lparr>win_bytes := f_int 0, win_start := f_int (t + d),
      speed := f_div (f_int (a + b)) (f_div (f_int d) (f_int 1000))\<rparr>"
    using assms(1-8) by (simp add: i2_def update_speed_def incoming_default_def WINDOW_MS_def Let_def)
  then show ?thesis
    using assms(1-8) \<open>i1 = _\<close>
    by (simp add: i3_def update_speed_def incoming_default_def WINDOW_MS_def Let_def)
qed

theorem first_window_counts_the_opening_chunk_witness:
  "speed (update_speed (update_speed incoming_default (f_int 65536) (f_int 40)) (f_int 65536) (f_int (40 + 256))) =
     f_div (f_int (65536 + 65536)) (f_div (f_int 256) (f_int 1000))"
  using first_window_counts_the_opening_chunk [of 40 256 65536 65536 65536] by simp

end
