(* ===== verification/Send_Scheduler.thy ===== *)
theory Send_Scheduler
  imports Transfer_State
begin

text \<open>
  The life of the outgoing files of one \<open>Transfer\<close> (\<open>crates/client/src/transfer.rs\<close>): offers,
  the peer's answers, cancellations and the end of a sending task, as far as they change the
  sender's bookkeeping. The machine is the one the control router and the sending tasks drive;
  it also records which files were accepted, started and cancelled so far, in order, so that the
  properties can speak about them. The program does not read these records.
\<close>

section \<open>The machine\<close>

definition MAX_CONCURRENT :: nat where "MAX_CONCURRENT = 4"

record 'f sender =
  out :: "'f outgoing"
  started :: "(u64 \<times> 'f) list"
  accepted :: "(u64 \<times> 'f) list"
  stopped :: "u64 set"

definition sender_new :: "'f sender" where
  "sender_new = \<lparr>out = outgoing_default, started = [], accepted = [], stopped = {}\<rparr>"

datatype 'f sender_op =
    Offer_File u64 'f     \<comment> \<open>\<open>offer_files\<close>\<close>
  | Accepted u64          \<comment> \<open>an \<open>Accept\<close> frame\<close>
  | Rejected u64          \<comment> \<open>a \<open>Reject\<close> frame\<close>
  | Stopped u64           \<comment> \<open>a \<open>Cancel\<close> frame or a local \<open>abort\<close>\<close>
  | Finished u64          \<comment> \<open>the task of the file comes to its end\<close>

definition start_next :: "nat \<Rightarrow> 'f sender \<Rightarrow> 'f sender" where
  "start_next cap s =
     (let (files, o') = schedule (out s) cap in s\<lparr>out := o', started := started s @ files\<rparr>)"

text \<open>The end of \<open>send_file_on_channel\<close>: forget a pending cancellation, free the slot.\<close>

definition release_slot :: "u64 \<Rightarrow> 'f outgoing \<Rightarrow> 'f outgoing" where
  "release_slot i o' =
     (let o' = (if i \<in> cancelled o' then o'\<lparr>cancelled := cancelled o' - {i}\<rparr> else o')
      in o'\<lparr>active := active o' - {i}\<rparr>)"

fun sender_step :: "nat \<Rightarrow> 'f sender \<Rightarrow> 'f sender_op \<Rightarrow> 'f sender" where
  "sender_step cap s (Offer_File i f) =
     s\<lparr>out := out s\<lparr>offered := (offered (out s))(i \<mapsto> f)\<rparr>\<rparr>"
| "sender_step cap s (Accepted i) =
     start_next cap
       (s\<lparr>out := enqueue_accepted (out s) i,
          accepted := accepted s @ (case offered (out s) i of None \<Rightarrow> [] | Some f \<Rightarrow> [(i, f)])\<rparr>)"
| "sender_step cap s (Rejected i) =
     s\<lparr>out := out s\<lparr>offered := (offered (out s))(i := None)\<rparr>\<rparr>"
| "sender_step cap s (Stopped i) =
     s\<lparr>out := cancel_outgoing (out s) i, stopped := insert i (stopped s)\<rparr>"
| "sender_step cap s (Finished i) = start_next cap (s\<lparr>out := release_slot i (out s)\<rparr>)"

text \<open>
  Only a task that runs can end, and a file is offered under an id that was not used before
  (\<open>app.rs\<close> counts the ids up).
\<close>

fun sender_ok :: "'f sender \<Rightarrow> 'f sender_op \<Rightarrow> bool" where
  "sender_ok s (Offer_File i f) \<longleftrightarrow> offered (out s) i = None \<and> i \<notin> fst ` set (accepted s)"
| "sender_ok s (Finished i) \<longleftrightarrow> i \<in> active (out s)"
| "sender_ok s _ \<longleftrightarrow> True"

section \<open>The invariant\<close>

definition sender_inv :: "nat \<Rightarrow> 'f sender \<Rightarrow> bool" where
  "sender_inv cap s \<longleftrightarrow>
     finite (active (out s)) \<and> card (active (out s)) \<le> cap \<and>
     (queue (out s) \<noteq> [] \<longrightarrow> card (active (out s)) = cap) \<and>
     distinct (map fst (accepted s)) \<and>
     (\<forall>i \<in> fst ` set (accepted s). offered (out s) i = None) \<and>
     subseq (started s @ queue (out s)) (accepted s) \<and>
     active (out s) \<subseteq> fst ` set (started s) \<and>
     filter (\<lambda>(i, f). i \<notin> stopped s) (started s @ queue (out s)) =
       filter (\<lambda>(i, f). i \<notin> stopped s) (accepted s)"

lemma start_next_simps:
  "started (start_next cap s) @ queue (out (start_next cap s)) = started s @ queue (out s)"
  "offered (out (start_next cap s)) = offered (out s)"
  "accepted (start_next cap s) = accepted s"
  "stopped (start_next cap s) = stopped s"
  "active (out (start_next cap s)) =
     active (out s) \<union> fst ` set (fst (schedule (out s) cap))"
  "started (start_next cap s) = started s @ fst (schedule (out s) cap)"
  using schedule_splits_queue [of "out s" cap]
  by (simp_all add: start_next_def case_prod_unfold Let_def schedule_active)

text \<open>Filling the slots establishes what the scheduler is for, whatever was true before.\<close>

lemma start_next_inv:
  assumes "finite (active (out s))" and "card (active (out s)) \<le> cap"
    and "distinct (map fst (accepted s))" and "\<forall>i \<in> fst ` set (accepted s). offered (out s) i = None"
    and "subseq (started s @ queue (out s)) (accepted s)"
    and "active (out s) \<subseteq> fst ` set (started s)"
    and "filter (\<lambda>(i, f). i \<notin> stopped s) (started s @ queue (out s)) =
         filter (\<lambda>(i, f). i \<notin> stopped s) (accepted s)"
  shows "sender_inv cap (start_next cap s)"
proof -
  have c: "finite (active (snd (schedule (out s) cap))) \<and> card (active (snd (schedule (out s) cap))) \<le> cap"
    using assms by (simp add: schedule_card)
  have o: "out (start_next cap s) = snd (schedule (out s) cap)"
    by (simp add: start_next_def case_prod_unfold Let_def)
  show ?thesis
    unfolding sender_inv_def start_next_simps(1)
    using assms(3-) c schedule_full [of "out s" cap]
    by (auto simp: o start_next_simps(3,4,6) schedule_active)
qed

lemma subseq_snoc: "subseq (xs @ ys) zs \<Longrightarrow> subseq (xs @ ys @ [x]) (zs @ [x])"
  using list_emb_append_mono [of "(=)" "xs @ ys" zs "[x]" "[x]"] by simp

lemma filter_refine:
  assumes "filter P xs = filter P ys" and "\<And>x. Q x \<Longrightarrow> P x"
  shows "filter Q xs = filter Q ys"
proof -
  have "filter Q zs = filter Q (filter P zs)" for zs using assms(2) by (auto intro: filter_cong)
  then show ?thesis using assms(1) by metis
qed

lemma filter_absorb: "(\<And>x. Q x \<Longrightarrow> P x) \<Longrightarrow> filter Q (filter P xs) = filter Q xs"
  by (auto intro: filter_cong)

lemma sender_step_inv:
  assumes "sender_inv cap s" and "sender_ok s e"
  shows "sender_inv cap (sender_step cap s e)"
proof (cases e)
  case (Offer_File i f)
  with assms show ?thesis by (auto simp: sender_inv_def)
next
  case (Accepted i)
  show ?thesis
    unfolding Accepted sender_step.simps
    using assms
    by (intro start_next_inv)
       (auto simp: sender_inv_def domIff image_iff split: option.splits intro!: subseq_snoc)
next
  case (Rejected i)
  with assms show ?thesis by (auto simp: sender_inv_def)
next
  case (Stopped i)
  let ?q = "queue (out s)" and ?q' = "filter (\<lambda>(qid, _). qid \<noteq> i) (queue (out s))"
  have sub: "subseq (started s @ ?q') (started s @ ?q)"
    by (intro list_emb_append_mono subseq_filter_left) simp_all
  let ?Q = "\<lambda>(j, f). j \<notin> insert i (stopped s)"
  have "filter ?Q (started s @ ?q') = filter ?Q (started s @ ?q)"
    unfolding filter_append by (subst filter_absorb) auto
  also have "\<dots> = filter ?Q (accepted s)"
    by (rule filter_refine [where P = "\<lambda>(j, f). j \<notin> stopped s"])
       (use assms in \<open>auto simp: sender_inv_def\<close>)
  finally show ?thesis
    using assms sub unfolding Stopped sender_inv_def
    by (auto intro: subseq_order.order_trans simp del: filter_append filter_filter)
next
  case (Finished i)
  have "active (release_slot i (out s)) = active (out s) - {i}"
    "queue (release_slot i (out s)) = queue (out s)" "offered (release_slot i (out s)) = offered (out s)"
    by (simp_all add: release_slot_def Let_def)
  then show ?thesis
    unfolding Finished sender_step.simps
    using assms
    by (intro start_next_inv) (auto simp: sender_inv_def card_Diff_singleton_if)
qed

interpretation sender: invariant_machine "sender_step cap" sender_ok "sender_inv cap"
  by unfold_locales (rule sender_step_inv)

lemma sender_inv_new: "sender_inv cap sender_new"
  by (simp add: sender_inv_def sender_new_def outgoing_default_def)

lemma sender_run_inv:
  "run_ok sender_ok (sender_step cap) sender_new es \<Longrightarrow> sender_inv cap (run (sender_step cap) sender_new es)"
  by (rule sender.run_inv [OF sender_inv_new])

section \<open>Waiting files move up\<close>

definition sender_after :: "'f sender_op list \<Rightarrow> 'f sender" where
  "sender_after es = run (sender_step MAX_CONCURRENT) sender_new es"

definition sender_history :: "'f sender_op list \<Rightarrow> bool" where
  "sender_history es \<longleftrightarrow> run_ok sender_ok (sender_step MAX_CONCURRENT) sender_new es"

fun is_finish :: "'f sender_op \<Rightarrow> bool" where
  "is_finish (Finished i) \<longleftrightarrow> True"
| "is_finish _ \<longleftrightarrow> False"

lemma started_step_mono: "set (started s) \<subseteq> set (started (sender_step cap s e))"
  by (cases e) (auto simp: start_next_simps)

lemma started_run_mono: "set (started s) \<subseteq> set (started (run (sender_step cap) s es))"
  by (induction es arbitrary: s) (use started_step_mono in \<open>simp_all, blast\<close>)

lemma start_next_queue: "queue (out (start_next cap s)) = queue (snd (schedule (out s) cap))"
  by (simp add: start_next_def case_prod_unfold Let_def)

text \<open>A file in the queue is started by the next scheduling or has not lost its place.\<close>

lemma start_next_keeps_place:
  assumes "queue (out s) = pre @ x # post"
  shows "x \<in> set (started (start_next cap s)) \<or>
    (\<exists>pre'. queue (out (start_next cap s)) = pre' @ x # post \<and> length pre' \<le> length pre \<and>
        (card (active (out s)) < cap \<longrightarrow> length pre' < length pre))"
proof -
  let ?new = "fst (schedule (out s) cap)" and ?q = "queue (snd (schedule (out s) cap))"
  have split: "pre @ x # post = ?new @ ?q" using assms schedule_splits_queue [of "out s" cap] by simp
  have progress: "?new \<noteq> []" if "card (active (out s)) < cap"
  proof
    assume "?new = []"
    with split have "?q = pre @ x # post" by simp
    then have "cap \<le> card (active (snd (schedule (out s) cap)))" by (intro schedule_full) simp
    with that \<open>?new = []\<close> show False by (simp add: schedule_active)
  qed
  from split have "?new @ ?q = pre @ x # post" by simp
  then show ?thesis
  proof (cases rule: append_element_cases)
    case (1 ws)
    then show ?thesis using progress by (auto simp: start_next_queue)
  next
    case (2 ws)
    then show ?thesis by (simp add: start_next_simps)
  qed
qed

text \<open>Every end of a streaming file moves the queue up by at least one place.\<close>

lemma waiting_moves_up:
  assumes "sender_inv cap s" and "0 < cap" and "run_ok sender_ok (sender_step cap) s es"
    and "queue (out s) = pre @ (i, f) # post" and "Stopped i \<notin> set es"
    and "length pre < length (filter is_finish es)"
  shows "(i, f) \<in> set (started (run (sender_step cap) s es))"
  using assms(1,3-)
proof (induction es arbitrary: s pre post)
  case (Cons e es)
  note keep = start_next_keeps_place [where x = "(i, f)"] and mono = started_run_mono
  have inv: "sender_inv cap (sender_step cap s e)" using Cons.prems by (simp add: sender_step_inv)
  have full: "card (active (out s)) = cap" "finite (active (out s))"
    using Cons.prems(1,3) by (auto simp: sender_inv_def)
  have "(i, f) \<in> set (started (sender_step cap s e)) \<or>
      (\<exists>pre' post'. queue (out (sender_step cap s e)) = pre' @ (i, f) # post' \<and>
          length pre' \<le> length pre \<and> (is_finish e \<longrightarrow> length pre' < length pre))"
  proof (cases e)
    case (Finished j)
    let ?s = "s\<lparr>out := release_slot j (out s)\<rparr>"
    have "j \<in> active (out s)" using Cons.prems(2) Finished by simp
    then have "card (active (out ?s)) < cap" "queue (out ?s) = pre @ (i, f) # post"
      using full assms(2) Cons.prems(3) by (auto simp: release_slot_def Let_def card_Diff_singleton_if)
    with keep [of ?s pre post cap] show ?thesis unfolding Finished sender_step.simps by fastforce
  next
    case (Accepted j)
    let ?q = "case offered (out s) j of None \<Rightarrow> [] | Some f' \<Rightarrow> [(j, f')]"
    let ?s = "s\<lparr>out := enqueue_accepted (out s) j, accepted := accepted s @ ?q\<rparr>"
    have "queue (out ?s) = pre @ (i, f) # (post @ ?q)" using Cons.prems(3) by simp
    with keep [of ?s pre "post @ ?q" cap] show ?thesis
      unfolding Accepted sender_step.simps by fastforce
  next
    case (Stopped j)
    with Cons.prems(3,4) have "queue (out (sender_step cap s e)) =
        filter (\<lambda>(qid, _). qid \<noteq> j) pre @ (i, f) # filter (\<lambda>(qid, _). qid \<noteq> j) post" by auto
    moreover have "length (filter (\<lambda>(qid, _). qid \<noteq> j) pre) \<le> length pre" by (rule length_filter_le)
    ultimately show ?thesis using Stopped by auto
  qed (use Cons.prems(3) in auto)
  then show ?case
  proof (elim disjE exE conjE)
    assume "(i, f) \<in> set (started (sender_step cap s e))"
    with mono [of "sender_step cap s e" cap es] show ?thesis by auto
  next
    fix pre' post'
    assume "queue (out (sender_step cap s e)) = pre' @ (i, f) # post'"
      and "length pre' \<le> length pre" and "is_finish e \<longrightarrow> length pre' < length pre"
    with Cons.IH [OF inv, of pre' post'] Cons.prems show ?thesis by (auto split: if_splits)
  qed
qed simp

section \<open>What the sender guarantees\<close>

text \<open>A history with six accepted files, a cancellation in the queue and two ends.\<close>

definition demo_sends :: "nat sender_op list" where
  "demo_sends =
     map (\<lambda>i. Offer_File (of_nat i) (10 * i)) [1, 2, 3, 4, 5, 6, 7] @
     map (\<lambda>i. Accepted (of_nat i)) [2, 1, 3, 4, 5, 6] @
     [Stopped 5, Rejected 7, Finished 3, Stopped 2, Finished 2]"

lemma demo_history: "sender_history (take n demo_sends)"
proof -
  have "sender_history demo_sends"
    by (simp add: sender_history_def demo_sends_def sender_new_def outgoing_default_def MAX_CONCURRENT_def
        start_next_def schedule_def enqueue_accepted_def cancel_outgoing_def release_slot_def insert_Diff_if)
  then show ?thesis
    using run_ok_append [of sender_ok "sender_step MAX_CONCURRENT" sender_new "take n demo_sends" "drop n demo_sends"]
    by (simp add: sender_history_def)
qed

text \<open>At every moment at most four files stream, and a file only waits while four do: no slot
  stays empty with work in the queue.\<close>

theorem four_slots_kept_full:
  assumes "sender_history es"
  shows "card (active (out (sender_after es))) \<le> 4 \<and>
    (queue (out (sender_after es)) \<noteq> [] \<longrightarrow> card (active (out (sender_after es))) = 4)"
  using sender_run_inv [of MAX_CONCURRENT es] assms
  by (simp add: sender_history_def sender_after_def sender_inv_def MAX_CONCURRENT_def)

theorem four_slots_kept_full_witness:
  "card (active (out (sender_after (take 12 demo_sends)))) \<le> 4"
  using four_slots_kept_full [OF demo_history [of 12]] by blast

text \<open>The streams start in the order in which the files were accepted, each file at most once and
  only after its acceptance; and no accepted file is lost: apart from those that were cancelled or
  aborted, the started files followed by the waiting ones are exactly the accepted ones.\<close>

theorem accepted_files_start_once_in_order:
  assumes "sender_history es"
  defines "s \<equiv> sender_after es"
  shows "subseq (started s) (accepted s) \<and> distinct (map fst (started s)) \<and>
    filter (\<lambda>(i, f). i \<notin> stopped s) (started s @ queue (out s)) =
      filter (\<lambda>(i, f). i \<notin> stopped s) (accepted s)"
proof -
  have inv: "sender_inv MAX_CONCURRENT s"
    unfolding s_def sender_after_def using assms(1) by (simp add: sender_history_def sender_run_inv)
  have "subseq (started s) (started s @ queue (out s))" by (intro prefix_imp_subseq) simp
  with inv have sub: "subseq (started s) (accepted s)"
    unfolding sender_inv_def using subseq_order.order_trans by blast
  moreover have "distinct (map fst (started s))"
    using subseq_map [OF sub, of fst] inv by (auto simp: sender_inv_def subseq_conv_nths intro: distinct_nthsI)
  ultimately show ?thesis using inv by (simp add: sender_inv_def)
qed

theorem accepted_files_start_once_in_order_witness:
  "subseq (started (sender_after demo_sends)) (accepted (sender_after demo_sends)) \<and>
    distinct (map fst (started (sender_after demo_sends))) \<and>
    filter (\<lambda>(i, f). i \<notin> stopped (sender_after demo_sends))
        (started (sender_after demo_sends) @ queue (out (sender_after demo_sends))) =
      filter (\<lambda>(i, f). i \<notin> stopped (sender_after demo_sends)) (accepted (sender_after demo_sends))"
  by (rule accepted_files_start_once_in_order) (use demo_history [of "length demo_sends"] in simp)

text \<open>(C32) No accepted file starves: one that waits behind \<open>k\<close> others and is not cancelled has been
  started as soon as \<open>k + 1\<close> streams have ended, whatever else happens in between.\<close>

theorem waiting_file_is_started:
  assumes "sender_history (es @ es')"
    and "queue (out (sender_after es)) = pre @ (i, f) # post" and "Stopped i \<notin> set es'"
    and "length pre < length (filter is_finish es')"
  shows "(i, f) \<in> set (started (sender_after (es @ es')))"
  using waiting_moves_up [of MAX_CONCURRENT "sender_after es" es' pre i f post] assms
    sender_run_inv [of MAX_CONCURRENT es]
  by (simp add: sender_history_def sender_after_def run_ok_append MAX_CONCURRENT_def)

theorem waiting_file_is_started_witness:
  "(6, 60) \<in> set (started (sender_after (take 13 demo_sends @ drop 13 demo_sends)))"
  by (rule waiting_file_is_started [where pre = "[(5, 50)]" and post = "[]"])
     (use demo_history [of "length demo_sends"] in \<open>simp_all add: demo_sends_def sender_after_def
        sender_new_def outgoing_default_def MAX_CONCURRENT_def start_next_def schedule_def
        enqueue_accepted_def\<close>)

end
