(* ===== verification/Transfer_Channel.thy ===== *)
theory Transfer_Channel
  imports Send_Scheduler
begin

text \<open>
  The protocol engine of \<open>crates/client/src/transfer.rs\<close>: the control router, the receive router
  of a per-file channel, and the sending task with its loop over slabs and chunks.

  A sending task is a coroutine; it runs from one \<open>await\<close> to the next without interruption, so
  one poll is one function here. What the browser decides in a poll (whether a read or a send
  fails, when the buffer is full, the negotiated message size) is in the record \<open>poll_env\<close>.
  The text of a frame has an arbitrary type; \<open>enc\<close> and \<open>dec\<close> stand for serde's
  \<open>encode_control\<close> and \<open>decode_control\<close>.
\<close>

section \<open>State\<close>

record js_file =
  jf_name :: rstr
  jf_mime :: rstr
  jf_bytes :: "u8 list"

text \<open>\<open>File.size\<close> and \<open>Blob.slice\<close> with \<open>f64\<close> arguments, which clamps to the size.\<close>

definition file_size :: "js_file \<Rightarrow> f64" where
  "file_size file = round_f64 (of_nat (length (jf_bytes file)))"

definition blob_slice :: "u8 list \<Rightarrow> f64 \<Rightarrow> f64 \<Rightarrow> u8 list" where
  "blob_slice bytes a b =
     slice bytes (min (unat (sat_cast a :: u64)) (length bytes), min (unat (sat_cast b :: u64)) (length bytes))"

datatype 't packet = Text 't | Binary "u8 list"

text \<open>The calls of the \<open>Handlers\<close>, in order.\<close>

datatype ui_call =
    On_Offer file_start
  | On_Recv_Progress u64 rstr f64 f64 f64
  | On_Recv_Complete u64 rstr
  | On_Send_Progress u64 rstr f64 f64
  | On_Rejected u64
  | On_Cancelled u64
  | On_Aborted u64

text \<open>Where a sending task is parked.\<close>

datatype phase =
    Spawned                          \<comment> \<open>not polled yet, or waiting for its channel to open\<close>
  | Reading nat f64                  \<comment> \<open>the slab that is read, bytes sent so far\<close>
  | Draining nat "u8 list" u32 f64   \<comment> \<open>next slab, current slab, offset, bytes sent so far\<close>
  | Returned

record 't task =
  tk_id :: u64
  tk_file :: js_file
  tk_phase :: phase
  tk_chunk :: usize
  tk_wire :: "'t packet list"        \<comment> \<open>everything sent on the channel of the file\<close>
  tk_closed :: bool

record saved_file =
  sv_name :: rstr
  sv_mime :: rstr
  sv_bytes :: "u8 list"

record 't shared =
  ctrl_open :: bool
  ctrl_sent :: "'t list"
  incoming_files :: "u64 \<Rightarrow> incoming option"
  outgoing_files :: "js_file outgoing"
  sending :: "'t task list"
  ui :: "ui_call list"
  downloads :: "saved_file list"

definition transfer_new :: "'t shared" where
  "transfer_new =
     \<lparr>ctrl_open = False, ctrl_sent = [], incoming_files = Map.empty, outgoing_files = outgoing_default,
      sending = [], ui = [], downloads = []\<rparr>"

definition ctrl_send :: "'t \<Rightarrow> 't shared \<Rightarrow> 't shared" where
  "ctrl_send t s = (if ctrl_open s then s\<lparr>ctrl_sent := ctrl_sent s @ [t]\<rparr> else s)"

definition call_ui :: "ui_call \<Rightarrow> 't shared \<Rightarrow> 't shared" where
  "call_ui c s = s\<lparr>ui := ui s @ [c]\<rparr>"

definition spawn :: "(u64 \<times> js_file) list \<Rightarrow> 't shared \<Rightarrow> 't shared" where
  "spawn files s =
     s\<lparr>sending := sending s @
         map (\<lambda>(i, file). \<lparr>tk_id = i, tk_file = file, tk_phase = Spawned, tk_chunk = 0, tk_wire = [],
                            tk_closed = False\<rparr>) files\<rparr>"

section \<open>The handle\<close>

definition file_meta :: "u64 \<Rightarrow> js_file \<Rightarrow> file_start" where
  "file_meta i file =
     \<lparr>fs_id = i, fs_name = jf_name file, fs_size = file_size file, fs_mime = jf_mime file\<rparr>"

fun offer_files :: "(control \<Rightarrow> 't) \<Rightarrow> (u64 \<times> js_file) list \<Rightarrow> 't shared \<Rightarrow> 't shared" where
  "offer_files enc [] s = s"
| "offer_files enc ((i, file) # files) s =
     (let s = ctrl_send (enc (Offer (file_meta i file))) s
      in offer_files enc files
           (s\<lparr>outgoing_files := outgoing_files s\<lparr>offered := (offered (outgoing_files s))(i \<mapsto> file)\<rparr>\<rparr>))"

definition transfer_accept :: "(control \<Rightarrow> 't) \<Rightarrow> u64 \<Rightarrow> 't shared \<Rightarrow> 't shared" where
  "transfer_accept enc i s = ctrl_send (enc (Accept i)) s"

definition transfer_reject :: "(control \<Rightarrow> 't) \<Rightarrow> u64 \<Rightarrow> 't shared \<Rightarrow> 't shared" where
  "transfer_reject enc i s = ctrl_send (enc (Reject i)) s"

definition transfer_cancel :: "(control \<Rightarrow> 't) \<Rightarrow> u64 \<Rightarrow> 't shared \<Rightarrow> 't shared" where
  "transfer_cancel enc i s =
     (let s = ctrl_send (enc (Cancel i)) s in s\<lparr>incoming_files := (incoming_files s)(i := None)\<rparr>)"

definition transfer_abort :: "(control \<Rightarrow> 't) \<Rightarrow> u64 \<Rightarrow> 't shared \<Rightarrow> 't shared" where
  "transfer_abort enc i s =
     ctrl_send (enc (Abort i)) (s\<lparr>outgoing_files := cancel_outgoing (outgoing_files s) i\<rparr>)"

section \<open>The control router\<close>

text \<open>Start as many queued files as the cap allows.\<close>

definition pump :: "'t shared \<Rightarrow> 't shared" where
  "pump s = (let (files, o') = schedule (outgoing_files s) MAX_CONCURRENT
     in spawn files (s\<lparr>outgoing_files := o'\<rparr>))"

fun ctrl_frame :: "control \<Rightarrow> 't shared \<Rightarrow> 't shared" where
  "ctrl_frame (Offer m) s = call_ui (On_Offer m) s"
| "ctrl_frame (Accept i) s =
     pump (s\<lparr>outgoing_files := enqueue_accepted (outgoing_files s) i\<rparr>)"
| "ctrl_frame (Reject i) s =
     call_ui (On_Rejected i)
       (s\<lparr>outgoing_files := outgoing_files s\<lparr>offered := (offered (outgoing_files s))(i := None)\<rparr>\<rparr>)"
| "ctrl_frame (Cancel i) s =
     call_ui (On_Cancelled i) (s\<lparr>outgoing_files := cancel_outgoing (outgoing_files s) i\<rparr>)"
| "ctrl_frame (Abort i) s =
     call_ui (On_Aborted i) (s\<lparr>incoming_files := (incoming_files s)(i := None)\<rparr>)"
| "ctrl_frame (Start m) s = s"
| "ctrl_frame (End e) s = s"

definition ctrl_router :: "('t \<Rightarrow> control option) \<Rightarrow> 't packet \<Rightarrow> 't shared \<Rightarrow> 't shared" where
  "ctrl_router dec p s =
     (case p of Binary bytes \<Rightarrow> s
      | Text t \<Rightarrow> (case dec t of Some c \<Rightarrow> ctrl_frame c s | None \<Rightarrow> s))"

section \<open>The receive router\<close>

text \<open>The state of the closure of one per-file channel; \<open>rt_closed\<close> records \<open>dc.close()\<close>.\<close>

record router =
  rt_cur :: "u64 option"
  rt_closed :: bool

definition router_new :: router where
  "router_new = \<lparr>rt_cur = None, rt_closed = False\<rparr>"

text \<open>How far the browser gets: no \<open>Blob\<close>, no object URL for it, or the download.\<close>

datatype download = Blob_Failed | Url_Failed | Downloaded

definition trigger_download :: "download \<Rightarrow> saved_file \<Rightarrow> 't shared \<Rightarrow> 't shared" where
  "trigger_download dl f s = (if dl = Url_Failed then s else s\<lparr>downloads := downloads s @ [f]\<rparr>)"

definition finalize_recv :: "download \<Rightarrow> u64 \<Rightarrow> 't shared \<Rightarrow> 't shared" where
  "finalize_recv dl i s =
     (case incoming_files s i of None \<Rightarrow> s
      | Some inc \<Rightarrow>
          (let parts = chunks inc; (m, inc) = finalize_decision (inc\<lparr>chunks := []\<rparr>);
               s = s\<lparr>incoming_files := (incoming_files s)(i := None)\<rparr>
           in case m of None \<Rightarrow> s
              | Some m \<Rightarrow>
                  (if dl = Blob_Failed then s
                   else call_ui (On_Recv_Complete (fs_id m) (fs_name m))
                          (trigger_download dl
                             \<lparr>sv_name = fs_name m, sv_mime = fs_mime m, sv_bytes = concat parts\<rparr> s))))"

definition start_incoming :: "file_start \<Rightarrow> 't shared \<Rightarrow> 't shared" where
  "start_incoming m s =
     (let inc = (case incoming_files s (fs_id m) of Some inc \<Rightarrow> inc | None \<Rightarrow> incoming_default);
          inc = (case meta inc of None \<Rightarrow> inc\<lparr>meta := Some m\<rparr> | Some _ \<Rightarrow> inc)
      in s\<lparr>incoming_files := (incoming_files s)(fs_id m \<mapsto> inc)\<rparr>)"

definition recv_chunk :: "f64 \<Rightarrow> u64 \<Rightarrow> u8 list \<Rightarrow> 't shared \<Rightarrow> 't shared" where
  "recv_chunk now i bytes s =
     (case incoming_files s i of None \<Rightarrow> s
      | Some inc \<Rightarrow>
          (let (progress, inc) =
                 account_chunk (inc\<lparr>chunks := chunks inc @ [bytes]\<rparr>) (f_of_word (of_nat (length bytes) :: u32)) now;
               s = s\<lparr>incoming_files := (incoming_files s)(i \<mapsto> inc)\<rparr>
           in case progress of None \<Rightarrow> s
              | Some (j, name, tot, recv, sp) \<Rightarrow> call_ui (On_Recv_Progress j name recv tot sp) s))"

definition recv_router ::
  "('t \<Rightarrow> control option) \<Rightarrow> f64 \<Rightarrow> download \<Rightarrow> 't packet \<Rightarrow> router \<times> 't shared \<Rightarrow> router \<times> 't shared" where
  "recv_router dec now dl p = (\<lambda>(r, s).
     case p of
       Text t \<Rightarrow>
         (case dec t of
            Some (Start m) \<Rightarrow> (r\<lparr>rt_cur := Some (fs_id m)\<rparr>, start_incoming m s)
          | Some (End e) \<Rightarrow>
              (r\<lparr>rt_closed := True\<rparr>, case rt_cur r of Some i \<Rightarrow> finalize_recv dl i s | None \<Rightarrow> s)
          | _ \<Rightarrow> (r, s))
     | Binary bytes \<Rightarrow> (r, case rt_cur r of Some i \<Rightarrow> recv_chunk now i bytes s | None \<Rightarrow> s))"

section \<open>The sending task\<close>

text \<open>
  What the browser decides in one poll. \<open>buf_full\<close> and \<open>bytes_ok\<close> are asked at an offset of the
  current slab: is \<open>bufferedAmount\<close> above \<open>BUFFER_HIGH\<close>, and does the send succeed.
\<close>

record poll_env =
  max_msg :: "f64 option"
  start_ok :: bool
  end_ok :: bool
  slice_ok :: bool
  read_ok :: bool
  buf_full :: "u32 \<Rightarrow> bool"
  bytes_ok :: "u32 \<Rightarrow> bool"

text \<open>\<open>-1\<close> is \<open>usize::MAX\<close>.\<close>

definition max_message_size :: "f64 option \<Rightarrow> usize" where
  "max_message_size mms =
     (case mms of
        Some m \<Rightarrow> (if f_is_finite m \<and> f_le (f_int 1) m then sat_cast m else - 1)
      | None \<Rightarrow> - 1)"

text \<open>How the loop over the chunks of one slab is left.\<close>

datatype loop_exit = Slab_Sent f64 | Parked u32 f64 | Stopped_Early | Send_Failed

text \<open>
  The inner loop of \<open>send_file\<close> up to the next \<open>await\<close>: the chunks that went out, each with the
  byte count that was reported after it, and the way the loop was left.
\<close>

partial_function (option) chunk_loop ::
  "poll_env \<Rightarrow> bool \<Rightarrow> u32 \<Rightarrow> u8 list \<Rightarrow> u32 \<Rightarrow> f64 \<Rightarrow> (u8 list \<times> f64) list \<Rightarrow>
     (loop_exit \<times> (u8 list \<times> f64) list) option" where
  "chunk_loop env is_canc chunk slab off snt acc =
     (let slab_len = of_nat (length slab) in
      if off < slab_len then
        if is_canc then Some (Stopped_Early, acc)
        else
          (let e = min (off + chunk) slab_len; view = slice slab (unat off, unat e) in
           if buf_full env off then Some (Parked off snt, acc)
           else if \<not> bytes_ok env off then Some (Send_Failed, acc)
           else
             (let snt' = f_add snt (f_of_word (e - off))
              in chunk_loop env is_canc chunk slab e snt' (acc @ [(view, snt')])))
      else Some (Slab_Sent snt, acc))"

definition slab_ranges :: "js_file \<Rightarrow> (u64 \<times> u64) list option" where
  "slab_ranges file = split_ranges (sat_cast (file_size file)) SLAB_SIZE"

text \<open>\<open>file.slice(range)\<close> as \<open>read_slab\<close> calls it.\<close>

definition read_slab :: "js_file \<Rightarrow> u64 \<times> u64 \<Rightarrow> u8 list" where
  "read_slab file = (\<lambda>(a, b). blob_slice (jf_bytes file) (f_of_word a) (f_of_word b))"

text \<open>The head of the outer loop: await the pending read, or send \<open>End\<close> when there is none.\<close>

definition next_slab ::
  "(control \<Rightarrow> 't) \<Rightarrow> poll_env \<Rightarrow> bool \<Rightarrow> (u64 \<times> u64) list \<Rightarrow> nat \<Rightarrow> f64 \<Rightarrow> 't task \<Rightarrow> 't task" where
  "next_slab enc env is_canc ranges idx snt t =
     (if idx < length ranges then
        (if is_canc then t\<lparr>tk_phase := Returned\<rparr> else t\<lparr>tk_phase := Reading idx snt\<rparr>)
      else if end_ok env then
        t\<lparr>tk_wire := tk_wire t @ [Text (enc (End \<lparr>fe_id = tk_id t\<rparr>))], tk_phase := Returned\<rparr>
      else t\<lparr>tk_phase := Returned\<rparr>)"

definition send_slab ::
  "(control \<Rightarrow> 't) \<Rightarrow> poll_env \<Rightarrow> bool \<Rightarrow> (u64 \<times> u64) list \<Rightarrow> nat \<Rightarrow> u8 list \<Rightarrow> u32 \<Rightarrow> f64 \<Rightarrow> 't task \<Rightarrow>
     ('t task \<times> f64 list) option" where
  "send_slab enc env is_canc ranges idx slab off snt t =
     (case chunk_loop env is_canc (tk_chunk t) slab off snt [] of
        None \<Rightarrow> None
      | Some (ex, outp) \<Rightarrow>
          (let t = t\<lparr>tk_wire := tk_wire t @ map (\<lambda>(view, _). Binary view) outp\<rparr>
           in Some (case ex of
                Slab_Sent snt' \<Rightarrow> next_slab enc env is_canc ranges idx snt' t
              | Parked off' snt' \<Rightarrow> t\<lparr>tk_phase := Draining idx slab off' snt'\<rparr>
              | Stopped_Early \<Rightarrow> t\<lparr>tk_phase := Returned\<rparr>
              | Send_Failed \<Rightarrow> t\<lparr>tk_phase := Returned\<rparr>, map snd outp)))"

text \<open>
  One poll of \<open>send_file\<close>; the second component are the reports to \<open>on_progress\<close>. After a wait
  for the buffer the chunk is sent without asking for the buffer again.
\<close>

definition poll_send_file ::
  "(control \<Rightarrow> 't) \<Rightarrow> poll_env \<Rightarrow> bool \<Rightarrow> 't task \<Rightarrow> ('t task \<times> f64 list) option" where
  "poll_send_file enc env is_canc t =
     (case tk_phase t of
        Spawned \<Rightarrow>
          (let t = t\<lparr>tk_chunk := min (max_message_size (max_msg env)) CHUNK_SIZE\<rparr> in
           if \<not> start_ok env then Some (t\<lparr>tk_phase := Returned\<rparr>, [])
           else
             (let t = t\<lparr>tk_wire := tk_wire t @ [Text (enc (Start (file_meta (tk_id t) (tk_file t))))]\<rparr> in
              case slab_ranges (tk_file t) of None \<Rightarrow> None
              | Some ranges \<Rightarrow>
                  (if ranges \<noteq> [] \<and> \<not> slice_ok env then Some (t\<lparr>tk_phase := Returned\<rparr>, [])
                   else Some (next_slab enc env is_canc ranges 0 (f_int 0) t, []))))
      | Reading idx snt \<Rightarrow>
          (case slab_ranges (tk_file t) of None \<Rightarrow> None
           | Some ranges \<Rightarrow>
               (if \<not> read_ok env then Some (t\<lparr>tk_phase := Returned\<rparr>, [])
                else if idx + 1 < length ranges \<and> \<not> slice_ok env then Some (t\<lparr>tk_phase := Returned\<rparr>, [])
                else send_slab enc env is_canc ranges (idx + 1) (read_slab (tk_file t) (ranges ! idx)) 0 snt t))
      | Draining idx slab off snt \<Rightarrow>
          (case slab_ranges (tk_file t) of None \<Rightarrow> None
           | Some ranges \<Rightarrow>
               (if is_canc then Some (t\<lparr>tk_phase := Returned\<rparr>, [])
                else send_slab enc (env\<lparr>buf_full := (buf_full env)(off := False)\<rparr>) is_canc ranges idx slab off snt t))
      | Returned \<Rightarrow> Some (t, []))"

text \<open>
  One poll of \<open>send_file_on_channel\<close>, the \<open>k\<close>-th task that was spawned. The result of \<open>send_file\<close>
  is ignored, as in the source.
\<close>

definition finish_sending :: "nat \<Rightarrow> 't shared \<Rightarrow> 't shared" where
  "finish_sending k s =
     (let t = sending s ! k; i = tk_id t; tot = file_size (tk_file t);
          s = (if i \<in> cancelled (outgoing_files s)
               then s\<lparr>sending := (sending s)[k := t\<lparr>tk_closed := True\<rparr>]\<rparr>
               else call_ui (On_Send_Progress i (jf_name (tk_file t)) tot tot) s)
      in pump (s\<lparr>outgoing_files := release_slot i (outgoing_files s)\<rparr>))"

definition poll_sending :: "(control \<Rightarrow> 't) \<Rightarrow> poll_env \<Rightarrow> nat \<Rightarrow> 't shared \<Rightarrow> 't shared option" where
  "poll_sending enc env k s =
     (let t = sending s ! k in
      case poll_send_file enc env (tk_id t \<in> cancelled (outgoing_files s)) t of
        None \<Rightarrow> None
      | Some (t', progress) \<Rightarrow>
          (let s = s\<lparr>sending := (sending s)[k := t'],
                     ui := ui s @ map (\<lambda>snt. On_Send_Progress (tk_id t) (jf_name (tk_file t)) snt
                                            (file_size (tk_file t))) progress\<rparr>
           in Some (if tk_phase t' = Returned then finish_sending k s else s)))"

end
