(* ===== verification/Sending_Stream.thy ===== *)
theory Sending_Stream
  imports Transfer_Channel
begin

text \<open>
  What a sending task puts on its channel: in every poll, whatever fails and whenever it is
  cancelled, the frames are \<open>Start\<close>, a prefix of the file in chunks, and \<open>End\<close> only after the last
  byte.
\<close>

section \<open>The chunks of one slab\<close>

text \<open>The byte counts reported after each of the pieces, from \<open>n\<close> on.\<close>

fun running_sums :: "int \<Rightarrow> u8 list list \<Rightarrow> f64 list" where
  "running_sums n [] = []"
| "running_sums n (v # vs) = f_int (n + int (length v)) # running_sums (n + int (length v)) vs"

definition small_pieces :: "nat \<Rightarrow> u8 list list \<Rightarrow> bool" where
  "small_pieces k vs \<longleftrightarrow> (\<forall>v \<in> set vs. v \<noteq> [] \<and> length v \<le> k)"

lemma small_pieces_simps [simp]:
  "small_pieces k []"
  "small_pieces k (v # vs) \<longleftrightarrow> v \<noteq> [] \<and> length v \<le> k \<and> small_pieces k vs"
  "small_pieces k (vs @ ws) \<longleftrightarrow> small_pieces k vs \<and> small_pieces k ws"
  by (auto simp: small_pieces_def)

fun exit_at :: "poll_env \<Rightarrow> bool \<Rightarrow> nat \<Rightarrow> nat \<Rightarrow> int \<Rightarrow> loop_exit \<Rightarrow> bool" where
  "exit_at env is_canc len off n (Slab_Sent snt) \<longleftrightarrow> off = len \<and> snt = f_int n"
| "exit_at env is_canc len off n (Parked o' snt) \<longleftrightarrow>
     off < len \<and> unat o' = off \<and> snt = f_int n \<and> buf_full env o' \<and> \<not> is_canc"
| "exit_at env is_canc len off n Stopped_Early \<longleftrightarrow> off < len \<and> is_canc"
| "exit_at env is_canc len off n Send_Failed \<longleftrightarrow> off < len \<and> \<not> bytes_ok env (of_nat off)"

lemma unat_u32_of_nat: "n < 2 ^ 32 \<Longrightarrow> unat (of_nat n :: u32) = n"
  by (simp add: unsigned_of_nat take_bit_nat_eq_self)

lemma chunk_end:
  fixes off chunk :: u32
  assumes "unat off < len" and "len \<le> 8388608" and "unat chunk \<le> 262144" and "0 < unat chunk"
  defines "e \<equiv> min (off + chunk) (of_nat len)"
  shows "unat e = min (unat off + unat chunk) len" and "unat off < unat e" and "unat e \<le> len"
    and "uint (e - off) = int (unat e - unat off)"
proof -
  have "unat (off + chunk) = unat off + unat chunk"
    using assms(1-3) by (intro unat_add_lem [THEN iffD1]) simp
  moreover have "unat (of_nat len :: u32) = len" using assms(2) by (intro unat_u32_of_nat) simp
  ultimately show e: "unat e = min (unat off + unat chunk) len"
    by (auto simp: e_def min_def word_le_nat_alt)
  with assms(1,4) show "unat off < unat e" "unat e \<le> len" by auto
  then have "unat (e - off) = unat e - unat off" by (intro unat_sub) (simp add: word_le_nat_alt)
  from arg_cong [OF this, of int] show "uint (e - off) = int (unat e - unat off)"
    unfolding of_nat_unat .
qed

lemma length_slice: "b \<le> length xs \<Longrightarrow> length (slice xs (a, b)) = b - a"
  by (simp add: slice_def)

lemma slice_empty [simp]: "slice xs (a, a) = []"
  by (simp add: slice_def)

lemma chunk_loop_spec:
  assumes "length slab \<le> 8388608" and "0 < unat chunk" and "unat chunk \<le> 262144"
    and "unat off \<le> length slab" and "0 \<le> n" and "n + int (length slab - unat off) \<le> 2 ^ 53"
  shows "\<exists>ex new off'. chunk_loop env is_canc chunk slab off (f_int n) acc = Some (ex, acc @ new) \<and>
    unat off \<le> off' \<and> off' \<le> length slab \<and> concat (map fst new) = slice slab (unat off, off') \<and>
    small_pieces (unat chunk) (map fst new) \<and> map snd new = running_sums n (map fst new) \<and>
    (is_canc \<longrightarrow> new = []) \<and> exit_at env is_canc (length slab) off' (n + int (off' - unat off)) ex"
  using assms(4-)
proof (induction "length slab - unat off" arbitrary: off n acc rule: less_induct)
  case less
  have len: "unat (of_nat (length slab) :: u32) = length slab"
    using assms(1) by (intro unat_u32_of_nat) simp
  note unfold = chunk_loop.simps [of env is_canc chunk slab off "f_int n" acc]
  consider "unat off = length slab" | "unat off < length slab" "is_canc \<or> buf_full env off \<or> \<not> bytes_ok env off"
    | "unat off < length slab" "\<not> is_canc" "\<not> buf_full env off" "bytes_ok env off"
    using less.prems(1) by linarith
  then show ?case
  proof cases
    case 1
    then have "chunk_loop env is_canc chunk slab off (f_int n) acc = Some (Slab_Sent (f_int n), acc @ [])"
      using len by (subst unfold) (simp add: word_less_nat_alt)
    with 1 show ?thesis
      by (intro exI [of _ "Slab_Sent (f_int n)"] exI [of _ "[]"] exI [of _ "unat off"]) simp
  next
    case 2
    let ?ex = "if is_canc then Stopped_Early else if buf_full env off then Parked off (f_int n) else Send_Failed"
    have "chunk_loop env is_canc chunk slab off (f_int n) acc = Some (?ex, acc @ [])"
      using 2 len by (subst unfold) (auto simp: word_less_nat_alt)
    with 2 less.prems(1) show ?thesis
      by (intro exI [of _ ?ex] exI [of _ "[]"] exI [of _ "unat off"]) auto
  next
    case 3
    define e where "e = min (off + chunk) (of_nat (length slab))"
    note e = chunk_end [OF 3(1) assms(1,3,2), folded e_def]
    let ?v = "slice slab (unat off, unat e)"
    let ?n = "n + int (unat e - unat off)"
    have v: "length ?v = unat e - unat off" "?v \<noteq> []" "length ?v \<le> unat chunk"
      using e length_slice [OF e(3), of "unat off"] by (auto simp: slice_def)
    have "f_of_word (e - off) = f_int (int (unat e - unat off))"
      using e(4) e(3) assms(1) by (subst f_of_word_int) simp_all
    moreover have "\<bar>?n\<bar> \<le> 2 ^ 53" using less.prems e(2,3) by linarith
    ultimately have sum: "f_add (f_int n) (f_of_word (e - off)) = f_int ?n"
      by (simp only: f_add_int)
    have "chunk_loop env is_canc chunk slab off (f_int n) acc =
        chunk_loop env is_canc chunk slab e (f_int ?n) (acc @ [(?v, f_int ?n)])"
      using 3 len sum by (subst unfold) (simp add: word_less_nat_alt Let_def flip: e_def)
    moreover have "length slab - unat e < length slab - unat off" using e 3(1) by linarith
    note IH = less.hyps [OF this, of ?n "acc @ [(?v, f_int ?n)]"]
    have "0 \<le> ?n" "?n + int (length slab - unat e) \<le> 2 ^ 53" using less.prems e 3(1) by linarith+
    with IH e(3) obtain ex new off' where
      "chunk_loop env is_canc chunk slab e (f_int ?n) (acc @ [(?v, f_int ?n)]) =
         Some (ex, (acc @ [(?v, f_int ?n)]) @ new)"
      "unat e \<le> off'" "off' \<le> length slab" "concat (map fst new) = slice slab (unat e, off')"
      "small_pieces (unat chunk) (map fst new)" "map snd new = running_sums ?n (map fst new)"
      "is_canc \<longrightarrow> new = []" "exit_at env is_canc (length slab) off' (?n + int (off' - unat e)) ex"
      by blast
    moreover from this(2) e(2) have "?n + int (off' - unat e) = n + int (off' - unat off)" by linarith
    moreover have "slice slab (unat off, unat e) @ slice slab (unat e, off') = slice slab (unat off, off')"
      using calculation(3) e(2) by (intro slice_append) simp_all
    ultimately show ?thesis
      using v e(2) 3(2)
      by (intro exI [of _ ex] exI [of _ "(?v, f_int ?n) # new"] exI [of _ off']) simp
  qed
qed

section \<open>The slabs of a file\<close>

text \<open>JavaScript counts bytes exactly up to \<open>2\<^sup>5\<^sup>3\<close>; a larger file does not exist for it.\<close>

definition file_ok :: "js_file \<Rightarrow> bool" where
  "file_ok file \<longleftrightarrow> length (jf_bytes file) \<le> 2 ^ 53"

abbreviation slab_size :: nat where "slab_size \<equiv> 8388608"

lemma file_size_int: "file_ok file \<Longrightarrow> file_size file = f_int (int (length (jf_bytes file)))"
  using round_f64_int [of "int (length (jf_bytes file))"] by (simp add: file_size_def file_ok_def)

lemma sat_cast_nat:
  assumes "n \<le> 2 ^ 53"
  shows "unat (sat_cast (f_int (int n)) :: u64) = n"
  using sat_cast_int [of "int n", where 'a = 64] assms by (simp flip: nat_uint_eq)

lemma slab_ranges_eq:
  assumes "file_ok file"
  shows "slab_ranges file =
    Some (map (map_prod of_nat of_nat) (ref_ranges (length (jf_bytes file)) slab_size 0))"
proof -
  let ?n = "length (jf_bytes file)"
  have n: "?n \<le> 2 ^ 53" using assms by (simp add: file_ok_def)
  have "unat SLAB_SIZE = slab_size" by (simp add: SLAB_SIZE_def)
  then show ?thesis
    using n split_ranges_ref [of "sat_cast (f_int (int ?n))" SLAB_SIZE]
    by (simp add: slab_ranges_def file_size_int [OF assms] sat_cast_nat SLAB_SIZE_def)
qed

lemma read_slab_eq:
  assumes "file_ok file" and "b \<le> length (jf_bytes file)" and "a \<le> b"
  shows "read_slab file (of_nat a, of_nat b) = slice (jf_bytes file) (a, b)"
proof -
  have "f_of_word (of_nat n :: u64) = f_int (int n)" if "n \<le> 2 ^ 53" for n
  proof -
    have "unat (of_nat n :: u64) = n" using that by (intro unat_of_nat_u64) simp
    from arg_cong [OF this, of int] have "uint (of_nat n :: u64) = int n" unfolding of_nat_unat .
    then show ?thesis using that f_of_word_int [of "of_nat n :: u64"] by simp
  qed
  then show ?thesis
    using assms by (simp add: read_slab_def blob_slice_def file_ok_def sat_cast_nat)
qed

text \<open>The chunk size is never 0, whatever limit the browser reports.\<close>

lemma unat_minus_1_pos: "0 < unat (- 1 :: u32)"
  by (simp add: unsigned_minus_1_eq_mask mask_eq_exp_minus_1)

lemma max_message_size_pos: "0 < unat (max_message_size mms)"
proof (cases mms)
  case (Some m)
  show ?thesis
  proof (cases "f_is_finite m \<and> f_le (f_int 1) m")
    case True
    then obtain q where q: "m = Fin q" "1 \<le> q" by (cases m) (auto simp: f_int_def)
    then have "1 \<le> \<lfloor>q\<rfloor>" by linarith
    have "uint (sat_cast m :: u32) = (if \<lfloor>q\<rfloor> \<ge> 2 ^ 32 then 2 ^ 32 - 1 else \<lfloor>q\<rfloor>)"
      using q \<open>1 \<le> \<lfloor>q\<rfloor>\<close>
      by (simp add: sat_cast_def uint_word_of_int take_bit_int_eq_self unsigned_minus_1_eq_mask mask_eq_exp_minus_1)
    with \<open>1 \<le> \<lfloor>q\<rfloor>\<close> have "0 < uint (sat_cast m :: u32)" by simp
    then have "0 < int (unat (sat_cast m :: u32))" unfolding of_nat_unat .
    then have "0 < unat (sat_cast m :: u32)" by (simp only: of_nat_0_less_iff)
    with Some True show ?thesis by (simp add: max_message_size_def)
  next
    case False
    with Some show ?thesis by (auto simp: max_message_size_def unat_minus_1_pos)
  qed
qed (simp add: max_message_size_def unat_minus_1_pos)

lemma chunk_size_bounds:
  "0 < unat (min (max_message_size mms) CHUNK_SIZE)" "unat (min (max_message_size mms) CHUNK_SIZE) \<le> 262144"
  using max_message_size_pos [of mms] by (auto simp: min_def CHUNK_SIZE_def word_le_nat_alt)

section \<open>The invariant of a task\<close>

definition stream :: "(control \<Rightarrow> 't) \<Rightarrow> u64 \<Rightarrow> js_file \<Rightarrow> u8 list list \<Rightarrow> 't packet list" where
  "stream enc i file cs = Text (enc (Start (file_meta i file))) # map Binary cs"

definition end_frame :: "(control \<Rightarrow> 't) \<Rightarrow> u64 \<Rightarrow> 't packet" where
  "end_frame enc i = Text (enc (End \<lparr>fe_id = i\<rparr>))"

text \<open>The chunks \<open>cs\<close> are on the wire and are the first \<open>n\<close> bytes of the file.\<close>

definition on_wire :: "(control \<Rightarrow> 't) \<Rightarrow> 't task \<Rightarrow> u8 list list \<Rightarrow> nat \<Rightarrow> bool" where
  "on_wire enc t cs n \<longleftrightarrow>
     tk_wire t = stream enc (tk_id t) (tk_file t) cs \<and> n \<le> length (jf_bytes (tk_file t)) \<and>
     concat cs = slice (jf_bytes (tk_file t)) (0, n) \<and> small_pieces (unat (tk_chunk t)) cs"

definition chunk_ok :: "'t task \<Rightarrow> bool" where
  "chunk_ok t \<longleftrightarrow> 0 < unat (tk_chunk t) \<and> unat (tk_chunk t) \<le> 262144"

text \<open>The whole file went out, and \<open>End\<close> after it.\<close>

definition fully_sent :: "(control \<Rightarrow> 't) \<Rightarrow> 't task \<Rightarrow> bool" where
  "fully_sent enc t \<longleftrightarrow>
     (\<exists>cs. tk_wire t = stream enc (tk_id t) (tk_file t) cs @ [end_frame enc (tk_id t)] \<and>
           concat cs = jf_bytes (tk_file t) \<and> small_pieces (unat (tk_chunk t)) cs)"

definition task_inv :: "(control \<Rightarrow> 't) \<Rightarrow> 't task \<Rightarrow> bool" where
  "task_inv enc t \<longleftrightarrow>
     (let len = length (jf_bytes (tk_file t)) in
      case tk_phase t of
        Spawned \<Rightarrow> tk_wire t = []
      | Reading idx snt \<Rightarrow>
          chunk_ok t \<and> idx * slab_size < len \<and> snt = f_int (int (idx * slab_size)) \<and>
          (\<exists>cs. on_wire enc t cs (idx * slab_size))
      | Draining idx slab off snt \<Rightarrow>
          chunk_ok t \<and> 0 < idx \<and> (idx - 1) * slab_size < len \<and>
          slab = slice (jf_bytes (tk_file t)) ((idx - 1) * slab_size, min (idx * slab_size) len) \<and>
          unat off < length slab \<and> snt = f_int (int ((idx - 1) * slab_size + unat off)) \<and>
          (\<exists>cs. on_wire enc t cs ((idx - 1) * slab_size + unat off))
      | Returned \<Rightarrow>
          tk_wire t = [] \<or>
          chunk_ok t \<and>
          ((\<exists>cs n. on_wire enc t cs n) \<or>
           fully_sent enc t))"

text \<open>How much work is left, at most.\<close>

definition task_measure :: "'t task \<Rightarrow> nat" where
  "task_measure t =
     (let len = length (jf_bytes (tk_file t)) in
      case tk_phase t of
        Spawned \<Rightarrow> 2 * len + 2
      | Reading idx snt \<Rightarrow> 2 * (len - idx * slab_size) + 1
      | Draining idx slab off snt \<Rightarrow> 2 * (len - ((idx - 1) * slab_size + unat off))
      | Returned \<Rightarrow> 0)"

text \<open>A poll in which nothing fails and nobody has cancelled.\<close>

definition healthy :: "poll_env \<Rightarrow> bool \<Rightarrow> bool" where
  "healthy env is_canc \<longleftrightarrow>
     start_ok env \<and> end_ok env \<and> slice_ok env \<and> read_ok env \<and> (\<forall>off. bytes_ok env off) \<and> \<not> is_canc"

text \<open>What one poll achieves; \<open>good\<close> says that it is a healthy one of a running task.\<close>

definition poll_ok :: "(control \<Rightarrow> 't) \<Rightarrow> bool \<Rightarrow> 't task \<Rightarrow> ('t task \<times> f64 list) option \<Rightarrow> bool" where
  "poll_ok enc good t res \<longleftrightarrow>
     (case res of None \<Rightarrow> False
      | Some (t', progress) \<Rightarrow>
          task_inv enc t' \<and> tk_id t' = tk_id t \<and> tk_file t' = tk_file t \<and>
          (tk_phase t' = Returned \<or> task_measure t' < task_measure t) \<and>
          (good \<and> tk_phase t' = Returned \<longrightarrow> fully_sent enc t'))"

lemma poll_ok_returned:
  "tk_wire t' = [] \<or> chunk_ok t' \<and> (\<exists>cs n. on_wire enc t' cs n) \<Longrightarrow> tk_id t' = tk_id t \<Longrightarrow>
     tk_file t' = tk_file t \<Longrightarrow> tk_phase t' = Returned \<Longrightarrow> \<not> good \<Longrightarrow> poll_ok enc good t (Some (t', progress))"
  by (auto simp: poll_ok_def task_inv_def Let_def)

lemma poll_ok_stopped:
  "on_wire enc t' cs n \<Longrightarrow> chunk_ok t' \<Longrightarrow> tk_id t' = tk_id t \<Longrightarrow> tk_file t' = tk_file t \<Longrightarrow>
     tk_phase t' = Returned \<Longrightarrow> \<not> good \<Longrightarrow> poll_ok enc good t (Some (t', progress))"
  using poll_ok_returned [of t' enc t good progress] by blast

lemma on_wire_phase [simp]: "on_wire enc (t\<lparr>tk_phase := ph\<rparr>) cs n = on_wire enc t cs n"
  and chunk_ok_phase [simp]: "chunk_ok (t\<lparr>tk_phase := ph\<rparr>) = chunk_ok t"
  by (simp_all add: on_wire_def chunk_ok_def)

lemma next_slab_ok:
  assumes "file_ok (tk_file t)" and "chunk_ok t" and "slab_ranges (tk_file t) = Some ranges"
    and "on_wire enc t cs (min (idx * slab_size) (length (jf_bytes (tk_file t))))"
    and "snt = f_int (int (min (idx * slab_size) (length (jf_bytes (tk_file t)))))"
    and "tk_id t0 = tk_id t" and "tk_file t0 = tk_file t"
    and "idx * slab_size < length (jf_bytes (tk_file t)) \<Longrightarrow>
         2 * (length (jf_bytes (tk_file t)) - idx * slab_size) + 1 < task_measure t0"
    and "good \<Longrightarrow> healthy env is_canc"
  shows "poll_ok enc good t0 (Some (next_slab enc env is_canc ranges idx snt t, progress))"
proof -
  let ?len = "length (jf_bytes (tk_file t))"
  have more: "idx < length ranges \<longleftrightarrow> idx * slab_size < ?len"
    using slab_ranges_eq [OF assms(1)] assms(3) ref_ranges_index [of slab_size idx ?len 0] by auto
  show ?thesis
  proof (cases "idx * slab_size < ?len")
    case True
    then have wire: "on_wire enc t cs (idx * slab_size)" using assms(4) by simp
    show ?thesis
    proof (cases is_canc)
      case True
      with assms(9) have "\<not> good" unfolding healthy_def by blast
      with True wire show ?thesis
        using \<open>idx * slab_size < ?len\<close> assms(2,6,7) more
        by (simp add: next_slab_def poll_ok_stopped [where cs = cs and n = "idx * slab_size"])
    next
      case False
      with wire show ?thesis
        using \<open>idx * slab_size < ?len\<close> assms more
        by (auto simp: next_slab_def poll_ok_def task_inv_def task_measure_def Let_def)
    qed
  next
    case False
    then have sent: "concat cs = jf_bytes (tk_file t)" "on_wire enc t cs ?len"
      using assms(4) by (auto simp: on_wire_def)
    show ?thesis
    proof (cases "end_ok env")
      case True
      with sent show ?thesis
        using assms(2,6,7) more False
        by (auto simp: next_slab_def poll_ok_def task_inv_def fully_sent_def Let_def on_wire_def end_frame_def chunk_ok_def)
    next
      case False
      moreover from sent have "\<exists>cs n. on_wire enc t cs n" by blast
      moreover have "\<not> good" using assms(9) False unfolding healthy_def by blast
      ultimately show ?thesis
        using assms(2,6,7) more \<open>\<not> idx * slab_size < ?len\<close>
        by (simp add: next_slab_def poll_ok_returned)
    qed
  qed
qed

lemma on_wire_more:
  assumes "on_wire enc t cs n" and "n \<le> m" and "m \<le> length (jf_bytes (tk_file t))"
    and "concat new = slice (jf_bytes (tk_file t)) (n, m)" and "small_pieces (unat (tk_chunk t)) new"
  shows "on_wire enc (t\<lparr>tk_wire := tk_wire t @ map Binary new\<rparr>) (cs @ new) m"
  using assms slice_append [of 0 n m "jf_bytes (tk_file t)"]
  by (simp add: on_wire_def stream_def)

lemma binary_views: "map (\<lambda>(view, _). Binary view) new = map Binary (map fst new)"
  by (simp add: case_prod_unfold)

lemma slice_of_slice:
  "a + d \<le> b \<Longrightarrow> c \<le> d \<Longrightarrow> slice (slice xs (a, b)) (c, d) = slice xs (a + c, a + d)"
  by (simp add: slice_def drop_take add.commute min_def)

text \<open>
  A slab, from an offset on, with the task at the corresponding position in the file. In the
  resumed case the buffer is not asked for again, so at least one chunk goes out or the task
  returns.
\<close>

lemma send_slab_ok:
  fixes i :: nat and t :: "'t task"
  defines "len \<equiv> length (jf_bytes (tk_file t))"
  defines "b \<equiv> min (Suc i * slab_size) len"
  assumes fok: "file_ok (tk_file t)" and ch: "chunk_ok t" and ranges: "slab_ranges (tk_file t) = Some ranges"
    and slab: "slab = slice (jf_bytes (tk_file t)) (i * slab_size, b)" and i: "i * slab_size < len"
    and off: "unat off < length slab" and wire: "on_wire enc t cs (i * slab_size + unat off)"
    and snt: "snt = f_int (int (i * slab_size + unat off))"
    and m: "2 * (len - (i * slab_size + unat off)) < task_measure t \<or>
      2 * (len - (i * slab_size + unat off)) \<le> task_measure t \<and> \<not> buf_full env off \<and> \<not> is_canc"
    and good: "good \<Longrightarrow> healthy env is_canc"
  shows "poll_ok enc good t (send_slab enc env is_canc ranges (Suc i) slab off snt t)"
proof -
  have b: "i * slab_size < b" "b \<le> len" "b - i * slab_size \<le> slab_size" using i by (auto simp: b_def)
  have len53: "int len \<le> 2 ^ 53" using fok by (simp add: file_ok_def len_def)
  have lslab: "length slab = b - i * slab_size" using b(2) by (simp add: slab length_slice len_def)
  let ?p = "i * slab_size + unat off"
  have room: "int ?p + int (length slab - unat off) \<le> 2 ^ 53" using lslab b(1,2) len53 off by linarith
  have pre: "length slab \<le> slab_size" "0 < unat (tk_chunk t)" "unat (tk_chunk t) \<le> 262144"
    "unat off \<le> length slab" "0 \<le> int ?p"
    using off ch lslab b(3) by (simp_all add: chunk_ok_def)
  note spec = chunk_loop_spec [OF pre room, of env is_canc "[]"]
  obtain ex new off' where loop:
    "chunk_loop env is_canc (tk_chunk t) slab off snt [] = Some (ex, new)"
    and off': "unat off \<le> off'" "off' \<le> length slab"
    and new: "concat (map fst new) = slice slab (unat off, off')" "small_pieces (unat (tk_chunk t)) (map fst new)"
    and ex: "exit_at env is_canc (length slab) off' (int ?p + int (off' - unat off)) ex"
    using that spec unfolding snt append_Nil by blast
  let ?q = "i * slab_size + off'"
  define t1 where "t1 = t\<lparr>tk_wire := tk_wire t @ map Binary (map fst new)\<rparr>"
  have q: "?q \<le> len" "?p \<le> ?q" using off' lslab b by linarith+
  have piece: "concat (map fst new) = slice (jf_bytes (tk_file t)) (?p, ?q)"
    using new(1) off' lslab b(1) by (simp add: slab slice_of_slice)
  have wire1: "on_wire enc t1 (cs @ map fst new) ?q"
    unfolding t1_def
    by (rule on_wire_more [OF wire _ _ piece new(2)]) (use q in \<open>simp_all add: len_def\<close>)
  have t1: "tk_id t1 = tk_id t" "tk_file t1 = tk_file t" "chunk_ok t1"
    using ch by (simp_all add: t1_def chunk_ok_def)
  have sum: "int ?p + int (off' - unat off) = int ?q" using off' by linarith
  have out: "send_slab enc env is_canc ranges (Suc i) slab off snt t = Some (case ex of
       Slab_Sent snt' \<Rightarrow> next_slab enc env is_canc ranges (Suc i) snt' t1
     | Parked o' snt' \<Rightarrow> t1\<lparr>tk_phase := Draining (Suc i) slab o' snt'\<rparr>
     | Stopped_Early \<Rightarrow> t1\<lparr>tk_phase := Returned\<rparr>
     | Send_Failed \<Rightarrow> t1\<lparr>tk_phase := Returned\<rparr>, map snd new)"
    by (simp add: send_slab_def loop t1_def binary_views Let_def del: map_map split: loop_exit.split)
  show ?thesis
  proof (cases ex)
    case (Slab_Sent snt')
    with ex sum have e: "off' = length slab" "snt' = f_int (int ?q)" by simp_all
    then have "?q = b" using lslab b(1) by simp
    then have "poll_ok enc good t (Some (next_slab enc env is_canc ranges (Suc i) snt' t1, map snd new))"
      using fok ranges wire1 t1 e m off lslab good
      by (intro next_slab_ok [where cs = "cs @ map fst new"]) (auto simp: b_def len_def)
    then show ?thesis by (simp add: out Slab_Sent)
  next
    case (Parked o' snt')
    with ex sum have e: "off' < length slab" "unat o' = off'" "snt' = f_int (int ?q)" "buf_full env o'" "\<not> is_canc"
      by simp_all
    have "off' = unat off \<Longrightarrow> o' = off" using e(2) by (simp add: word_unat_eq_iff)
    then have "off' \<noteq> unat off \<or> 2 * (len - ?p) < task_measure t"
      using m e(4,5) by blast
    then have dec: "2 * (len - ?q) < task_measure t" using m off' q e lslab b by linarith
    let ?t = "t1\<lparr>tk_phase := Draining (Suc i) slab o' snt'\<rparr>"
    have "task_inv enc ?t"
      using wire1 t1 e i by (auto simp: task_inv_def Let_def slab b_def len_def)
    moreover have "task_measure ?t = 2 * (len - ?q)"
      using t1 e by (simp add: task_measure_def len_def)
    ultimately have "poll_ok enc good t (Some (?t, map snd new))" using dec t1 by (simp add: poll_ok_def)
    then show ?thesis by (simp only: out Parked loop_exit.case)
  next
    case Stopped_Early
    with ex good have "\<not> good" by (auto simp: healthy_def)
    with Stopped_Early wire1 t1 show ?thesis by (simp add: out poll_ok_stopped [where cs = "cs @ map fst new" and n = ?q])
  next
    case Send_Failed
    with ex good have "\<not> good" by (auto simp: healthy_def)
    with Send_Failed wire1 t1 show ?thesis by (simp add: out poll_ok_stopped [where cs = "cs @ map fst new" and n = ?q])
  qed
qed

lemma poll_task_ok:
  assumes inv: "task_inv enc t" and fok: "file_ok (tk_file t)"
  shows "poll_ok enc (healthy env is_canc \<and> tk_phase t \<noteq> Returned) t (poll_send_file enc env is_canc t)"
proof -
  define good where "good = (healthy env is_canc \<and> tk_phase t \<noteq> Returned)"
  then have good: "good \<Longrightarrow> healthy env is_canc" by simp
  let ?len = "length (jf_bytes (tk_file t))"
  obtain ranges where ranges: "slab_ranges (tk_file t) = Some ranges"
    and eq: "ranges = map (map_prod of_nat of_nat) (ref_ranges ?len slab_size 0)"
    using slab_ranges_eq [OF fok] by simp
  have "poll_ok enc good t (poll_send_file enc env is_canc t)"
  proof (cases "tk_phase t")
    case Spawned
    let ?t = "t\<lparr>tk_chunk := min (max_message_size (max_msg env)) CHUNK_SIZE\<rparr>"
    let ?t1 = "?t\<lparr>tk_wire := tk_wire t @ [Text (enc (Start (file_meta (tk_id t) (tk_file t))))]\<rparr>"
    have w: "tk_wire t = []" using inv Spawned by (simp add: task_inv_def)
    have ch: "chunk_ok ?t1" using chunk_size_bounds [of "max_msg env"] by (simp add: chunk_ok_def)
    have wire: "on_wire enc ?t1 [] 0" by (simp add: on_wire_def stream_def w)
    have "poll_ok enc good t (Some (next_slab enc env is_canc ranges 0 (f_int 0) ?t1, []))"
      by (rule next_slab_ok [where cs = "[]"])
         (use fok ch ranges wire Spawned good in \<open>simp_all add: task_measure_def\<close>)
    moreover have "poll_ok enc good t (Some (?t\<lparr>tk_phase := Returned\<rparr>, []))" if "\<not> good"
      by (rule poll_ok_returned) (simp_all add: w that)
    moreover have "poll_ok enc good t (Some (?t1\<lparr>tk_phase := Returned\<rparr>, []))" if "\<not> good"
      by (rule poll_ok_stopped [where cs = "[]" and n = 0]) (use wire ch that in simp_all)
    ultimately show ?thesis
      using good by (cases good) (auto simp: poll_send_file_def Spawned ranges Let_def healthy_def)
  next
    case (Reading idx snt)
    with inv obtain cs where i: "idx * slab_size < ?len" "snt = f_int (int (idx * slab_size))"
      and ch: "chunk_ok t" and wire: "on_wire enc t cs (idx * slab_size)"
      by (auto simp: task_inv_def Let_def)
    have nth: "ranges ! idx = (of_nat (idx * slab_size), of_nat (min (Suc idx * slab_size) ?len))"
      using i(1) ref_ranges_index [of slab_size idx ?len 0] ref_ranges_nth [of slab_size 0 idx ?len]
      by (simp add: eq)
    have slab: "read_slab (tk_file t) (ranges ! idx) =
        slice (jf_bytes (tk_file t)) (idx * slab_size, min (Suc idx * slab_size) ?len)"
      unfolding nth by (rule read_slab_eq [OF fok]) (use i in simp_all)
    have "poll_ok enc good t (send_slab enc env is_canc ranges (Suc idx) (read_slab (tk_file t) (ranges ! idx)) 0 snt t)"
      by (rule send_slab_ok [OF fok ch ranges slab i(1), where cs = cs])
         (use i wire good in \<open>simp_all add: slab length_slice task_measure_def Reading\<close>)
    moreover have "poll_ok enc good t (Some (t\<lparr>tk_phase := Returned\<rparr>, []))" if "\<not> good"
      by (rule poll_ok_stopped [OF on_wire_phase [THEN iffD2, OF wire]]) (use ch that in simp_all)
    ultimately show ?thesis using good by (cases good) (auto simp: poll_send_file_def Reading ranges healthy_def)
  next
    case (Draining idx slab off snt)
    with inv obtain cs where i: "0 < idx" "(idx - 1) * slab_size < ?len"
      "snt = f_int (int ((idx - 1) * slab_size + unat off))"
      and slab: "slab = slice (jf_bytes (tk_file t)) ((idx - 1) * slab_size, min (idx * slab_size) ?len)"
      and off: "unat off < length slab"
      and ch: "chunk_ok t" and wire: "on_wire enc t cs ((idx - 1) * slab_size + unat off)"
      by (auto simp: task_inv_def Let_def)
    from i(1) obtain j where j: "idx = Suc j" by (cases idx) auto
    have "good \<Longrightarrow> healthy (env\<lparr>buf_full := (buf_full env)(off := False)\<rparr>) False"
      using good by (simp add: healthy_def)
    then have "poll_ok enc good t (send_slab enc (env\<lparr>buf_full := (buf_full env)(off := False)\<rparr>) False ranges (Suc j) slab off snt t)"
      by (intro send_slab_ok [OF fok ch ranges])
         (use i slab off wire j in \<open>simp_all add: task_measure_def Draining\<close>)
    moreover have "poll_ok enc good t (Some (t\<lparr>tk_phase := Returned\<rparr>, []))" if "\<not> good"
      by (rule poll_ok_stopped [OF on_wire_phase [THEN iffD2, OF wire]]) (use ch that in simp_all)
    ultimately show ?thesis using good by (cases good) (auto simp: poll_send_file_def Draining ranges j healthy_def)
  next
    case Returned
    with inv show ?thesis by (simp add: poll_send_file_def poll_ok_def good_def)
  qed
  then show ?thesis by (simp only: good_def)
qed

section \<open>A task from its first to its last poll\<close>

fun polls :: "(control \<Rightarrow> 't) \<Rightarrow> (poll_env \<times> bool) list \<Rightarrow> 't task \<Rightarrow> 't task option" where
  "polls enc [] t = Some t"
| "polls enc ((env, is_canc) # es) t =
     (case poll_send_file enc env is_canc t of None \<Rightarrow> None | Some (t', _) \<Rightarrow> polls enc es t')"

definition new_task :: "u64 \<Rightarrow> js_file \<Rightarrow> 't task" where
  "new_task i file =
     \<lparr>tk_id = i, tk_file = file, tk_phase = Spawned, tk_chunk = 0, tk_wire = [], tk_closed = False\<rparr>"

lemma polls_ok:
  assumes "task_inv enc t" and "file_ok (tk_file t)"
  shows "\<exists>t'. polls enc es t = Some t' \<and> task_inv enc t' \<and> tk_id t' = tk_id t \<and> tk_file t' = tk_file t \<and>
    (tk_phase t' = Returned \<or> task_measure t' + length es \<le> task_measure t) \<and>
    ((\<forall>(env, is_canc) \<in> set es. healthy env is_canc) \<and> tk_phase t \<noteq> Returned \<and> tk_phase t' = Returned \<longrightarrow>
       fully_sent enc t')"
  using assms
proof (induction es arbitrary: t)
  case (Cons e es)
  obtain env is_canc where e: "e = (env, is_canc)" by fastforce
  from poll_task_ok [OF Cons.prems, of env is_canc] obtain t1 progress where
    t1: "poll_send_file enc env is_canc t = Some (t1, progress)" "task_inv enc t1" "tk_id t1 = tk_id t"
      "tk_file t1 = tk_file t" "tk_phase t1 = Returned \<or> task_measure t1 < task_measure t"
      "healthy env is_canc \<and> tk_phase t \<noteq> Returned \<and> tk_phase t1 = Returned \<longrightarrow> fully_sent enc t1"
    by (auto simp: poll_ok_def split: option.splits)
  have rest: "polls enc es t1 = Some t1" if "tk_phase t1 = Returned"
    using that by (induction es) (auto simp: poll_send_file_def)
  from Cons.IH [OF t1(2)] Cons.prems(2) t1(4) obtain t' where
    "polls enc es t1 = Some t'" "task_inv enc t'" "tk_id t' = tk_id t" "tk_file t' = tk_file t"
    "tk_phase t' = Returned \<or> task_measure t' + length es \<le> task_measure t1"
    "(\<forall>(env, is_canc) \<in> set es. healthy env is_canc) \<and> tk_phase t1 \<noteq> Returned \<and> tk_phase t' = Returned \<longrightarrow>
       fully_sent enc t'"
    using t1(3) by auto
  with t1 rest show ?case by (cases "tk_phase t1 = Returned") (auto simp: e)
qed simp

lemma new_task_simps [simp]:
  "tk_id (new_task i f) = i" "tk_file (new_task i f) = f" "tk_phase (new_task i f) = Spawned"
  "task_measure (new_task i f) = 2 * length (jf_bytes f) + 2"
  by (simp_all add: new_task_def task_measure_def)

lemma task_inv_new: "task_inv enc (new_task i file)"
  by (simp add: task_inv_def new_task_def)

text \<open>(C7) Whatever fails, whenever the buffer is full and whenever the transfer is cancelled, a sending
  task puts on its channel nothing but \<open>Start\<close> with the file's own metadata, then pieces of at most
  256 KiB that concatenate to a beginning of the file, and \<open>End\<close> only after the last byte. So a
  receiver that sees \<open>End\<close> has the whole file.\<close>

theorem stream_is_a_prefix_and_end_means_all:
  assumes "length (jf_bytes file) \<le> 2 ^ 53"
  shows "case polls enc es (new_task i file) of None \<Rightarrow> False
    | Some t \<Rightarrow> tk_wire t = [] \<or>
        (\<exists>cs rest. concat cs @ rest = jf_bytes file \<and> small_pieces 262144 cs \<and>
           (tk_wire t = stream enc i file cs \<or> tk_wire t = stream enc i file cs @ [end_frame enc i] \<and> rest = []))"
proof -
  obtain t where t: "polls enc es (new_task i file) = Some t" "task_inv enc t" "tk_id t = i" "tk_file t = file"
    using polls_ok [OF task_inv_new [of enc i "file"], of es] assms by (auto simp: file_ok_def)
  have small: "small_pieces (unat (tk_chunk t)) cs \<Longrightarrow> chunk_ok t \<Longrightarrow> small_pieces 262144 cs" for cs
    by (fastforce simp: small_pieces_def chunk_ok_def)
  have rest: "concat cs = slice (jf_bytes file) (0, n) \<Longrightarrow> concat cs @ drop n (jf_bytes file) = jf_bytes file" for cs n
    by (simp add: slice_def)
  have "(\<exists>cs rest. concat cs @ rest = jf_bytes file \<and> small_pieces 262144 cs \<and>
      (tk_wire t = stream enc i file cs \<or> tk_wire t = stream enc i file cs @ [end_frame enc i] \<and> rest = []))"
    if "tk_wire t \<noteq> []"
  proof -
    from t(2) that consider cs n where "chunk_ok t" "on_wire enc t cs n" | "chunk_ok t" "fully_sent enc t"
      by (auto simp: task_inv_def Let_def split: phase.splits)
    then show ?thesis
    proof cases
      case 1
      then show ?thesis using small rest t(3,4) unfolding on_wire_def by blast
    next
      case 2
      then obtain cs where "tk_wire t = stream enc i file cs @ [end_frame enc i]" "concat cs = jf_bytes file"
        "small_pieces (unat (tk_chunk t)) cs" by (auto simp: fully_sent_def t)
      with small 2(1) have "concat cs @ [] = jf_bytes file \<and> small_pieces 262144 cs \<and>
        tk_wire t = stream enc i file cs @ [end_frame enc i]" by simp
      then show ?thesis by blast
    qed
  qed
  then show ?thesis by (auto simp: t(1))
qed

definition demo_file :: js_file where
  "demo_file = \<lparr>jf_name = lit ''a.txt'', jf_mime = lit ''text/plain'', jf_bytes = [1, 2, 3]\<rparr>"

definition demo_env :: poll_env where
  "demo_env =
     \<lparr>max_msg = Some (f_int 2), start_ok = True, end_ok = True, slice_ok = True, read_ok = True,
      buf_full = (\<lambda>off. off = 2), bytes_ok = (\<lambda>_. True)\<rparr>"

theorem stream_is_a_prefix_and_end_means_all_witness:
  "case polls id [(demo_env, False), (demo_env, True)] (new_task 7 demo_file) of None \<Rightarrow> False
    | Some t \<Rightarrow> tk_wire t = [] \<or>
        (\<exists>cs rest. concat cs @ rest = jf_bytes demo_file \<and> small_pieces 262144 cs \<and>
           (tk_wire t = stream id 7 demo_file cs \<or> tk_wire t = stream id 7 demo_file cs @ [end_frame id 7] \<and> rest = []))"
  by (rule stream_is_a_prefix_and_end_means_all) (simp add: demo_file_def)

text \<open>(C16) A sending task always comes to its end: after \<open>2 n + 3\<close> polls for a file of \<open>n\<close> bytes, whatever
  they meet, it has returned. If nothing failed and nobody cancelled, the stream it leaves behind
  is complete: \<open>Start\<close>, all bytes, \<open>End\<close>.\<close>

theorem sending_terminates_and_completes:
  assumes "length (jf_bytes file) \<le> 2 ^ 53" and "2 * length (jf_bytes file) + 2 < length es"
  shows "case polls enc es (new_task i file) of None \<Rightarrow> False
    | Some t \<Rightarrow> tk_phase t = Returned \<and>
        ((\<forall>(env, is_canc) \<in> set es. healthy env is_canc) \<longrightarrow>
           (\<exists>cs. concat cs = jf_bytes file \<and> tk_wire t = stream enc i file cs @ [end_frame enc i]))"
proof -
  obtain t where t: "polls enc es (new_task i file) = Some t" "tk_id t = i" "tk_file t = file"
    "tk_phase t = Returned \<or> task_measure t + length es \<le> 2 * length (jf_bytes file) + 2"
    "(\<forall>(env, is_canc) \<in> set es. healthy env is_canc) \<and> tk_phase t = Returned \<longrightarrow> fully_sent enc t"
    using polls_ok [OF task_inv_new [of enc i "file"], of es] assms(1)
    unfolding file_ok_def new_task_simps by blast
  with assms(2) have "tk_phase t = Returned" by linarith
  with t show ?thesis by (auto simp: fully_sent_def)
qed

theorem sending_terminates_and_completes_witness:
  "case polls id (replicate 9 (demo_env, False)) (new_task 7 demo_file) of None \<Rightarrow> False
    | Some t \<Rightarrow> tk_phase t = Returned \<and>
        (\<exists>cs. concat cs = jf_bytes demo_file \<and> tk_wire t = stream id 7 demo_file cs @ [end_frame id 7])"
  using sending_terminates_and_completes [of demo_file "replicate 9 (demo_env, False)" id 7]
  by (auto simp: demo_file_def demo_env_def healthy_def split: option.splits)

end
