(* ===== verification/File_Kind.thy ===== *)
theory File_Kind
  imports Rust_Base
begin

text \<open>
  The type badge of a file, \<open>crates/client/src/filetype.rs\<close>.
\<close>

text \<open>\<open>name.rsplit('.').next()\<close>: what follows the last dot, the whole name if there is none.\<close>

definition last_part :: "nat \<Rightarrow> rstr \<Rightarrow> rstr" where
  "last_part c s = rev (takeWhile (\<lambda>x. x \<noteq> c) (rev s))"

text \<open>\<open>to_ascii_lowercase\<close> and, for the properties, \<open>to_ascii_uppercase\<close>.\<close>

definition to_ascii_lowercase :: "rstr \<Rightarrow> rstr" where
  "to_ascii_lowercase = map (\<lambda>c. if 65 \<le> c \<and> c \<le> 90 then c + 32 else c)"

definition to_ascii_uppercase :: "rstr \<Rightarrow> rstr" where
  "to_ascii_uppercase = map (\<lambda>c. if 97 \<le> c \<and> c \<le> 122 then c - 32 else c)"

definition starts_with :: "rstr \<Rightarrow> rstr \<Rightarrow> bool" where
  "starts_with p s \<longleftrightarrow> take (length p) s = p"

definition mime_kind :: "rstr \<Rightarrow> rstr" where
  "mime_kind mime =
     (if starts_with (lit ''image/'') mime then lit ''IMG''
      else if starts_with (lit ''video/'') mime then lit ''VID''
      else if starts_with (lit ''audio/'') mime then lit ''AUD''
      else lit ''FILE'')"

definition file_kind :: "rstr \<Rightarrow> rstr \<Rightarrow> rstr" where
  "file_kind name mime =
     (let ext = to_ascii_lowercase (last_part 46 name) in
      if ext \<in> set (map lit [''pdf'']) then lit ''PDF''
      else if ext \<in> set (map lit [''png'', ''jpg'', ''jpeg'', ''gif'', ''webp'', ''svg'', ''bmp'', ''heic''])
        then lit ''IMG''
      else if ext \<in> set (map lit [''mp4'', ''mov'', ''mkv'', ''webm'', ''avi'']) then lit ''VID''
      else if ext \<in> set (map lit [''mp3'', ''wav'', ''flac'', ''ogg'', ''m4a'']) then lit ''AUD''
      else if ext \<in> set (map lit [''zip'', ''tar'', ''gz'', ''rar'', ''7z'']) then lit ''ZIP''
      else if ext \<in> set (map lit [''doc'', ''docx'', ''txt'', ''md'', ''rtf'', ''pages'']) then lit ''DOC''
      else mime_kind mime)"

lemma takeWhile_absent: "c \<notin> set s \<Longrightarrow> takeWhile (\<lambda>x. x \<noteq> c) s = s"
  by (induction s) auto

lemma last_part_append: "c \<notin> set ext \<Longrightarrow> last_part c (stem @ c # ext) = ext"
  by (simp add: last_part_def takeWhile_append takeWhile_absent)

lemma last_part_no_dot: "c \<notin> set s \<Longrightarrow> last_part c s = s"
  by (simp add: last_part_def takeWhile_absent)

lemma lowercase_uppercase [simp]:
  "to_ascii_lowercase (to_ascii_uppercase s) = to_ascii_lowercase s"
  by (auto simp: to_ascii_lowercase_def to_ascii_uppercase_def)

text \<open>The badge depends on the name only through its extension, whose case does not matter, and on
  the media type only when the extension says nothing.\<close>

theorem badge_follows_extension:
  assumes "46 \<notin> set ext"
  shows "file_kind (stem @ [46] @ ext) mime = file_kind (stem' @ [46] @ to_ascii_uppercase ext) mime \<and>
    (file_kind (stem @ [46] @ ext) [] \<noteq> lit ''FILE'' \<longrightarrow>
       file_kind (stem @ [46] @ ext) mime = file_kind (stem @ [46] @ ext) [])"
proof -
  have "46 \<notin> set (to_ascii_uppercase ext)" using assms by (auto simp: to_ascii_uppercase_def split: if_splits)
  then have e: "last_part 46 (stem @ [46] @ ext) = ext"
    "last_part 46 (stem' @ [46] @ to_ascii_uppercase ext) = to_ascii_uppercase ext"
    using assms by (simp_all add: last_part_append)
  have "mime_kind [] = lit ''FILE''" by (simp add: mime_kind_def starts_with_def)
  then show ?thesis unfolding file_kind_def e lowercase_uppercase Let_def by auto
qed

theorem badge_follows_extension_witness:
  "file_kind (lit ''archive.tar'' @ [46] @ lit ''gz'') [] =
     file_kind (lit ''x'' @ [46] @ to_ascii_uppercase (lit ''gz'')) []"
  using badge_follows_extension [of "lit ''gz''" "lit ''archive.tar''" "[]" "lit ''x''"] by simp

text \<open>A name without a dot is taken for an extension: a file called \<open>pages\<close> or \<open>doc\<close> gets the badge
  of that type, and its media type is not looked at.\<close>

theorem dotless_name_is_its_own_extension:
  "46 \<notin> set name \<Longrightarrow> file_kind name mime = file_kind (stem @ [46] @ name) mime"
  by (simp add: file_kind_def last_part_append last_part_no_dot)

theorem dotless_name_is_its_own_extension_witness:
  "file_kind (lit ''pages'') (lit ''image/png'') = file_kind (lit ''x'' @ [46] @ lit ''pages'') (lit ''image/png'')"
  by (rule dotless_name_is_its_own_extension) simp

end
