(* ===== verification/Transfer_Rows.thy ===== *)
theory Transfer_Rows
  imports Binary64 File_Protocol File_Kind "HOL-Library.Sublist"
begin

text \<open>
  The transfer list of the user interface: the rows of \<open>crates/client/src/ui.rs\<close> and the
  transitions of \<open>crates/client/src/rows.rs\<close>, one per function. The list refines a finite map
  from the key \<open>(id, incoming)\<close> to the row.
\<close>

section \<open>Rows\<close>

datatype transfer_state = Pending | Offered | Active | Done | Declined | Cancelled

record transfer =
  t_id :: u64
  t_name :: rstr
  t_size :: f64
  t_kind :: rstr
  t_incoming :: bool
  t_fraction :: f64
  t_speed :: f64
  t_state :: transfer_state

type_synonym key = "u64 \<times> bool"

definition key_of :: "transfer \<Rightarrow> key" where
  "key_of r = (t_id r, t_incoming r)"

lemma key_of_frame [simp, frame_simps]:
  "key_of (r\<lparr>t_state := st\<rparr>) = key_of r"
  "key_of (r\<lparr>t_fraction := f\<rparr>) = key_of r"
  "key_of (r\<lparr>t_speed := sp\<rparr>) = key_of r"
  "key_of (if b then r\<lparr>t_state := st\<rparr> else r) = key_of r"
  "key_of (if b then r else r\<lparr>t_state := st\<rparr>) = key_of r"
  by (simp_all add: key_of_def)

lemma key_of_new [simp]:
  "key_of \<lparr>t_id = i, t_name = name, t_size = siz, t_kind = kind, t_incoming = inc, t_fraction = f,
           t_speed = sp, t_state = st\<rparr> = (i, inc)"
  by (simp add: key_of_def)

section \<open>Transitions\<close>

definition frac :: "f64 \<Rightarrow> f64 \<Rightarrow> f64" where
  "frac done_bytes tot = (if f_less (f_int 0) tot then f_div done_bytes tot else f_int 1)"

definition upsert ::
  "transfer list \<Rightarrow> u64 \<Rightarrow> bool \<Rightarrow> transfer \<Rightarrow> (transfer \<Rightarrow> transfer) \<Rightarrow> transfer list" where
  "upsert rows i inc new_row apply_f =
     (if List.find (\<lambda>r. t_id r = i \<and> t_incoming r = inc) rows \<noteq> None
      then update_first (\<lambda>r. t_id r = i \<and> t_incoming r = inc) apply_f rows
      else rows @ [apply_f new_row])"

definition incoming_offer :: "transfer list \<Rightarrow> file_start \<Rightarrow> transfer list" where
  "incoming_offer rows m =
     upsert rows (fs_id m) True
       \<lparr>t_id = fs_id m, t_name = fs_name m, t_size = fs_size m, t_kind = file_kind (fs_name m) (fs_mime m),
        t_incoming = True, t_fraction = f_int 0, t_speed = f_int 0, t_state = Offered\<rparr>
       (\<lambda>r. r)"

definition recv_progress :: "transfer list \<Rightarrow> u64 \<Rightarrow> rstr \<Rightarrow> f64 \<Rightarrow> f64 \<Rightarrow> f64 \<Rightarrow> transfer list" where
  "recv_progress rows i name recv tot sp =
     (let f = frac recv tot in
      upsert rows i True
        \<lparr>t_id = i, t_name = name, t_size = tot, t_kind = file_kind name [], t_incoming = True,
         t_fraction = f, t_speed = sp, t_state = Active\<rparr>
        (\<lambda>r. r\<lparr>t_fraction := f, t_speed := sp, t_state := Active\<rparr>))"

definition recv_complete :: "transfer list \<Rightarrow> u64 \<Rightarrow> rstr \<Rightarrow> transfer list" where
  "recv_complete rows i name =
     upsert rows i True
       \<lparr>t_id = i, t_name = name, t_size = f_int 0, t_kind = file_kind name [], t_incoming = True,
        t_fraction = f_int 1, t_speed = f_int 0, t_state = Done\<rparr>
       (\<lambda>r. r\<lparr>t_fraction := f_int 1, t_speed := f_int 0, t_state := Done\<rparr>)"

definition send_progress :: "transfer list \<Rightarrow> u64 \<Rightarrow> rstr \<Rightarrow> f64 \<Rightarrow> f64 \<Rightarrow> transfer list" where
  "send_progress rows i name sent tot =
     (let f = frac sent tot; st = (if f_le (f_int 1) f then Done else Active) in
      upsert rows i False
        \<lparr>t_id = i, t_name = name, t_size = tot, t_kind = file_kind name [], t_incoming = False,
         t_fraction = f, t_speed = f_int 0, t_state = st\<rparr>
        (\<lambda>r. r\<lparr>t_fraction := f, t_state := st\<rparr>))"

definition push_outgoing_pending :: "transfer list \<Rightarrow> u64 \<Rightarrow> rstr \<Rightarrow> f64 \<Rightarrow> transfer list" where
  "push_outgoing_pending rows i name siz =
     rows @ [\<lparr>t_id = i, t_name = name, t_size = siz, t_kind = file_kind name [], t_incoming = False,
              t_fraction = f_int 0, t_speed = f_int 0, t_state = Pending\<rparr>]"

definition mark_offered :: "transfer list \<Rightarrow> u64 \<Rightarrow> transfer list" where
  "mark_offered rows i =
     update_first (\<lambda>r. t_id r = i \<and> \<not> t_incoming r)
       (\<lambda>r. if t_state r = Pending then r\<lparr>t_state := Offered\<rparr> else r) rows"

definition mark_rejected :: "transfer list \<Rightarrow> u64 \<Rightarrow> transfer list" where
  "mark_rejected rows i =
     update_first (\<lambda>r. t_id r = i \<and> \<not> t_incoming r) (\<lambda>r. r\<lparr>t_state := Declined\<rparr>) rows"

definition mark_cancelled_remote :: "transfer list \<Rightarrow> u64 \<Rightarrow> transfer list" where
  "mark_cancelled_remote rows i =
     update_first (\<lambda>r. t_id r = i \<and> \<not> t_incoming r)
       (\<lambda>r. if t_state r \<noteq> Done then r\<lparr>t_state := Cancelled\<rparr> else r) rows"

definition mark_all_active_cancelled :: "transfer list \<Rightarrow> transfer list" where
  "mark_all_active_cancelled =
     map (\<lambda>r. if t_state r = Active then r\<lparr>t_state := Cancelled\<rparr> else r)"

definition accept :: "transfer list \<Rightarrow> u64 \<Rightarrow> transfer list" where
  "accept rows i =
     update_first (\<lambda>r. t_id r = i \<and> t_incoming r) (\<lambda>r. r\<lparr>t_state := Active\<rparr>) rows"

definition decline :: "transfer list \<Rightarrow> u64 \<Rightarrow> transfer list" where
  "decline rows i = filter (\<lambda>r. \<not> (t_id r = i \<and> t_incoming r)) rows"

definition cancel :: "transfer list \<Rightarrow> u64 \<Rightarrow> transfer list" where
  "cancel rows i =
     update_first (\<lambda>r. t_id r = i \<and> t_incoming r) (\<lambda>r. r\<lparr>t_state := Cancelled\<rparr>) rows"

definition pending_incoming_ids :: "transfer list \<Rightarrow> u64 list" where
  "pending_incoming_ids rows = map t_id (filter (\<lambda>r. t_incoming r \<and> t_state r = Offered) rows)"

definition accept_all :: "transfer list \<Rightarrow> u64 list \<Rightarrow> transfer list" where
  "accept_all rows ids =
     map (\<lambda>r. if t_incoming r \<and> t_id r \<in> set ids then r\<lparr>t_state := Active\<rparr> else r) rows"

text \<open>The \<open>Accept all\<close> button is shown when two or more offers wait.\<close>

definition show_accept_all :: "transfer list \<Rightarrow> bool" where
  "show_accept_all rows \<longleftrightarrow> length (filter (\<lambda>r. t_incoming r \<and> t_state r = Offered) rows) \<ge> 2"

section \<open>The operations as a machine\<close>

datatype row_op =
    Incoming_Offer file_start
  | Recv_Progress u64 rstr f64 f64 f64
  | Recv_Complete u64 rstr
  | Send_Progress u64 rstr f64 f64
  | Push_Pending u64 rstr f64
  | Mark_Offered u64
  | Mark_Rejected u64
  | Mark_Cancelled_Remote u64
  | Mark_All_Cancelled
  | Accept_Row u64
  | Decline_Row u64
  | Cancel_Row u64
  | Accept_All "u64 list"

fun row_step :: "transfer list \<Rightarrow> row_op \<Rightarrow> transfer list" where
  "row_step rows (Incoming_Offer m) = incoming_offer rows m"
| "row_step rows (Recv_Progress i name recv tot sp) = recv_progress rows i name recv tot sp"
| "row_step rows (Recv_Complete i name) = recv_complete rows i name"
| "row_step rows (Send_Progress i name sent tot) = send_progress rows i name sent tot"
| "row_step rows (Push_Pending i name siz) = push_outgoing_pending rows i name siz"
| "row_step rows (Mark_Offered i) = mark_offered rows i"
| "row_step rows (Mark_Rejected i) = mark_rejected rows i"
| "row_step rows (Mark_Cancelled_Remote i) = mark_cancelled_remote rows i"
| "row_step rows Mark_All_Cancelled = mark_all_active_cancelled rows"
| "row_step rows (Accept_Row i) = accept rows i"
| "row_step rows (Decline_Row i) = decline rows i"
| "row_step rows (Cancel_Row i) = cancel rows i"
| "row_step rows (Accept_All ids) = accept_all rows ids"

text \<open>A new outgoing row gets an id that no outgoing row has (\<open>app.rs\<close> counts the ids up).\<close>

fun row_ok :: "transfer list \<Rightarrow> row_op \<Rightarrow> bool" where
  "row_ok rows (Push_Pending i name siz) \<longleftrightarrow> (i, False) \<notin> key_of ` set rows"
| "row_ok rows _ \<longleftrightarrow> True"

lemmas row_defs =
  incoming_offer_def recv_progress_def recv_complete_def send_progress_def push_outgoing_pending_def
  mark_offered_def mark_rejected_def mark_cancelled_remote_def mark_all_active_cancelled_def
  accept_def decline_def cancel_def accept_all_def

section \<open>The list as a finite map\<close>

definition row_at :: "transfer list \<Rightarrow> key \<Rightarrow> transfer option" where
  "row_at rows k = List.find (\<lambda>r. key_of r = k) rows"

lemma row_at_Nil [simp]: "row_at [] k = None"
  and row_at_Cons [simp]: "row_at (r # rows) k = (if key_of r = k then Some r else row_at rows k)"
  by (simp_all add: row_at_def)

lemma row_at_append:
  "row_at (xs @ ys) k = (case row_at xs k of None \<Rightarrow> row_at ys k | Some r \<Rightarrow> Some r)"
  by (induction xs) auto

lemma row_at_None_iff: "row_at rows k = None \<longleftrightarrow> k \<notin> key_of ` set rows"
  by (induction rows) auto

lemma row_at_key: "row_at rows k = Some r \<Longrightarrow> key_of r = k \<and> r \<in> set rows"
  by (auto simp: row_at_def dest: find_Some_D)

lemma key_tests:
  "(\<lambda>r. t_id r = i \<and> t_incoming r = inc) = (\<lambda>r. key_of r = (i, inc))"
  "(\<lambda>r. t_id r = i \<and> t_incoming r) = (\<lambda>r. key_of r = (i, True))"
  "(\<lambda>r. t_id r = i \<and> \<not> t_incoming r) = (\<lambda>r. key_of r = (i, False))"
  by (auto simp: key_of_def fun_eq_iff)

lemma row_at_update_first:
  assumes "\<And>r. key_of (f r) = key_of r"
  shows "row_at (update_first (\<lambda>r. key_of r = k) f rows) =
    (row_at rows)(k := map_option f (row_at rows k))"
proof
  fix k'
  show "row_at (update_first (\<lambda>r. key_of r = k) f rows) k' =
      ((row_at rows)(k := map_option f (row_at rows k))) k'"
  proof (cases "k' = k")
    case True
    then show ?thesis unfolding row_at_def by (simp add: find_update_first_same assms)
  next
    case False
    then have "row_at (update_first (\<lambda>r. key_of r = k) f rows) k' = row_at rows k'"
      unfolding row_at_def by (intro find_update_first_other) (simp add: assms)
    with False show ?thesis by simp
  qed
qed

lemma keys_update_first:
  "(\<And>r. key_of (f r) = key_of r) \<Longrightarrow> map key_of (update_first P f rows) = map key_of rows"
  by (rule map_update_first) blast

lemma row_at_map:
  "(\<And>r. key_of (f r) = key_of r) \<Longrightarrow> row_at (map f rows) k = map_option f (row_at rows k)"
  by (induction rows) auto

lemma row_at_decline: "row_at (decline rows i) = (row_at rows)((i, True) := None)"
proof
  fix k show "row_at (decline rows i) k = ((row_at rows)((i, True) := None)) k"
    by (induction rows) (auto simp: decline_def key_of_def)
qed

lemma row_at_snoc_new:
  "row_at rows (key_of r) = None \<Longrightarrow> row_at (rows @ [r]) = (row_at rows)(key_of r := Some r)"
  by (auto simp: row_at_append fun_eq_iff split: option.splits)

lemma find_row: "List.find (\<lambda>r. t_id r = i \<and> t_incoming r = inc) rows = row_at rows (i, inc)"
  by (simp add: key_tests row_at_def)

lemma row_at_upsert:
  assumes "\<And>r. key_of (f r) = key_of r" and "key_of new_row = (i, inc)"
  shows "row_at (upsert rows i inc new_row f) =
    (row_at rows)((i, inc) := Some (f (case row_at rows (i, inc) of None \<Rightarrow> new_row | Some r \<Rightarrow> r)))"
proof (cases "row_at rows (i, inc)")
  case None
  then show ?thesis
    using row_at_snoc_new [of rows "f new_row"] by (simp add: upsert_def find_row assms)
next
  case (Some r)
  then show ?thesis
    by (simp add: upsert_def key_tests(1) row_at_update_first assms flip: row_at_def)
qed

lemma upsert_keys:
  assumes "\<And>r. key_of (f r) = key_of r" and "key_of new_row = (i, inc)"
  shows "map key_of (upsert rows i inc new_row f) =
    map key_of rows @ (if row_at rows (i, inc) = None then [(i, inc)] else [])"
  using assms by (simp add: upsert_def find_row keys_update_first)

section \<open>The specification\<close>

text \<open>What each operation means for the map; \<open>modify\<close> changes the row of a key if there is one.\<close>

definition modify :: "key \<Rightarrow> (transfer \<Rightarrow> transfer) \<Rightarrow> (key \<Rightarrow> transfer option) \<Rightarrow> key \<Rightarrow> transfer option" where
  "modify k f m = m(k := map_option f (m k))"

definition insert_or_modify ::
  "key \<Rightarrow> transfer \<Rightarrow> (transfer \<Rightarrow> transfer) \<Rightarrow> (key \<Rightarrow> transfer option) \<Rightarrow> key \<Rightarrow> transfer option" where
  "insert_or_modify k new f m = m(k := Some (case m k of None \<Rightarrow> new | Some r \<Rightarrow> f r))"

definition blank_row :: "key \<Rightarrow> rstr \<Rightarrow> rstr \<Rightarrow> f64 \<Rightarrow> transfer" where
  "blank_row k name mime siz =
     \<lparr>t_id = fst k, t_name = name, t_size = siz, t_kind = file_kind name mime, t_incoming = snd k,
      t_fraction = f_int 0, t_speed = f_int 0, t_state = Pending\<rparr>"

fun row_spec :: "(key \<Rightarrow> transfer option) \<Rightarrow> row_op \<Rightarrow> key \<Rightarrow> transfer option" where
  "row_spec m (Incoming_Offer fs) =
     (let k = (fs_id fs, True) in
      insert_or_modify k (blank_row k (fs_name fs) (fs_mime fs) (fs_size fs)\<lparr>t_state := Offered\<rparr>) (\<lambda>r. r) m)"
| "row_spec m (Recv_Progress i name recv tot sp) =
     (let k = (i, True); f = (\<lambda>r. r\<lparr>t_fraction := frac recv tot, t_speed := sp, t_state := Active\<rparr>) in
      insert_or_modify k (f (blank_row k name [] tot)) f m)"
| "row_spec m (Recv_Complete i name) =
     (let k = (i, True); f = (\<lambda>r. r\<lparr>t_fraction := f_int 1, t_speed := f_int 0, t_state := Done\<rparr>) in
      insert_or_modify k (f (blank_row k name [] (f_int 0))) f m)"
| "row_spec m (Send_Progress i name sent tot) =
     (let k = (i, False);
          f = (\<lambda>r. r\<lparr>t_fraction := frac sent tot,
                      t_state := if f_le (f_int 1) (frac sent tot) then Done else Active\<rparr>) in
      insert_or_modify k (f (blank_row k name [] tot)) f m)"
| "row_spec m (Push_Pending i name siz) = m((i, False) \<mapsto> blank_row (i, False) name [] siz)"
| "row_spec m (Mark_Offered i) =
     modify (i, False) (\<lambda>r. if t_state r = Pending then r\<lparr>t_state := Offered\<rparr> else r) m"
| "row_spec m (Mark_Rejected i) = modify (i, False) (\<lambda>r. r\<lparr>t_state := Declined\<rparr>) m"
| "row_spec m (Mark_Cancelled_Remote i) =
     modify (i, False) (\<lambda>r. if t_state r = Done then r else r\<lparr>t_state := Cancelled\<rparr>) m"
| "row_spec m Mark_All_Cancelled =
     (\<lambda>k. map_option (\<lambda>r. if t_state r = Active then r\<lparr>t_state := Cancelled\<rparr> else r) (m k))"
| "row_spec m (Accept_Row i) = modify (i, True) (\<lambda>r. r\<lparr>t_state := Active\<rparr>) m"
| "row_spec m (Decline_Row i) = m((i, True) := None)"
| "row_spec m (Cancel_Row i) = modify (i, True) (\<lambda>r. r\<lparr>t_state := Cancelled\<rparr>) m"
| "row_spec m (Accept_All ids) =
     (\<lambda>(i, inc). if inc \<and> i \<in> set ids then map_option (\<lambda>r. r\<lparr>t_state := Active\<rparr>) (m (i, inc)) else m (i, inc))"

lemma row_at_accept_all:
  "row_at (accept_all rows ids) (i, inc) =
     (if inc \<and> i \<in> set ids then map_option (\<lambda>r. r\<lparr>t_state := Active\<rparr>) (row_at rows (i, inc))
      else row_at rows (i, inc))"
  by (cases "row_at rows (i, inc)")
     (auto simp: accept_all_def row_at_map key_of_def dest: row_at_key)

lemma if_swap: "(if P \<noteq> Q then a else b) = (if P = Q then b else a)"
  by simp

lemma row_at_step:
  assumes "row_ok rows e"
  shows "row_at (row_step rows e) = row_spec (row_at rows) e"
proof (cases e)
  case (Push_Pending i name siz)
  with assms have "row_at rows (i, False) = None" by (simp add: row_at_None_iff)
  then show ?thesis
    by (simp add: Push_Pending push_outgoing_pending_def row_at_snoc_new key_of_def blank_row_def)
next
  case Mark_All_Cancelled
  then show ?thesis by (simp add: mark_all_active_cancelled_def row_at_map fun_eq_iff)
next
  case (Decline_Row i)
  then show ?thesis by (simp add: row_at_decline)
next
  case (Accept_All ids)
  then show ?thesis by (auto simp: row_at_accept_all fun_eq_iff)
qed (simp_all add: row_defs Let_def key_tests row_at_upsert row_at_update_first modify_def
       insert_or_modify_def blank_row_def if_swap split: option.splits)

lemma keys_step:
  "map key_of (row_step rows e) =
     (case e of Decline_Row i \<Rightarrow> filter (\<lambda>k. k \<noteq> (i, True)) (map key_of rows)
      | Push_Pending i _ _ \<Rightarrow> map key_of rows @ [(i, False)]
      | Incoming_Offer m \<Rightarrow> map key_of rows @ (if row_at rows (fs_id m, True) = None then [(fs_id m, True)] else [])
      | Recv_Progress i _ _ _ _ \<Rightarrow> map key_of rows @ (if row_at rows (i, True) = None then [(i, True)] else [])
      | Recv_Complete i _ \<Rightarrow> map key_of rows @ (if row_at rows (i, True) = None then [(i, True)] else [])
      | Send_Progress i _ _ _ \<Rightarrow> map key_of rows @ (if row_at rows (i, False) = None then [(i, False)] else [])
      | _ \<Rightarrow> map key_of rows)"
proof (cases e)
  case (Decline_Row i)
  then show ?thesis by (simp add: decline_def filter_map comp_def key_of_def)
qed (simp_all add: row_defs Let_def upsert_keys keys_update_first comp_def)

section \<open>Properties of the list\<close>

definition rows_wf :: "transfer list \<Rightarrow> bool" where
  "rows_wf rows \<longleftrightarrow> distinct (map key_of rows)"

lemma row_step_wf [inv_intros]: "rows_wf rows \<Longrightarrow> row_ok rows e \<Longrightarrow> rows_wf (row_step rows e)"
  unfolding rows_wf_def keys_step
  by (cases e) (auto simp: row_at_None_iff)

interpretation rows: invariant_machine row_step row_ok rows_wf
  by unfold_locales (rule row_step_wf)

lemma row_at_run: "run_ok row_ok row_step rows es \<Longrightarrow> row_at (run row_step rows es) = run row_spec (row_at rows) es"
  by (induction es arbitrary: rows) (simp_all add: row_at_step)

definition demo_rows :: "row_op list" where
  "demo_rows =
     [Push_Pending 1 (lit ''a.pdf'') (f_int 100), Mark_Offered 1,
      Incoming_Offer \<lparr>fs_id = 1, fs_name = lit ''b.zip'', fs_size = f_int 9, fs_mime = []\<rparr>,
      Incoming_Offer \<lparr>fs_id = 2, fs_name = lit ''c'', fs_size = f_int 9, fs_mime = lit ''image/png''\<rparr>]"

lemma demo_rows_ok: "run_ok row_ok row_step [] demo_rows"
  by (simp add: demo_rows_def row_defs key_of_def upsert_def)

text \<open>(C36) The list with its first-match searches implements a finite map from \<open>(id, incoming)\<close> to rows:
  along every history that pushes outgoing rows under unused ids no key occurs twice, and every
  operation changes exactly the row it names, in the way the specification says, and no other,
  although ids of the two directions overlap.\<close>

theorem rows_refine_a_map:
  assumes "run_ok row_ok row_step [] es"
  shows "distinct (map key_of (run row_step [] es)) \<and>
    (\<forall>k. row_at (run row_step [] es) k = run row_spec Map.empty es k)"
proof -
  have "rows_wf []" by (simp add: rows_wf_def)
  then have "rows_wf (run row_step [] es)" using assms by (rule rows.run_inv)
  moreover have "row_at [] = Map.empty" by (simp add: fun_eq_iff)
  ultimately show ?thesis using row_at_run [OF assms] by (simp add: rows_wf_def)
qed

theorem rows_refine_a_map_witness:
  "distinct (map key_of (run row_step [] demo_rows)) \<and>
    (\<forall>k. row_at (run row_step [] demo_rows) k = run row_spec Map.empty demo_rows k)"
  by (rule rows_refine_a_map) (rule demo_rows_ok)

lemma fold_accept:
  assumes "rows_wf rows"
  shows "fold (\<lambda>i rs. accept rs i) ids rows = accept_all rows ids"
  using assms
proof (induction ids arbitrary: rows)
  case Nil
  then show ?case by (simp add: accept_all_def cong: if_cong)
next
  case (Cons i ids)
  have "accept rows i = accept_all rows [i]"
    using Cons.prems
  proof (induction rows)
    case (Cons r rows)
    show ?case
    proof (cases "key_of r = (i, True)")
      case True
      with Cons.prems have "\<forall>r' \<in> set rows. key_of r' \<noteq> (i, True)"
        by (auto simp: rows_wf_def image_iff dest: sym)
      then have "accept_all rows [i] = rows"
        unfolding accept_all_def by (intro map_idI) (auto simp: key_of_def)
      with True show ?thesis by (simp add: accept_def accept_all_def key_of_def)
    next
      case False
      with Cons show ?thesis by (auto simp: accept_def accept_all_def key_of_def rows_wf_def)
    qed
  qed (simp add: accept_def accept_all_def)
  moreover have "rows_wf (accept rows i)" using row_step_wf [OF Cons.prems, of "Accept_Row i"] by simp
  moreover have "accept_all (accept_all rows [i]) ids = accept_all rows (i # ids)"
    by (auto simp: accept_all_def)
  ultimately show ?case using Cons.IH by simp
qed

text \<open>\<open>Accept all\<close> accepts every offer that waits and nothing else: applied to the ids that
  \<open>pending_incoming_ids\<close> returned, it changes exactly the offered incoming rows, as accepting them
  one by one would, it leaves no offer behind, and the button disappears.\<close>

theorem accept_all_takes_every_offer:
  assumes "run_ok row_ok row_step [] es"
  defines "rows \<equiv> run row_step [] es"
  defines "rows' \<equiv> accept_all rows (pending_incoming_ids rows)"
  shows "rows' = map (\<lambda>r. if t_incoming r \<and> t_state r = Offered then r\<lparr>t_state := Active\<rparr> else r) rows \<and>
    rows' = fold (\<lambda>i rs. accept rs i) (pending_incoming_ids rows) rows \<and>
    pending_incoming_ids rows' = [] \<and> \<not> show_accept_all rows'"
proof -
  have "rows_wf []" by (simp add: rows_wf_def)
  then have wf: "rows_wf rows" unfolding rows_def using assms(1) by (rule rows.run_inv)
  have "t_id r \<in> set (pending_incoming_ids rows) \<longleftrightarrow> t_state r = Offered"
    if r: "r \<in> set rows" "t_incoming r" for r
  proof
    assume "t_id r \<in> set (pending_incoming_ids rows)"
    then obtain r' where "r' \<in> set rows" "key_of r' = key_of r" "t_state r' = Offered"
      using r by (auto simp: pending_incoming_ids_def key_of_def)
    moreover from this(1,2) r(1) wf have "r' = r" by (auto simp: rows_wf_def distinct_map inj_on_def)
    ultimately show "t_state r = Offered" by simp
  qed (use r in \<open>auto simp: pending_incoming_ids_def\<close>)
  then have eq: "rows' = map (\<lambda>r. if t_incoming r \<and> t_state r = Offered then r\<lparr>t_state := Active\<rparr> else r) rows"
    unfolding rows'_def accept_all_def by auto
  then have none: "filter (\<lambda>r. t_incoming r \<and> t_state r = Offered) rows' = []" by (auto simp: filter_empty_conv)
  show ?thesis
    using eq none fold_accept [OF wf] by (simp add: rows'_def pending_incoming_ids_def show_accept_all_def)
qed

theorem accept_all_takes_every_offer_witness:
  "pending_incoming_ids (accept_all (run row_step [] demo_rows)
       (pending_incoming_ids (run row_step [] demo_rows))) = []"
  using accept_all_takes_every_offer [OF demo_rows_ok] by blast

text \<open>An outgoing row says \<open>Done\<close> exactly when every byte was counted, however the division rounds:
  for files of up to \<open>2\<^sup>5\<^sup>3\<close> bytes a progress report with \<open>sent < total\<close> leaves the row \<open>Active\<close> with a
  fraction below 1, and the report with \<open>sent = total\<close>, also that of an empty file, makes it \<open>Done\<close>
  with fraction 1.\<close>

theorem done_exactly_at_the_last_byte:
  fixes sent tot :: int
  assumes "0 \<le> sent" and "sent \<le> tot" and "tot \<le> 2 ^ 53"
  shows "case row_at (send_progress rows i name (f_int sent) (f_int tot)) (i, False) of None \<Rightarrow> False
    | Some r \<Rightarrow> (t_state r = Done \<longleftrightarrow> sent = tot) \<and> (t_state r = Active \<longleftrightarrow> sent < tot) \<and>
        (if sent = tot then t_fraction r = f_int 1 else f_less (t_fraction r) (f_int 1))"
proof -
  let ?f = "frac (f_int sent) (f_int tot)"
  have full: "f_le (f_int 1) ?f \<longleftrightarrow> sent = tot"
    using assms f_div_int_done_iff [of sent tot] by (auto simp: frac_def)
  have one: "?f = f_int 1" if "sent = tot" using that assms by (auto simp: frac_def)
  have less: "f_less ?f (f_int 1)" if "sent \<noteq> tot"
    using that assms f_div_int_less_1 [of sent tot] by (auto simp: frac_def f_less_def f_int_def)
  show ?thesis
    using full one less assms
    by (auto simp: send_progress_def row_at_upsert Let_def split: option.splits)
qed

theorem done_exactly_at_the_last_byte_witness:
  "case row_at (send_progress [] 4 [] (f_int (2 ^ 53 - 1)) (f_int (2 ^ 53))) (4, False) of None \<Rightarrow> False
    | Some r \<Rightarrow> (t_state r = Done \<longleftrightarrow> 2 ^ 53 - 1 = (2 ^ 53 :: int)) \<and>
        (t_state r = Active \<longleftrightarrow> 2 ^ 53 - 1 < (2 ^ 53 :: int)) \<and>
        (if 2 ^ 53 - 1 = (2 ^ 53 :: int) then t_fraction r = f_int 1 else f_less (t_fraction r) (f_int 1))"
  by (rule done_exactly_at_the_last_byte) simp_all

end
