(* ===== verification/Receiving.thy ===== *)
theory Receiving
  imports Sending_Stream Transfer_Rows
begin

text \<open>
  The receiving end: the routers of all channels of one page, driven in any order by what the
  browser delivers and the user does, and what becomes of one file.
\<close>

section \<open>The receiving page\<close>

record 't receiver =
  routers :: "nat \<Rightarrow> router"
  page :: "'t shared"

definition receiver_new :: "'t receiver" where
  "receiver_new = \<lparr>routers = (\<lambda>_. router_new), page = transfer_new\<rparr>"

text \<open>
  \<open>Channel_Msg k\<close> is a message on the \<open>k\<close>-th per-file channel, at a time and with the browser's
  success in saving a file; the other events are control frames and calls of the handle.
\<close>

datatype 't page_event =
    Channel_Msg nat f64 download "'t packet"
  | Ctrl_Msg "'t packet"
  | User_Accept u64
  | User_Reject u64
  | User_Cancel u64
  | User_Abort u64
  | User_Offers "(u64 \<times> js_file) list"
  | Ctrl_State bool  \<comment> \<open>the control channel opens or closes\<close>

fun page_step ::
  "(control \<Rightarrow> 't) \<Rightarrow> ('t \<Rightarrow> control option) \<Rightarrow> 't receiver \<Rightarrow> 't page_event \<Rightarrow> 't receiver" where
  "page_step enc dec s (Channel_Msg k now dl p) =
     (let (r, pg) = recv_router dec now dl p (routers s k, page s)
      in s\<lparr>routers := (routers s)(k := r), page := pg\<rparr>)"
| "page_step enc dec s (Ctrl_Msg p) = s\<lparr>page := ctrl_router dec p (page s)\<rparr>"
| "page_step enc dec s (User_Accept i) = s\<lparr>page := transfer_accept enc i (page s)\<rparr>"
| "page_step enc dec s (User_Reject i) = s\<lparr>page := transfer_reject enc i (page s)\<rparr>"
| "page_step enc dec s (User_Cancel i) = s\<lparr>page := transfer_cancel enc i (page s)\<rparr>"
| "page_step enc dec s (User_Abort i) = s\<lparr>page := transfer_abort enc i (page s)\<rparr>"
| "page_step enc dec s (User_Offers files) = s\<lparr>page := offer_files enc files (page s)\<rparr>"
| "page_step enc dec s (Ctrl_State opened) = s\<lparr>page := (page s)\<lparr>ctrl_open := opened\<rparr>\<rparr>"

fun packet_on :: "nat \<Rightarrow> 't page_event \<Rightarrow> 't packet list" where
  "packet_on k (Channel_Msg j now dl p) = (if j = k then [p] else [])"
| "packet_on k _ = []"

text \<open>The packets that a sequence of events delivers on channel \<open>k\<close>, in order.\<close>

definition packets_on :: "nat \<Rightarrow> 't page_event list \<Rightarrow> 't packet list" where
  "packets_on k es = concat (map (packet_on k) es)"

text \<open>
  Events that are not about the file \<open>i\<close>: other channels do not start it, nobody cancels or
  aborts it. Messages of its own channel \<open>k\<close> are not restricted, but the browser saves the file.
\<close>

fun unrelated :: "('t \<Rightarrow> control option) \<Rightarrow> u64 \<Rightarrow> nat \<Rightarrow> 't page_event \<Rightarrow> bool" where
  "unrelated dec i k (Channel_Msg j now dl p) \<longleftrightarrow>
     (if j = k then dl = Downloaded
      else (case p of Text t \<Rightarrow> (case dec t of Some (Start m) \<Rightarrow> fs_id m \<noteq> i | _ \<Rightarrow> True) | Binary b \<Rightarrow> True))"
| "unrelated dec i k (Ctrl_Msg p) \<longleftrightarrow>
     (case p of Text t \<Rightarrow> dec t \<noteq> Some (Abort i) | Binary b \<Rightarrow> True)"
| "unrelated dec i k (User_Cancel j) \<longleftrightarrow> j \<noteq> i"
| "unrelated dec i k _ \<longleftrightarrow> True"

fun completes :: "u64 \<Rightarrow> ui_call \<Rightarrow> bool" where
  "completes i (On_Recv_Complete j name) \<longleftrightarrow> j = i"
| "completes i _ \<longleftrightarrow> False"

fun recv_call :: "u64 \<Rightarrow> ui_call \<Rightarrow> bool" where
  "recv_call i (On_Recv_Complete j name) \<longleftrightarrow> j = i"
| "recv_call i (On_Recv_Progress j name recv tot sp) \<longleftrightarrow> j = i"
| "recv_call i _ \<longleftrightarrow> False"

section \<open>What the operations leave alone\<close>

lemma ctrl_send_frame [simp, frame_simps]:
  "incoming_files (ctrl_send t s) = incoming_files s" "downloads (ctrl_send t s) = downloads s"
  "ui (ctrl_send t s) = ui s" "outgoing_files (ctrl_send t s) = outgoing_files s"
  "sending (ctrl_send t s) = sending s"
  by (simp_all add: ctrl_send_def)

lemma call_ui_frame [simp, frame_simps]:
  "incoming_files (call_ui c s) = incoming_files s" "downloads (call_ui c s) = downloads s"
  "ui (call_ui c s) = ui s @ [c]" "outgoing_files (call_ui c s) = outgoing_files s"
  "sending (call_ui c s) = sending s"
  by (simp_all add: call_ui_def)

lemma pump_frame [simp, frame_simps]:
  "incoming_files (pump s) = incoming_files s" "downloads (pump s) = downloads s" "ui (pump s) = ui s"
  by (simp_all add: pump_def spawn_def Let_def case_prod_unfold)

lemma offer_files_frame [simp, frame_simps]:
  "incoming_files (offer_files enc files s) = incoming_files s"
  "downloads (offer_files enc files s) = downloads s"
  "ui (offer_files enc files s) = ui s" "sending (offer_files enc files s) = sending s"
  by (induction enc files s rule: offer_files.induct) (simp_all add: Let_def)

definition started_entry :: "file_start \<Rightarrow> incoming option \<Rightarrow> incoming" where
  "started_entry m old =
     (let inc = (case old of Some inc \<Rightarrow> inc | None \<Rightarrow> incoming_default)
      in (case meta inc of None \<Rightarrow> inc\<lparr>meta := Some m\<rparr> | Some _ \<Rightarrow> inc))"

definition chunk_entry :: "f64 \<Rightarrow> u8 list \<Rightarrow> incoming \<Rightarrow> incoming" where
  "chunk_entry now bytes inc =
     snd (account_chunk (inc\<lparr>chunks := chunks inc @ [bytes]\<rparr>) (f_of_word (of_nat (length bytes) :: u32)) now)"

lemma chunk_entry_simps [simp]:
  "meta (chunk_entry now bytes inc) = meta inc"
  "chunks (chunk_entry now bytes inc) = chunks inc @ [bytes]"
  by (simp_all add: chunk_entry_def)

lemma start_incoming_simps [simp]:
  "incoming_files (start_incoming m s) =
     (incoming_files s)(fs_id m \<mapsto> started_entry m (incoming_files s (fs_id m)))"
  "downloads (start_incoming m s) = downloads s" "ui (start_incoming m s) = ui s"
  by (simp_all add: start_incoming_def started_entry_def Let_def)

lemma recv_chunk_simps [simp]:
  "incoming_files (recv_chunk now i bytes s) =
     (incoming_files s)(i := map_option (chunk_entry now bytes) (incoming_files s i))"
  "downloads (recv_chunk now i bytes s) = downloads s"
  by (auto simp: recv_chunk_def chunk_entry_def Let_def case_prod_unfold fun_eq_iff split: option.splits)

lemma ui_recv_chunk:
  "ui (recv_chunk now i bytes s) =
     ui s @ (case incoming_files s i of None \<Rightarrow> []
       | Some inc \<Rightarrow> (case meta inc of None \<Rightarrow> []
           | Some m \<Rightarrow> [On_Recv_Progress (fs_id m) (fs_name m) (received (chunk_entry now bytes inc))
                         (fs_size m) (speed (chunk_entry now bytes inc))]))"
  by (auto simp: recv_chunk_def chunk_entry_def account_chunk_def Let_def split: option.splits)

lemma finalize_recv_simps [simp]:
  "incoming_files (finalize_recv ok i s) = (incoming_files s)(i := None)"
  by (auto simp: finalize_recv_def finalize_decision_def trigger_download_def Let_def fun_eq_iff split: option.splits)

text \<open>What the end of a file saves and tells.\<close>

definition saved_by :: "download \<Rightarrow> incoming option \<Rightarrow> saved_file list \<times> ui_call list" where
  "saved_by dl inc =
     (case inc of None \<Rightarrow> ([], [])
      | Some inc \<Rightarrow> (case meta inc of None \<Rightarrow> ([], [])
          | Some m \<Rightarrow>
              (if dl = Downloaded
               then [\<lparr>sv_name = fs_name m, sv_mime = fs_mime m, sv_bytes = concat (chunks inc)\<rparr>] else [],
               if dl = Blob_Failed then [] else [On_Recv_Complete (fs_id m) (fs_name m)])))"

lemma finalize_recv_saves:
  "downloads (finalize_recv ok i s) = downloads s @ fst (saved_by ok (incoming_files s i))"
  "ui (finalize_recv ok i s) = ui s @ snd (saved_by ok (incoming_files s i))"
  by (cases ok; auto simp: finalize_recv_def finalize_decision_def saved_by_def trigger_download_def Let_def split: option.splits)+

lemma ctrl_frame_simps [simp]:
  "incoming_files (ctrl_frame c s) =
     (case c of Abort i \<Rightarrow> (incoming_files s)(i := None) | _ \<Rightarrow> incoming_files s)"
  "downloads (ctrl_frame c s) = downloads s"
  by (cases c; simp)+

lemma ui_ctrl_frame: "\<exists>new. ui (ctrl_frame c s) = ui s @ new \<and> (\<forall>x \<in> set new. \<not> recv_call i x)"
  by (cases c) auto

text \<open>An entry is filed under the id in its own metadata.\<close>

definition keyed :: "(u64 \<Rightarrow> incoming option) \<Rightarrow> bool" where
  "keyed inc \<longleftrightarrow> (\<forall>i x m. inc i = Some x \<longrightarrow> meta x = Some m \<longrightarrow> fs_id m = i)"

lemma keyedD: "keyed inc \<Longrightarrow> inc i = Some x \<Longrightarrow> meta x = Some m \<Longrightarrow> fs_id m = i"
  unfolding keyed_def by blast

lemma keyed_upd:
  "keyed inc \<Longrightarrow> (\<And>x m. y = Some x \<Longrightarrow> meta x = Some m \<Longrightarrow> fs_id m = i) \<Longrightarrow> keyed (inc(i := y))"
  unfolding keyed_def by simp

lemma keyed_None: "keyed inc \<Longrightarrow> keyed (inc(i := None))"
  by (erule keyed_upd) simp

lemma keyed_started:
  assumes "keyed inc"
  shows "keyed (inc(fs_id m \<mapsto> started_entry m (inc (fs_id m))))"
proof (rule keyed_upd [OF assms])
  fix x n
  assume x: "Some (started_entry m (inc (fs_id m))) = Some x" "meta x = Some n"
  show "fs_id n = fs_id m"
  proof (cases "inc (fs_id m)")
    case None
    with x show ?thesis by (auto simp: started_entry_def incoming_default_def)
  next
    case (Some y)
    show ?thesis
    proof (cases "meta y")
      case None
      with Some x show ?thesis by (auto simp: started_entry_def)
    next
      case (Some k)
      with \<open>inc (fs_id m) = Some y\<close> x have "k = n" by (simp add: started_entry_def)
      with keyedD [OF assms \<open>inc (fs_id m) = Some y\<close> Some] show ?thesis by simp
    qed
  qed
qed

lemma keyed_chunk:
  assumes "keyed inc"
  shows "keyed (inc(i := map_option (chunk_entry now bytes) (inc i)))"
proof (rule keyed_upd [OF assms])
  fix x n
  assume "map_option (chunk_entry now bytes) (inc i) = Some x" "meta x = Some n"
  then obtain y where "inc i = Some y" "meta y = Some n" by auto
  then show "fs_id n = i" by (rule keyedD [OF assms])
qed

lemma keyed_step:
  assumes "keyed (incoming_files (page s))"
  shows "keyed (incoming_files (page (page_step enc dec s e)))"
proof (cases e)
  case (Channel_Msg k now ok p)
  then show ?thesis
    using assms
    by (auto simp: recv_router_def keyed_started keyed_chunk keyed_None split: packet.split option.split control.split)
next
  case (Ctrl_Msg p)
  then show ?thesis
    using assms by (auto simp: ctrl_router_def keyed_None split: packet.split option.split control.split)
qed (use assms in \<open>auto simp: keyed_None transfer_cancel_def transfer_abort_def transfer_accept_def transfer_reject_def
       Let_def\<close>)

section \<open>Other events do not touch the file\<close>

text \<open>Downloads and calls are only ever added; of the calls, none is about the file \<open>i\<close>.\<close>

definition quiet :: "u64 \<Rightarrow> 't shared \<Rightarrow> 't shared \<Rightarrow> bool" where
  "quiet i s s' \<longleftrightarrow>
     (\<exists>d u. downloads s' = downloads s @ d \<and> ui s' = ui s @ u \<and> (\<forall>x \<in> set u. \<not> recv_call i x))"

lemma quietI: "downloads s' = downloads s @ d \<Longrightarrow> ui s' = ui s @ u \<Longrightarrow> \<forall>x \<in> set u. \<not> recv_call i x \<Longrightarrow> quiet i s s'"
  by (auto simp: quiet_def)

lemma quiet_refl: "downloads s' = downloads s \<Longrightarrow> ui s' = ui s \<Longrightarrow> quiet i s s'"
  by (rule quietI [of _ _ "[]" "[]"]) simp_all

lemma quiet_ctrl: "quiet i s (ctrl_frame c s)"
proof -
  obtain new where "ui (ctrl_frame c s) = ui s @ new" "\<forall>x \<in> set new. \<not> recv_call i x"
    using ui_ctrl_frame [of c s i] by blast
  then show ?thesis by (intro quietI [of _ _ "[]"]) simp_all
qed

lemma quiet_chunk:
  assumes "keyed (incoming_files s)" and "j \<noteq> i"
  shows "quiet i s (recv_chunk now j bytes s)"
proof (rule quietI [OF _ ui_recv_chunk])
  show "\<forall>x \<in> set (case incoming_files s j of None \<Rightarrow> []
       | Some inc \<Rightarrow> (case meta inc of None \<Rightarrow> []
           | Some m \<Rightarrow> [On_Recv_Progress (fs_id m) (fs_name m) (received (chunk_entry now bytes inc))
                         (fs_size m) (speed (chunk_entry now bytes inc))])). \<not> recv_call i x"
    using assms(2) keyedD [OF assms(1), of j "the (incoming_files s j)" "the (meta (the (incoming_files s j)))"]
    by (cases "incoming_files s j"; cases "meta (the (incoming_files s j))") simp_all
qed simp

lemma quiet_finalize:
  assumes "keyed (incoming_files s)" and "j \<noteq> i"
  shows "quiet i s (finalize_recv ok j s)"
proof (rule quietI [OF finalize_recv_saves])
  show "\<forall>x \<in> set (snd (saved_by ok (incoming_files s j))). \<not> recv_call i x"
    using assms(2) keyedD [OF assms(1), of j "the (incoming_files s j)" "the (meta (the (incoming_files s j)))"]
    by (cases "incoming_files s j"; cases "meta (the (incoming_files s j))") (simp_all add: saved_by_def)
qed

lemma unrelated_step:
  fixes enc :: "control \<Rightarrow> 't"
  assumes "unrelated dec i k e" and "packet_on k e = []" and key: "keyed (incoming_files (page s))"
    and cur: "\<forall>j. j \<noteq> k \<longrightarrow> rt_cur (routers s j) \<noteq> Some i"
  defines "s' \<equiv> page_step enc dec s e"
  shows "routers s' k = routers s k" and "incoming_files (page s') i = incoming_files (page s) i"
    and "\<forall>j. j \<noteq> k \<longrightarrow> rt_cur (routers s' j) \<noteq> Some i" and "quiet i (page s) (page s')"
proof -
  have "routers s' k = routers s k \<and> incoming_files (page s') i = incoming_files (page s) i \<and>
    (\<forall>j. j \<noteq> k \<longrightarrow> rt_cur (routers s' j) \<noteq> Some i) \<and> quiet i (page s) (page s')"
  proof (cases e)
    case (Channel_Msg j now ok p)
    with assms(1,2) have j: "j \<noteq> k" by (auto split: if_splits)
    with cur have c: "rt_cur (routers s j) \<noteq> Some i" by blast
    have fin: "quiet i (page s) (case rt_cur (routers s j) of None \<Rightarrow> page s | Some l \<Rightarrow> finalize_recv ok l (page s))"
      using c by (auto simp: quiet_finalize [OF key] quiet_refl split: option.split)
    have chunk: "quiet i (page s) (case rt_cur (routers s j) of None \<Rightarrow> page s | Some l \<Rightarrow> recv_chunk now l bytes (page s))" for bytes
      using c by (auto simp: quiet_chunk [OF key] quiet_refl split: option.split)
    show ?thesis
    proof (cases p)
      case (Text t)
      then show ?thesis
        using j c cur fin assms(1) Channel_Msg
        by (auto simp: s'_def recv_router_def quiet_refl split: option.split control.split)
    next
      case (Binary bytes)
      then show ?thesis
        using j c cur chunk [of bytes] assms(1) Channel_Msg
        by (auto simp: s'_def recv_router_def split: option.split)
    qed
  next
    case (Ctrl_Msg p)
    then show ?thesis
      using cur assms(1)
      by (auto simp: s'_def ctrl_router_def quiet_ctrl quiet_refl split: packet.split option.split control.split)
  qed (use cur assms(1) in \<open>auto simp: s'_def transfer_cancel_def transfer_abort_def transfer_accept_def
         transfer_reject_def Let_def intro!: quiet_refl\<close>)
  then show "routers s' k = routers s k" and "incoming_files (page s') i = incoming_files (page s) i"
    and "\<forall>j. j \<noteq> k \<longrightarrow> rt_cur (routers s' j) \<noteq> Some i" and "quiet i (page s) (page s')"
    by auto
qed

section \<open>One file from its first to its last packet\<close>

text \<open>No completion of \<open>i\<close> is reported, or exactly one with the download of the file \<open>f\<close>.\<close>

definition calm :: "u64 \<Rightarrow> 't shared \<Rightarrow> 't shared \<Rightarrow> bool" where
  "calm i s s' \<longleftrightarrow>
     (\<exists>d u. downloads s' = downloads s @ d \<and> ui s' = ui s @ u \<and> (\<forall>x \<in> set u. \<not> completes i x))"

definition saves_once :: "u64 \<Rightarrow> saved_file \<Rightarrow> 't shared \<Rightarrow> 't shared \<Rightarrow> bool" where
  "saves_once i f s s' \<longleftrightarrow>
     (\<exists>d1 d2 u1 u2. downloads s' = downloads s @ d1 @ f # d2 \<and>
        ui s' = ui s @ u1 @ On_Recv_Complete i (sv_name f) # u2 \<and> (\<forall>x \<in> set (u1 @ u2). \<not> completes i x))"

lemma recv_call_completes: "completes i x \<Longrightarrow> recv_call i x"
  by (cases x) auto

lemma quiet_calm: "quiet i s s' \<Longrightarrow> calm i s s'"
  unfolding quiet_def calm_def using recv_call_completes by blast

lemma calm_refl: "calm i s s"
  by (auto simp: calm_def)

lemma calm_trans: "calm i s s' \<Longrightarrow> calm i s' s'' \<Longrightarrow> calm i s s''"
  unfolding calm_def by (elim exE conjE) (auto simp: ball_Un)

lemma calm_saves: "calm i s s' \<Longrightarrow> saves_once i f s' s'' \<Longrightarrow> saves_once i f s s''"
proof -
  assume "calm i s s'" "saves_once i f s' s''"
  then obtain d u d1 d2 u1 u2 where
    "downloads s'' = downloads s @ (d @ d1) @ f # d2" "ui s'' = ui s @ (u @ u1) @ On_Recv_Complete i (sv_name f) # u2"
    "\<forall>x \<in> set ((u @ u1) @ u2). \<not> completes i x"
    unfolding calm_def saves_once_def by fastforce
  then show ?thesis unfolding saves_once_def by blast
qed

lemma saves_calm: "saves_once i f s s' \<Longrightarrow> calm i s' s'' \<Longrightarrow> saves_once i f s s''"
proof -
  assume "saves_once i f s s'" "calm i s' s''"
  then obtain d u d1 d2 u1 u2 where
    "downloads s'' = downloads s @ d1 @ f # (d2 @ d)" "ui s'' = ui s @ u1 @ On_Recv_Complete i (sv_name f) # (u2 @ u)"
    "\<forall>x \<in> set (u1 @ (u2 @ u)). \<not> completes i x"
    unfolding calm_def saves_once_def by fastforce
  then show ?thesis unfolding saves_once_def by blast
qed

text \<open>The own channel of the file: what the three kinds of packets do.\<close>

lemma own_start:
  assumes "dec t = Some (Start m)" and "fs_id m = i"
    and s': "s' = page_step enc dec s (Channel_Msg k now ok (Text t))"
  shows "rt_cur (routers s' k) = Some i" and "\<And>j. j \<noteq> k \<Longrightarrow> routers s' j = routers s j"
    and "incoming_files (page s') i = Some (started_entry m (incoming_files (page s) i))"
    and "downloads (page s') = downloads (page s)" and "ui (page s') = ui (page s)"
  using assms(1,2) by (simp_all add: s' recv_router_def)

lemma own_chunk:
  assumes "rt_cur (routers s k) = Some i"
    and s': "s' = page_step enc dec s (Channel_Msg k now ok (Binary bytes))"
  shows "rt_cur (routers s' k) = Some i" and "\<And>j. j \<noteq> k \<Longrightarrow> routers s' j = routers s j"
    and "incoming_files (page s') i = map_option (chunk_entry now bytes) (incoming_files (page s) i)"
    and "calm i (page s) (page s')"
proof -
  have "calm i (page s) (recv_chunk now i bytes (page s))"
    unfolding calm_def
    by (rule exI [where x = "[]"], rule exI, rule conjI [OF _ conjI [OF ui_recv_chunk]])
       (auto split: option.split)
  then show "rt_cur (routers s' k) = Some i" and "\<And>j. j \<noteq> k \<Longrightarrow> routers s' j = routers s j"
    and "incoming_files (page s') i = map_option (chunk_entry now bytes) (incoming_files (page s) i)"
    and "calm i (page s) (page s')"
    using assms(1) by (simp_all add: s' recv_router_def)
qed

lemma own_end:
  assumes "rt_cur (routers s k) = Some i" and "dec t = Some (End x)"
    and "incoming_files (page s) i = Some inc" and "meta inc = Some m" and "fs_id m = i"
    and s': "s' = page_step enc dec s (Channel_Msg k now Downloaded (Text t))"
  shows "incoming_files (page s') i = None" and "\<And>j. j \<noteq> k \<Longrightarrow> routers s' j = routers s j"
    and "saves_once i \<lparr>sv_name = fs_name m, sv_mime = fs_mime m, sv_bytes = concat (chunks inc)\<rparr> (page s) (page s')"
  using assms(1-5)
  by (auto simp: s' recv_router_def saves_once_def finalize_recv_saves saved_by_def
      intro!: exI [where x = "[]"])

lemma rest_is_calm:
  assumes "\<forall>e \<in> set es. unrelated dec i k e" and "packets_on k es = []"
    and "keyed (incoming_files (page s))" and "\<forall>j. j \<noteq> k \<longrightarrow> rt_cur (routers s j) \<noteq> Some i"
  shows "calm i (page s) (page (run (page_step enc dec) s es)) \<and>
    incoming_files (page (run (page_step enc dec) s es)) i = incoming_files (page s) i"
  using assms
proof (induction es arbitrary: s)
  case (Cons e es)
  have none: "packet_on k e = []" "packets_on k es = []" using Cons.prems(2) by (simp_all add: packets_on_def)
  have un: "unrelated dec i k e" using Cons.prems(1) by simp
  note step = unrelated_step [OF un none(1) Cons.prems(3,4), of enc]
  have "\<forall>e \<in> set es. unrelated dec i k e" using Cons.prems(1) by simp
  from Cons.IH [OF this none(2) keyed_step [OF Cons.prems(3), of enc dec e] step(3)] step(2) quiet_calm [OF step(4)]
  show ?case by (auto intro: calm_trans)
qed (simp add: calm_refl)

text \<open>From \<open>Start\<close> on: the remaining chunks and \<open>End\<close>, among any other events.\<close>

lemma chunks_then_end:
  assumes "\<forall>e \<in> set es. unrelated dec i k e" and "packets_on k es = map Binary cs @ [Text te]"
    and "dec te = Some (End x)" and "keyed (incoming_files (page s))"
    and "\<forall>j. j \<noteq> k \<longrightarrow> rt_cur (routers s j) \<noteq> Some i" and "rt_cur (routers s k) = Some i"
    and "incoming_files (page s) i = Some inc" and "meta inc = Some m"
  shows "saves_once i \<lparr>sv_name = fs_name m, sv_mime = fs_mime m, sv_bytes = concat (chunks inc @ cs)\<rparr>
      (page s) (page (run (page_step enc dec) s es)) \<and>
    incoming_files (page (run (page_step enc dec) s es)) i = None"
  using assms(1,2,4-)
proof (induction es arbitrary: s inc cs)
  case Nil
  then show ?case by (simp add: packets_on_def)
next
  case (Cons e es)
  let ?s = "page_step enc dec s e"
  have un: "unrelated dec i k e" "\<forall>e \<in> set es. unrelated dec i k e" using Cons.prems(1) by simp_all
  have key: "keyed (incoming_files (page ?s))" using Cons.prems(3) by (rule keyed_step)
  have id: "fs_id m = i" using keyedD [OF Cons.prems(3,6,7)] .
  show ?case
  proof (cases "packet_on k e")
    case Nil
    note step = unrelated_step [OF un(1) Nil Cons.prems(3,4), of enc]
    from Cons.prems(2) Nil have "packets_on k es = map Binary cs @ [Text te]" by (simp add: packets_on_def)
    from Cons.IH [OF un(2) this key step(3)] Cons.prems(5-7) step(1,2) quiet_calm [OF step(4)]
    show ?thesis by (auto intro: calm_saves)
  next
    case (Cons p ps)
    then obtain now ok where e: "e = Channel_Msg k now ok p" "ps = []" by (cases e) (auto split: if_splits)
    with un(1) have ok: "ok = Downloaded" by simp
    from Cons.prems(2) e have pk: "p # packets_on k es = map Binary cs @ [Text te]" by (simp add: packets_on_def)
    show ?thesis
    proof (cases cs)
      case (Cons b bs)
      with pk have p: "p = Binary b" "packets_on k es = map Binary bs @ [Text te]" by simp_all
      have eq: "?s = page_step enc dec s (Channel_Msg k now ok (Binary b))" by (simp only: e p)
      note step = own_chunk [OF \<open>rt_cur (routers s k) = Some i\<close> eq]
      have "\<forall>j. j \<noteq> k \<longrightarrow> rt_cur (routers ?s j) \<noteq> Some i" using step(2) Cons.prems(4) by simp
      from Cons.IH [OF un(2) p(2) key this step(1)] step(3) Cons.prems(6,7) step(4)
      show ?thesis by (simp add: \<open>cs = b # bs\<close>) (blast intro: calm_saves)
    next
      case Nil
      with pk have p: "p = Text te" "packets_on k es = []" by simp_all
      have eq: "?s = page_step enc dec s (Channel_Msg k now Downloaded (Text te))" by (simp only: e p ok)
      note step = own_end [OF Cons.prems(5) assms(3) Cons.prems(6,7) id eq]
      have "\<forall>j. j \<noteq> k \<longrightarrow> rt_cur (routers ?s j) \<noteq> Some i" using step(2) Cons.prems(4) by simp
      from rest_is_calm [OF un(2) p(2) key this, of enc] step(1,3)
      show ?thesis by (auto simp: Nil intro: saves_calm)
    qed
  qed
qed

lemma stream_received:
  assumes "\<forall>e \<in> set es. unrelated dec i k e"
    and "packets_on k es = Text ts # map Binary cs @ [Text te]"
    and "dec ts = Some (Start m)" and "fs_id m = i" and "dec te = Some (End x)"
    and "keyed (incoming_files (page s))" and "\<forall>j. j \<noteq> k \<longrightarrow> rt_cur (routers s j) \<noteq> Some i"
    and "incoming_files (page s) i = None"
  shows "saves_once i \<lparr>sv_name = fs_name m, sv_mime = fs_mime m, sv_bytes = concat cs\<rparr>
      (page s) (page (run (page_step enc dec) s es)) \<and>
    incoming_files (page (run (page_step enc dec) s es)) i = None"
  using assms(1,2,6-)
proof (induction es arbitrary: s)
  case Nil
  then show ?case by (simp add: packets_on_def)
next
  case (Cons e es)
  let ?s = "page_step enc dec s e"
  have un: "unrelated dec i k e" "\<forall>e \<in> set es. unrelated dec i k e" using Cons.prems(1) by simp_all
  have key: "keyed (incoming_files (page ?s))" using Cons.prems(3) by (rule keyed_step)
  show ?case
  proof (cases "packet_on k e")
    case Nil
    note step = unrelated_step [OF un(1) Nil Cons.prems(3,4), of enc]
    from Cons.prems(2) Nil have "packets_on k es = Text ts # map Binary cs @ [Text te]" by (simp add: packets_on_def)
    from Cons.IH [OF un(2) this key step(3)] Cons.prems(5) step(2) quiet_calm [OF step(4)]
    show ?thesis by (auto intro: calm_saves)
  next
    case (Cons p ps)
    then obtain now ok where e: "e = Channel_Msg k now ok p" "ps = []" by (cases e) (auto split: if_splits)
    from Cons.prems(2) e have p: "p = Text ts" "packets_on k es = map Binary cs @ [Text te]"
      by (simp_all add: packets_on_def)
    have eq: "?s = page_step enc dec s (Channel_Msg k now ok (Text ts))" by (simp only: e p)
    note step = own_start [OF assms(3,4) eq]
    have others: "\<forall>j. j \<noteq> k \<longrightarrow> rt_cur (routers ?s j) \<noteq> Some i" using step(2) Cons.prems(4) by simp
    have inc: "incoming_files (page ?s) i = Some (incoming_default\<lparr>meta := Some m\<rparr>)"
      using step(3) Cons.prems(5) by (simp add: started_entry_def incoming_default_def)
    from chunks_then_end [OF un(2) p(2) assms(5) key others step(1) inc, of m enc] step(4,5)
    show ?thesis by (simp add: incoming_default_def saves_once_def)
  qed
qed

lemma quiet_trans: "quiet i s s' \<Longrightarrow> quiet i s' s'' \<Longrightarrow> quiet i s s''"
  unfolding quiet_def by (elim exE conjE) (auto simp: ball_Un)

lemma own_gone:
  assumes "keyed (incoming_files (page s))" and "incoming_files (page s) i = None"
    and "case p of Text t \<Rightarrow> (case dec t of Some (Start m) \<Rightarrow> fs_id m \<noteq> i | _ \<Rightarrow> True) | Binary b \<Rightarrow> True"
  shows "incoming_files (page (page_step enc dec s (Channel_Msg k now ok p))) i = None \<and>
    quiet i (page s) (page (page_step enc dec s (Channel_Msg k now ok p))) \<and>
    (\<forall>j. j \<noteq> k \<longrightarrow> routers (page_step enc dec s (Channel_Msg k now ok p)) j = routers s j)"
proof -
  have "finalize_recv ok i (page s) = page s" "recv_chunk now i bytes (page s) = page s" for bytes
    using assms(2) by (simp_all add: finalize_recv_def recv_chunk_def)
  then have fin: "quiet i (page s) (finalize_recv ok j (page s))"
    and chunk: "quiet i (page s) (recv_chunk now j bytes (page s))" for j bytes
    using quiet_finalize [OF assms(1)] quiet_chunk [OF assms(1)] by (cases "j = i"; simp add: quiet_refl)+
  show ?thesis
  proof (cases p)
    case (Text t)
    then show ?thesis
      using assms(2,3) fin by (auto simp: recv_router_def quiet_refl split: option.split control.split)
  next
    case (Binary bytes)
    then show ?thesis
      using assms(2) chunk by (auto simp: recv_router_def quiet_refl split: option.split)
  qed
qed

text \<open>After a cancellation, without a new \<open>Start\<close>: nothing more about the file.\<close>

lemma cancelled_is_quiet:
  assumes "\<forall>e \<in> set es. unrelated dec i k e"
    and "\<forall>p \<in> set (packets_on k es). case p of Text t \<Rightarrow> (case dec t of Some (Start m) \<Rightarrow> fs_id m \<noteq> i | _ \<Rightarrow> True) | Binary b \<Rightarrow> True"
    and "keyed (incoming_files (page s))" and "\<forall>j. j \<noteq> k \<longrightarrow> rt_cur (routers s j) \<noteq> Some i"
    and "incoming_files (page s) i = None"
  shows "quiet i (page s) (page (run (page_step enc dec) s es)) \<and>
    incoming_files (page (run (page_step enc dec) s es)) i = None"
  using assms
proof (induction es arbitrary: s)
  case Nil
  then show ?case by (simp add: quiet_refl)
next
  case (Cons e es)
  let ?s = "page_step enc dec s e"
  have un: "unrelated dec i k e" "\<forall>e \<in> set es. unrelated dec i k e" using Cons.prems(1) by simp_all
  have key: "keyed (incoming_files (page ?s))" using Cons.prems(3) by (rule keyed_step)
  have "(\<forall>j. j \<noteq> k \<longrightarrow> rt_cur (routers ?s j) \<noteq> Some i) \<and> incoming_files (page ?s) i = None \<and> quiet i (page s) (page ?s)"
  proof (cases "packet_on k e")
    case Nil
    from unrelated_step [OF un(1) Nil Cons.prems(3,4), of enc] Cons.prems(5) show ?thesis by simp
  next
    case (Cons p ps)
    then obtain now ok where e: "e = Channel_Msg k now ok p" by (cases e) (auto split: if_splits)
    with Cons.prems(2) have "case p of Text t \<Rightarrow> (case dec t of Some (Start m) \<Rightarrow> fs_id m \<noteq> i | _ \<Rightarrow> True) | Binary b \<Rightarrow> True"
      by (simp add: packets_on_def)
    with own_gone [OF Cons.prems(3,5) this] Cons.prems(4) show ?thesis by (simp add: e)
  qed
  moreover have "\<forall>p \<in> set (packets_on k es). case p of Text t \<Rightarrow> (case dec t of Some (Start m) \<Rightarrow> fs_id m \<noteq> i | _ \<Rightarrow> True) | Binary b \<Rightarrow> True"
    using Cons.prems(2) by (simp add: packets_on_def)
  ultimately show ?case using Cons.IH [OF un(2) _ key] by (auto intro: quiet_trans)
qed

definition saved_copy :: "js_file \<Rightarrow> saved_file" where
  "saved_copy file = \<lparr>sv_name = jf_name file, sv_mime = jf_mime file, sv_bytes = jf_bytes file\<rparr>"

lemma receiver_new_simps:
  "keyed (incoming_files (page receiver_new))" "rt_cur (routers receiver_new j) \<noteq> Some i"
  "incoming_files (page receiver_new) i = None" "downloads (page receiver_new) = []" "ui (page receiver_new) = []"
  by (simp_all add: receiver_new_def transfer_new_def router_new_def keyed_def)

lemma saves_once_new:
  "saves_once i f (page receiver_new) s' \<Longrightarrow>
     f \<in> set (downloads s') \<and> filter (completes i) (ui s') = [On_Recv_Complete i (sv_name f)]"
  by (auto simp: saves_once_def receiver_new_simps filter_empty_conv)

lemma ended_stream:
  assumes "file_ok file" and "polls enc ps (new_task i file) = Some t" and "end_frame enc i \<in> set (tk_wire t)"
    and "dec (enc (Start (file_meta i file))) = Some (Start (file_meta i file))"
    and "dec (enc (End \<lparr>fe_id = i\<rparr>)) = Some (End \<lparr>fe_id = i\<rparr>)"
  obtains cs where "concat cs = jf_bytes file"
    and "tk_wire t = Text (enc (Start (file_meta i file))) # map Binary cs @ [Text (enc (End \<lparr>fe_id = i\<rparr>))]"
proof -
  have t: "task_inv enc t" "tk_id t = i" "tk_file t = file"
    using polls_ok [OF task_inv_new [of enc i "file"], of ps] assms(1,2) by auto
  have "end_frame enc i \<notin> set (stream enc i file cs)" for cs
    using assms(4,5) by (auto simp: end_frame_def stream_def)
  then have "fully_sent enc t"
    using t assms(3) by (auto simp: task_inv_def on_wire_def Let_def split: phase.splits)
  then show thesis using that by (auto simp: fully_sent_def t stream_def end_frame_def)
qed

section \<open>End to end\<close>

text \<open>A complete sending of the demo file, and its delivery on channel 0.\<close>

lemma demo_sending:
  "\<exists>t. polls id (replicate 9 (demo_env, False)) (new_task 7 demo_file) = Some t \<and> end_frame id 7 \<in> set (tk_wire t)"
proof -
  have "healthy demo_env False" by (simp add: healthy_def demo_env_def)
  then obtain t where "polls id (replicate 9 (demo_env, False)) (new_task 7 demo_file) = Some t" "fully_sent id t"
    "tk_id t = 7"
    using polls_ok [OF task_inv_new [of id 7 demo_file], of "replicate 9 (demo_env, False)"]
    by (auto simp: file_ok_def demo_file_def)
  then show ?thesis by (auto simp: fully_sent_def)
qed

definition deliver_all :: "'t packet list \<Rightarrow> 't page_event list" where
  "deliver_all ps = map (Channel_Msg 0 (f_int 0) Downloaded) ps"

lemma deliver_all_simps: "packets_on 0 (deliver_all ps) = ps" "\<forall>e \<in> set (deliver_all ps). unrelated dec i 0 e"
  by (induction ps) (simp_all add: deliver_all_def packets_on_def)

text \<open>(C1) A file arrives as it was sent. Let a task send the file \<open>i\<close>, with any buffering, failures and
  message sizes, up to its \<open>End\<close>, and let a page receive the packets of its channel in order, among
  any other traffic: other files on other channels, control frames, actions of the user about
  other files. Then the page has saved a file with the same name, type and bytes, has reported
  its completion exactly once, and has forgotten the transfer.\<close>

theorem file_arrives_intact:
  fixes enc :: "control \<Rightarrow> 't"
  assumes "length (jf_bytes file) \<le> 2 ^ 53"
    and "polls enc ps (new_task i file) = Some t" and "end_frame enc i \<in> set (tk_wire t)"
    and "dec (enc (Start (file_meta i file))) = Some (Start (file_meta i file))"
    and "dec (enc (End \<lparr>fe_id = i\<rparr>)) = Some (End \<lparr>fe_id = i\<rparr>)"
    and "\<forall>e \<in> set es. unrelated dec i k e" and "packets_on k es = tk_wire t"
  defines "s \<equiv> page (run (page_step enc dec) receiver_new es)"
  shows "saved_copy file \<in> set (downloads s) \<and>
    filter (completes i) (ui s) = [On_Recv_Complete i (jf_name file)] \<and> incoming_files s i = None"
proof -
  obtain cs where cs: "concat cs = jf_bytes file"
    "tk_wire t = Text (enc (Start (file_meta i file))) # map Binary cs @ [Text (enc (End \<lparr>fe_id = i\<rparr>))]"
    using ended_stream [of "file" enc ps i t dec] assms(1-5) by (auto simp: file_ok_def)
  have "saves_once i (saved_copy file) (page receiver_new) s \<and> incoming_files s i = None"
    unfolding s_def
    using stream_received [OF assms(6) assms(7) [unfolded cs(2)] assms(4) _ assms(5), of receiver_new enc]
    by (simp add: receiver_new_simps file_meta_def saved_copy_def cs(1))
  then show ?thesis using saves_once_new [of i "saved_copy file" s] by (simp add: saved_copy_def)
qed

theorem file_arrives_intact_witness:
  "\<exists>es :: control page_event list. saved_copy demo_file \<in> set (downloads (page (run (page_step id Some) receiver_new es)))"
proof -
  obtain t where "polls id (replicate 9 (demo_env, False)) (new_task 7 demo_file) = Some t"
    "end_frame id 7 \<in> set (tk_wire t)" using demo_sending by blast
  from file_arrives_intact [OF _ this _ _ deliver_all_simps(2) deliver_all_simps(1), of Some]
  have "saved_copy demo_file \<in> set (downloads (page (run (page_step id Some) receiver_new (deliver_all (tk_wire t)))))"
    by (simp add: demo_file_def)
  then show ?thesis by blast
qed

text \<open>Cancelling works once the transfer has started: after \<open>cancel\<close> nothing about the file is
  reported or saved any more, whatever chunks and even \<open>End\<close> are still on their way.\<close>

theorem cancel_after_start_is_final:
  fixes enc :: "control \<Rightarrow> 't"
  assumes "keyed (incoming_files (page s))" and "\<forall>j. j \<noteq> k \<longrightarrow> rt_cur (routers s j) \<noteq> Some i"
    and "\<forall>e \<in> set es. unrelated dec i k e"
    and "\<forall>p \<in> set (packets_on k es). case p of Text t \<Rightarrow> (case dec t of Some (Start m) \<Rightarrow> fs_id m \<noteq> i | _ \<Rightarrow> True) | Binary b \<Rightarrow> True"
  shows "\<exists>d u. downloads (page (run (page_step enc dec) s (User_Cancel i # es))) = downloads (page s) @ d \<and>
      ui (page (run (page_step enc dec) s (User_Cancel i # es))) = ui (page s) @ u \<and>
      (\<forall>x \<in> set u. \<not> recv_call i x) \<and>
      incoming_files (page (run (page_step enc dec) s (User_Cancel i # es))) i = None"
proof -
  let ?s = "page_step enc dec s (User_Cancel i)"
  have "incoming_files (page ?s) i = None" "downloads (page ?s) = downloads (page s)" "ui (page ?s) = ui (page s)"
    "\<forall>j. j \<noteq> k \<longrightarrow> rt_cur (routers ?s j) \<noteq> Some i"
    using assms(2) by (simp_all add: transfer_cancel_def Let_def)
  with cancelled_is_quiet [OF assms(3,4) keyed_step [OF assms(1), where e = "User_Cancel i" and enc = enc and dec = dec],
      where enc = enc]
  show ?thesis by (auto simp: quiet_def)
qed

text \<open>A page whose channel 0 has started file 7, and the rest of a stream.\<close>

definition demo_page :: "control receiver" where
  "demo_page = receiver_new\<lparr>routers := (\<lambda>_. router_new)(0 := router_new\<lparr>rt_cur := Some 7\<rparr>)\<rparr>"

definition demo_rest :: "control page_event list" where
  "demo_rest = deliver_all [Binary [1], Text (End \<lparr>fe_id = 7\<rparr>)]"

lemma demo_page_simps:
  "keyed (incoming_files (page demo_page))" "j \<noteq> 0 \<Longrightarrow> rt_cur (routers demo_page j) \<noteq> Some 7"
  "packets_on 0 demo_rest = [Binary [1], Text (End \<lparr>fe_id = 7\<rparr>)]"
  "\<forall>e \<in> set demo_rest. unrelated Some 7 0 e"
  unfolding demo_rest_def deliver_all_simps
  by (simp_all add: demo_page_def receiver_new_def transfer_new_def router_new_def keyed_def deliver_all_simps)

theorem cancel_after_start_is_final_witness:
  "\<exists>d u. downloads (page (run (page_step id Some) demo_page (User_Cancel 7 # demo_rest))) = downloads (page demo_page) @ d \<and>
      ui (page (run (page_step id Some) demo_page (User_Cancel 7 # demo_rest))) = ui (page demo_page) @ u \<and>
      On_Recv_Complete 7 (lit ''a.txt'') \<notin> set u \<and>
      incoming_files (page (run (page_step id Some) demo_page (User_Cancel 7 # demo_rest))) 7 = None"
proof -
  obtain d u where
    "downloads (page (run (page_step id Some) demo_page (User_Cancel 7 # demo_rest))) = downloads (page demo_page) @ d"
    "ui (page (run (page_step id Some) demo_page (User_Cancel 7 # demo_rest))) = ui (page demo_page) @ u"
    "\<forall>x \<in> set u. \<not> recv_call 7 x"
    "incoming_files (page (run (page_step id Some) demo_page (User_Cancel 7 # demo_rest))) 7 = None"
    using cancel_after_start_is_final [of demo_page 0 7 demo_rest Some id] by (auto simp: demo_page_simps)
  moreover from this(3) have "On_Recv_Complete 7 (lit ''a.txt'') \<notin> set u" by force
  ultimately show ?thesis by blast
qed

text \<open>(C37) A cancellation that comes before \<open>Start\<close> is lost. The row of an accepted file offers its
  \<open>Cancel\<close> button at once; if the stream is already on its way, \<open>cancel\<close> removes nothing, the \<open>Start\<close>
  that arrives later makes a new entry, the file is saved all the same, and the completion turns
  the cancelled row to \<open>Done\<close>.\<close>

theorem cancel_before_start_is_lost:
  fixes enc :: "control \<Rightarrow> 't"
  assumes "length (jf_bytes file) \<le> 2 ^ 53"
    and "polls enc ps (new_task i file) = Some t" and "end_frame enc i \<in> set (tk_wire t)"
    and "dec (enc (Start (file_meta i file))) = Some (Start (file_meta i file))"
    and "dec (enc (End \<lparr>fe_id = i\<rparr>)) = Some (End \<lparr>fe_id = i\<rparr>)"
    and "\<forall>e \<in> set es. unrelated dec i k e" and "packets_on k es = tk_wire t"
    and "row_at rows (i, True) = Some r"
  defines "s \<equiv> page (run (page_step enc dec) receiver_new (User_Accept i # User_Cancel i # es))"
  shows "saved_copy file \<in> set (downloads s) \<and>
    filter (completes i) (ui s) = [On_Recv_Complete i (jf_name file)] \<and>
    map_option t_state (row_at (cancel (accept rows i) i) (i, True)) = Some Cancelled \<and>
    map_option t_state (row_at (recv_complete (cancel (accept rows i) i) i (jf_name file)) (i, True)) = Some Done"
proof -
  obtain cs where cs: "concat cs = jf_bytes file"
    "tk_wire t = Text (enc (Start (file_meta i file))) # map Binary cs @ [Text (enc (End \<lparr>fe_id = i\<rparr>))]"
    using ended_stream [of "file" enc ps i t dec] assms(1-5) by (auto simp: file_ok_def)
  define s0 where "s0 = run (page_step enc dec) receiver_new [User_Accept i, User_Cancel i]"
  have s0: "downloads (page s0) = []" "ui (page s0) = []" "incoming_files (page s0) i = None"
    "keyed (incoming_files (page s0))" "\<forall>j. j \<noteq> k \<longrightarrow> rt_cur (routers s0 j) \<noteq> Some i"
    by (simp_all add: s0_def transfer_accept_def transfer_cancel_def receiver_new_simps keyed_None Let_def)
  have "s = page (run (page_step enc dec) s0 es)" by (simp add: s_def s0_def)
  then have "saves_once i (saved_copy file) (page s0) s"
    using stream_received [OF assms(6) assms(7) [unfolded cs(2)] assms(4) _ assms(5) s0(4,5,3), of enc]
    by (simp add: file_meta_def saved_copy_def cs(1))
  then have "saved_copy file \<in> set (downloads s) \<and> filter (completes i) (ui s) = [On_Recv_Complete i (jf_name file)]"
    by (auto simp: saves_once_def s0 saved_copy_def filter_empty_conv)
  moreover have "map_option t_state (row_at (cancel (accept rows i) i) (i, True)) = Some Cancelled"
    using assms(8) by (simp add: cancel_def accept_def key_tests row_at_update_first)
  moreover have "map_option t_state (row_at (recv_complete (cancel (accept rows i) i) i (jf_name file)) (i, True)) = Some Done"
    by (simp add: recv_complete_def row_at_upsert split: option.split)
  ultimately show ?thesis by blast
qed

theorem cancel_before_start_is_lost_witness:
  "\<exists>es :: control page_event list. saved_copy demo_file \<in>
     set (downloads (page (run (page_step id Some) receiver_new (User_Accept 7 # User_Cancel 7 # es))))"
proof -
  obtain t where "polls id (replicate 9 (demo_env, False)) (new_task 7 demo_file) = Some t"
    "end_frame id 7 \<in> set (tk_wire t)" using demo_sending by blast
  from cancel_before_start_is_lost [OF _ this _ _ deliver_all_simps(2) deliver_all_simps(1), of Some
      "incoming_offer [] (file_meta 7 demo_file)"]
  have "saved_copy demo_file \<in> set (downloads (page (run (page_step id Some) receiver_new
      (User_Accept 7 # User_Cancel 7 # deliver_all (tk_wire t)))))"
    by (simp add: demo_file_def incoming_offer_def row_at_upsert file_meta_def)
  then show ?thesis by blast
qed

end
