(* ===== verification/Transfer_Engine.thy ===== *)
theory Transfer_Engine
  imports Receiving
begin

text \<open>
  The whole engine of one page: the events of \<open>Receiving\<close> and the polls of the sending tasks. It
  simulates the scheduler machine of \<open>Send_Scheduler\<close>, so that what is proved there holds of the
  tasks that run.
\<close>

section \<open>The machine\<close>

datatype 't engine_event = Page "'t page_event" | Poll nat poll_env

fun engine_step ::
  "(control \<Rightarrow> 't) \<Rightarrow> ('t \<Rightarrow> control option) \<Rightarrow> 't receiver \<Rightarrow> 't engine_event \<Rightarrow> 't receiver" where
  "engine_step enc dec s (Page e) = page_step enc dec s e"
| "engine_step enc dec s (Poll k env) =
     (case poll_sending enc env k (page s) of None \<Rightarrow> s | Some pg \<Rightarrow> s\<lparr>page := pg\<rparr>)"

text \<open>The executor polls a task that was spawned and has not returned.\<close>

fun engine_ok :: "'t receiver \<Rightarrow> 't engine_event \<Rightarrow> bool" where
  "engine_ok s (Page e) \<longleftrightarrow> True"
| "engine_ok s (Poll k env) \<longleftrightarrow> k < length (sending (page s)) \<and> tk_phase (sending (page s) ! k) \<noteq> Returned"

text \<open>What an event means for the scheduler.\<close>

definition ctrl_ops :: "control option \<Rightarrow> js_file sender_op list" where
  "ctrl_ops c =
     (case c of Some (Accept i) \<Rightarrow> [Accepted i] | Some (Reject i) \<Rightarrow> [Rejected i]
      | Some (Cancel i) \<Rightarrow> [Stopped i] | _ \<Rightarrow> [])"

fun engine_ops ::
  "(control \<Rightarrow> 't) \<Rightarrow> ('t \<Rightarrow> control option) \<Rightarrow> 't receiver \<Rightarrow> 't engine_event \<Rightarrow> js_file sender_op list" where
  "engine_ops enc dec s (Page (User_Offers files)) = map (\<lambda>(i, file). Offer_File i file) files"
| "engine_ops enc dec s (Page (User_Abort i)) = [Stopped i]"
| "engine_ops enc dec s (Page (Ctrl_Msg (Text t))) = ctrl_ops (dec t)"
| "engine_ops enc dec s (Poll k env) =
     (let t = sending (page s) ! k in
      case poll_send_file enc env (tk_id t \<in> cancelled (outgoing_files (page s))) t of
        None \<Rightarrow> []
      | Some (t', progress) \<Rightarrow> (if tk_phase t' = Returned then [Finished (tk_id t)] else []))"
| "engine_ops enc dec s _ = []"

section \<open>Simulation\<close>

definition simulates :: "'t shared \<Rightarrow> js_file sender \<Rightarrow> bool" where
  "simulates s g \<longleftrightarrow>
     outgoing_files s = out g \<and> map (\<lambda>t. (tk_id t, tk_file t)) (sending s) = started g"

lemma simulates_frame:
  "simulates s g \<Longrightarrow> outgoing_files s' = outgoing_files s \<Longrightarrow> sending s' = sending s \<Longrightarrow> simulates s' g"
  by (simp add: simulates_def)

lemma spawn_simps [simp]:
  "outgoing_files (spawn files s) = outgoing_files s"
  "map (\<lambda>t. (tk_id t, tk_file t)) (sending (spawn files s)) =
     map (\<lambda>t. (tk_id t, tk_file t)) (sending s) @ files"
  by (simp_all add: spawn_def case_prod_unfold comp_def)

lemma simulates_pump: "simulates s g \<Longrightarrow> simulates (pump s) (start_next MAX_CONCURRENT g)"
  by (simp add: simulates_def pump_def start_next_def Let_def case_prod_unfold)

lemma simulates_offers:
  "simulates s g \<Longrightarrow>
     simulates (offer_files enc files s)
       (run (sender_step cap) g (map (\<lambda>(i, file). Offer_File i file) files))"
proof (induction enc files s arbitrary: g rule: offer_files.induct)
  case (2 enc i f files s)
  let ?s = "(ctrl_send (enc (Offer (file_meta i f))) s)
      \<lparr>outgoing_files := outgoing_files s\<lparr>offered := (offered (outgoing_files s))(i \<mapsto> f)\<rparr>\<rparr>"
  have "simulates ?s (sender_step cap g (Offer_File i f))"
    using 2(2) by (simp add: simulates_def)
  then show ?case using 2(1) [OF refl, of "sender_step cap g (Offer_File i f)"] by (simp add: Let_def)
qed simp

lemma simulates_ctrl:
  "simulates s g \<Longrightarrow> simulates (ctrl_frame c s) (run (sender_step MAX_CONCURRENT) g (ctrl_ops (Some c)))"
proof (cases c)
  case (Accept i)
  assume sim: "simulates s g"
  then have "simulates (s\<lparr>outgoing_files := enqueue_accepted (outgoing_files s) i\<rparr>)
      (g\<lparr>out := enqueue_accepted (out g) i,
         accepted := accepted g @ (case offered (out g) i of None \<Rightarrow> [] | Some f \<Rightarrow> [(i, f)])\<rparr>)"
    by (simp add: simulates_def)
  from simulates_pump [OF this] show ?thesis by (simp add: Accept ctrl_ops_def)
qed (auto simp: ctrl_ops_def simulates_def)

lemma outgoing_recv [simp]:
  "outgoing_files (start_incoming m s) = outgoing_files s" "sending (start_incoming m s) = sending s"
  "outgoing_files (recv_chunk now i b s) = outgoing_files s" "sending (recv_chunk now i b s) = sending s"
  "outgoing_files (finalize_recv ok i s) = outgoing_files s" "sending (finalize_recv ok i s) = sending s"
  by (auto simp: start_incoming_def recv_chunk_def finalize_recv_def trigger_download_def Let_def case_prod_unfold
      split: option.split)

lemma simulates_page:
  "simulates (page s) g \<Longrightarrow>
     simulates (page (page_step enc dec s e)) (run (sender_step MAX_CONCURRENT) g (engine_ops enc dec s (Page e)))"
proof (cases e)
  case (Channel_Msg k now ok p)
  assume "simulates (page s) g"
  moreover have "outgoing_files (page (page_step enc dec s e)) = outgoing_files (page s)"
    "sending (page (page_step enc dec s e)) = sending (page s)"
    by (auto simp: Channel_Msg recv_router_def split: packet.split option.split control.split)
  ultimately have "simulates (page (page_step enc dec s e)) g" by (rule simulates_frame)
  then show ?thesis by (simp add: Channel_Msg)
next
  case (Ctrl_Msg p)
  assume sim: "simulates (page s) g"
  show ?thesis
  proof (cases p)
    case (Text t)
    then show ?thesis
      using sim simulates_ctrl [OF sim] by (cases "dec t") (simp_all add: Ctrl_Msg ctrl_router_def ctrl_ops_def)
  next
    case (Binary b)
    then show ?thesis using sim by (simp add: Ctrl_Msg ctrl_router_def)
  qed
qed (simp_all add: transfer_accept_def transfer_reject_def transfer_cancel_def transfer_abort_def
       simulates_offers Let_def, simp_all add: simulates_def)

section \<open>Polling\<close>

lemma next_slab_frame:
  "tk_id (next_slab enc env c ranges idx snt t) = tk_id t" "tk_file (next_slab enc env c ranges idx snt t) = tk_file t"
  by (simp_all add: next_slab_def)

lemma send_slab_frame:
  "send_slab enc env c ranges idx slab off snt t = Some (t', progress) \<Longrightarrow> tk_id t' = tk_id t \<and> tk_file t' = tk_file t"
  by (auto simp: send_slab_def next_slab_frame Let_def split: option.splits prod.splits loop_exit.splits)

lemma poll_frame:
  "poll_send_file enc env c t = Some (t', progress) \<Longrightarrow> tk_id t' = tk_id t \<and> tk_file t' = tk_file t"
  by (auto simp: poll_send_file_def next_slab_frame Let_def dest: send_slab_frame
      split: option.splits phase.splits if_splits)

definition running_ids :: "'t task list \<Rightarrow> u64 list" where
  "running_ids ts = map tk_id (filter (\<lambda>t. tk_phase t \<noteq> Returned) ts)"

lemma running_ids_append [simp]: "running_ids (xs @ ys) = running_ids xs @ running_ids ys"
  by (simp add: running_ids_def)

lemma running_ids_Cons [simp]:
  "running_ids (t # ts) = (if tk_phase t = Returned then running_ids ts else tk_id t # running_ids ts)"
  by (simp add: running_ids_def)

lemma running_ids_sub: "set (running_ids ts) \<subseteq> tk_id ` set ts"
  by (auto simp: running_ids_def)

lemma distinct_running_ids: "distinct (map tk_id ts) \<Longrightarrow> distinct (running_ids ts)"
  unfolding running_ids_def by (rule distinct_map_filter)

text \<open>The tasks that run are those of the active files.\<close>

lemma running_pump:
  assumes "active (outgoing_files s) = set (running_ids (sending s))"
  shows "active (outgoing_files (pump s)) = set (running_ids (sending (pump s)))"
  using assms
  by (auto simp: pump_def spawn_def Let_def case_prod_unfold schedule_active running_ids_def filter_map comp_def image_image)

lemma running_update:
  assumes "k < length ts" and "distinct (map tk_id ts)" and "tk_phase (ts ! k) \<noteq> Returned"
    and "tk_id t' = tk_id (ts ! k)"
  shows "set (running_ids (ts[k := t'])) =
    (if tk_phase t' = Returned then set (running_ids ts) - {tk_id (ts ! k)} else set (running_ids ts))"
proof -
  let ?a = "take k ts" and ?b = "drop (Suc k) ts"
  have ts: "ts = ?a @ ts ! k # ?b" using assms(1) by (rule id_take_nth_drop)
  have "ts[k := t'] = ?a @ t' # ?b" using assms(1) by (rule upd_conv_take_nth_drop)
  moreover have "tk_id (ts ! k) \<notin> set (running_ids ?a)" "tk_id (ts ! k) \<notin> set (running_ids ?b)"
  proof -
    have "distinct (map tk_id (?a @ ts ! k # ?b))" using assms(2) by (simp only: ts [symmetric])
    then have "tk_id (ts ! k) \<notin> tk_id ` set ?a" "tk_id (ts ! k) \<notin> tk_id ` set ?b"
      unfolding map_append list.map distinct_append distinct.simps set_map list.set by blast+
    then show "tk_id (ts ! k) \<notin> set (running_ids ?a)" "tk_id (ts ! k) \<notin> set (running_ids ?b)"
      using running_ids_sub [of ?a] running_ids_sub [of ?b] by blast+
  qed
  moreover have "set (running_ids ts) = set (running_ids (?a @ ts ! k # ?b))" by (simp only: ts [symmetric])
  ultimately show ?thesis
    using assms(3,4) unfolding running_ids_append running_ids_Cons set_append by auto
qed


section \<open>Every file satisfies what was required of it\<close>

definition sender_files :: "('f \<Rightarrow> bool) \<Rightarrow> 'f sender \<Rightarrow> bool" where
  "sender_files P g \<longleftrightarrow>
     (\<forall>f \<in> snd ` set (started g @ queue (out g)). P f) \<and> (\<forall>f \<in> ran (offered (out g)). P f)"

fun offers_good :: "('f \<Rightarrow> bool) \<Rightarrow> 'f sender_op \<Rightarrow> bool" where
  "offers_good P (Offer_File i f) \<longleftrightarrow> P f"
| "offers_good P _ \<longleftrightarrow> True"

lemma start_next_files: "sender_files P g \<Longrightarrow> sender_files P (start_next cap g)"
  unfolding sender_files_def start_next_simps(1,2) by simp

lemma ran_upd_sub: "ran (m(i := None)) \<subseteq> ran m" "ran (m(i \<mapsto> x)) \<subseteq> insert x (ran m)"
  by (auto simp: ran_def split: if_splits)

lemma sender_step_files:
  assumes "sender_files P g" and "offers_good P e"
  shows "sender_files P (sender_step cap g e)"
proof (cases e)
  case (Offer_File i f)
  with assms show ?thesis using ran_upd_sub(2) [of "offered (out g)" i f] by (auto simp: sender_files_def)
next
  case (Accepted i)
  show ?thesis
    unfolding Accepted sender_step.simps
    using assms(1) ran_upd_sub(1) [of "offered (out g)" i]
    by (intro start_next_files) (auto simp: sender_files_def intro: ranI [OF sym] split: option.splits)
next
  case (Rejected i)
  with assms show ?thesis using ran_upd_sub(1) [of "offered (out g)" i] by (auto simp: sender_files_def)
next
  case (Stopped i)
  with assms show ?thesis using ran_upd_sub(1) [of "offered (out g)" i] by (auto simp: sender_files_def)
next
  case (Finished i)
  have "queue (release_slot i (out g)) = queue (out g)" "offered (release_slot i (out g)) = offered (out g)"
    by (simp_all add: release_slot_def Let_def)
  then show ?thesis
    unfolding Finished sender_step.simps using assms(1)
    by (intro start_next_files) (simp add: sender_files_def)
qed

lemma run_ok_all: "(\<forall>e \<in> set es. ok e) \<Longrightarrow> run_ok (\<lambda>_. ok) step s es"
  by (induction es arbitrary: s) auto

interpretation good: invariant_machine "sender_step cap" "\<lambda>_. offers_good P" "sender_files P"
  by unfold_locales (rule sender_step_files)


section \<open>The invariant of the engine\<close>

text \<open>
  \<open>used\<close> are the ids that were offered so far. The tasks that run are those of the active files,
  and every task is in one of the states of \<open>Sending_Stream\<close>.
\<close>

definition engine_inv :: "(control \<Rightarrow> 't) \<Rightarrow> u64 set \<Rightarrow> 't shared \<Rightarrow> js_file sender \<Rightarrow> bool" where
  "engine_inv enc used s g \<longleftrightarrow>
     simulates s g \<and> sender_inv MAX_CONCURRENT g \<and> sender_files file_ok g \<and>
     dom (offered (out g)) \<union> fst ` set (accepted g) \<subseteq> used \<and>
     active (outgoing_files s) = set (running_ids (sending s)) \<and>
     (\<forall>t \<in> set (sending s). task_inv enc t)"

lemma simulates_tasks:
  assumes "simulates s g"
  shows "map tk_id (sending s) = map fst (started g)" and "map tk_file (sending s) = map snd (started g)"
  using assms by (auto simp: simulates_def comp_def dest: arg_cong [where f = "map fst"] arg_cong [where f = "map snd"])

lemma started_distinct:
  assumes "sender_inv cap g"
  shows "distinct (map fst (started g))"
proof -
  have "subseq (started g) (started g @ queue (out g))" by (intro prefix_imp_subseq) simp
  then have "subseq (started g) (accepted g)"
    using assms subseq_order.order_trans unfolding sender_inv_def by blast
  from subseq_map [OF this, of fst] show ?thesis
    using assms by (auto simp: sender_inv_def subseq_conv_nths intro: distinct_nthsI)
qed

lemma engine_tasks:
  assumes "engine_inv enc used s g"
  shows "distinct (map tk_id (sending s))" and "t \<in> set (sending s) \<Longrightarrow> file_ok (tk_file t)"
proof -
  have sim: "simulates s g" and inv: "sender_inv MAX_CONCURRENT g" and files: "sender_files file_ok g"
    using assms by (auto simp: engine_inv_def)
  show "distinct (map tk_id (sending s))"
    unfolding simulates_tasks(1) [OF sim] using inv by (rule started_distinct)
  have "set (map tk_file (sending s)) \<subseteq> snd ` set (started g)"
    unfolding simulates_tasks(2) [OF sim] by simp
  then have "t \<in> set (sending s) \<Longrightarrow> tk_file t \<in> snd ` set (started g)" by auto
  then show "t \<in> set (sending s) \<Longrightarrow> file_ok (tk_file t)"
    using files unfolding sender_files_def set_append image_Un by blast
qed

lemma spawned_tasks:
  "(\<forall>t \<in> set (sending s). task_inv enc t) \<Longrightarrow> \<forall>t \<in> set (sending (pump s)). task_inv enc t"
  by (auto simp: pump_def spawn_def Let_def case_prod_unfold task_inv_def)

subsection \<open>Events of the page\<close>

lemma ctrl_frame_other:
  "\<forall>i. c \<noteq> Accept i \<Longrightarrow> active (outgoing_files (ctrl_frame c s)) = active (outgoing_files s)"
  "\<forall>i. c \<noteq> Accept i \<Longrightarrow> sending (ctrl_frame c s) = sending s"
  by (cases c; simp)+

lemma page_tasks:
  fixes enc :: "control \<Rightarrow> 't" and dec and e
  assumes "active (outgoing_files (page s)) = set (running_ids (sending (page s)))"
    and "\<forall>t \<in> set (sending (page s)). task_inv enc t"
  defines "p \<equiv> page (page_step enc dec s e)"
  shows "active (outgoing_files p) = set (running_ids (sending p)) \<and> (\<forall>t \<in> set (sending p). task_inv enc t)"
proof (cases "\<exists>t i. e = Ctrl_Msg (Text t) \<and> dec t = Some (Accept i)")
  case True
  then obtain t i where "e = Ctrl_Msg (Text t)" "dec t = Some (Accept i)" by blast
  then show ?thesis
    using running_pump [of "page s\<lparr>outgoing_files := enqueue_accepted (outgoing_files (page s)) i\<rparr>"]
      spawned_tasks [of "page s\<lparr>outgoing_files := enqueue_accepted (outgoing_files (page s)) i\<rparr>" enc] assms(1,2)
    by (simp add: p_def ctrl_router_def)
next
  case False
  have off: "active (outgoing_files (offer_files enc files q)) = active (outgoing_files q)" for files q
    by (induction enc files q rule: offer_files.induct) (simp_all add: Let_def)
  have "active (outgoing_files p) = active (outgoing_files (page s)) \<and> sending p = sending (page s)"
    unfolding p_def using False
    by (cases e)
       (auto simp: recv_router_def ctrl_router_def transfer_accept_def transfer_reject_def transfer_cancel_def
          transfer_abort_def off Let_def ctrl_frame_other split: packet.splits option.splits control.splits)
  then show ?thesis using assms(1,2) by simp
qed

text \<open>The files a page offers in an event.\<close>

fun offered_by :: "'t engine_event \<Rightarrow> (u64 \<times> js_file) list" where
  "offered_by (Page (User_Offers files)) = files"
| "offered_by _ = []"

definition fresh_offers :: "u64 set \<Rightarrow> 't engine_event \<Rightarrow> bool" where
  "fresh_offers used e \<longleftrightarrow>
     distinct (map fst (offered_by e)) \<and> fst ` set (offered_by e) \<inter> used = {} \<and>
     (\<forall>f \<in> snd ` set (offered_by e). file_ok f)"

lemma offers_ok:
  assumes "distinct (map fst files)" and "fst ` set files \<inter> (dom (offered (out g)) \<union> fst ` set (accepted g)) = {}"
  shows "run_ok sender_ok (sender_step cap) g (map (\<lambda>(i, f). Offer_File i f) files)"
  using assms
proof (induction files arbitrary: g)
  case (Cons x files)
  obtain i f where x: "x = (i, f)" by fastforce
  have d: "dom (offered (out (sender_step cap g (Offer_File i f)))) = insert i (dom (offered (out g)))"
    "accepted (sender_step cap g (Offer_File i f)) = accepted g" by simp_all
  have fr: "fst ` set files \<inter> (dom (offered (out (sender_step cap g (Offer_File i f)))) \<union>
      fst ` set (accepted (sender_step cap g (Offer_File i f)))) = {}"
    unfolding d using Cons.prems x by auto
  have "run_ok sender_ok (sender_step cap) (sender_step cap g (Offer_File i f)) (map (\<lambda>(i, f). Offer_File i f) files)"
    by (rule Cons.IH [OF _ fr]) (use Cons.prems x in simp)
  then show ?case using Cons.prems x by auto
qed simp

lemma used_offers:
  "dom (offered (out (run (sender_step cap) g (map (\<lambda>(i, f). Offer_File i f) files)))) =
     dom (offered (out g)) \<union> fst ` set files"
  "accepted (run (sender_step cap) g (map (\<lambda>(i, f). Offer_File i f) files)) = accepted g"
  by (induction files arbitrary: g) auto

lemma sender_step_used:
  assumes "\<nexists>i f. e = Offer_File i f"
  shows "dom (offered (out (sender_step cap g e))) \<union> fst ` set (accepted (sender_step cap g e)) \<subseteq>
    dom (offered (out g)) \<union> fst ` set (accepted g)"
  using assms
  by (cases e) (auto simp: start_next_simps release_slot_def Let_def split: option.splits if_splits)


lemma ctrl_ops_single: "ctrl_ops c = [] \<or> (\<exists>i. ctrl_ops c \<in> {[Accepted i], [Rejected i], [Stopped i]})"
  by (auto simp: ctrl_ops_def split: option.split control.split)

lemma page_ops_single:
  assumes "\<nexists>files. e = User_Offers files"
  shows "engine_ops enc dec s (Page e) = [] \<or>
    (\<exists>i. engine_ops enc dec s (Page e) \<in> {[Accepted i], [Rejected i], [Stopped i]})"
proof (cases e)
  case (Ctrl_Msg p)
  then show ?thesis using ctrl_ops_single by (cases p) auto
qed (use assms in auto)

lemma engine_page:
  fixes enc :: "control \<Rightarrow> 't" and dec
  assumes inv: "engine_inv enc used (page s) g" and fresh: "fresh_offers used (Page e)"
  defines "g' \<equiv> run (sender_step MAX_CONCURRENT) g (engine_ops enc dec s (Page e))"
  shows "run_ok sender_ok (sender_step MAX_CONCURRENT) g (engine_ops enc dec s (Page e)) \<and>
    engine_inv enc (used \<union> fst ` set (offered_by (Page e))) (page (page_step enc dec s e)) g'"
proof -
  let ?ops = "engine_ops enc dec s (Page e)"
  have used: "dom (offered (out g)) \<union> fst ` set (accepted g) \<subseteq> used" using inv by (simp add: engine_inv_def)
  have ops: "run_ok sender_ok (sender_step MAX_CONCURRENT) g ?ops \<and> (\<forall>x \<in> set ?ops. offers_good file_ok x) \<and>
      dom (offered (out g')) \<union> fst ` set (accepted g') \<subseteq> used \<union> fst ` set (offered_by (Page e))"
  proof (cases "\<exists>files. e = User_Offers files")
    case True
    then obtain files where e: "e = User_Offers files" by blast
    have "run_ok sender_ok (sender_step MAX_CONCURRENT) g ?ops"
      unfolding e engine_ops.simps
    proof (rule offers_ok)
      show "distinct (map fst files)" using fresh by (simp add: e fresh_offers_def)
      show "fst ` set files \<inter> (dom (offered (out g)) \<union> fst ` set (accepted g)) = {}"
        using fresh used unfolding e fresh_offers_def offered_by.simps by blast
    qed
    then show ?thesis using fresh used by (auto simp: e g'_def used_offers fresh_offers_def)
  next
    case False
    then consider "?ops = []" | x where "?ops = [x]" "\<nexists>i f. x = Offer_File i f" "sender_ok g x" "offers_good file_ok x"
      using page_ops_single [OF False, of enc dec s] by auto
    then show ?thesis
    proof cases
      case 1
      show ?thesis unfolding g'_def 1 using used by simp blast
    next
      case (2 x)
      then show ?thesis
        unfolding g'_def 2(1) using used sender_step_used [OF 2(2), where g = g and cap = MAX_CONCURRENT] by simp blast
    qed
  qed
  have sim: "simulates (page (page_step enc dec s e)) g'"
    using inv unfolding g'_def by (intro simulates_page) (simp add: engine_inv_def)
  have "sender_inv MAX_CONCURRENT g'" "sender_files file_ok g'"
    using inv ops sender.run_inv [of MAX_CONCURRENT g ?ops] good.run_inv [of file_ok g MAX_CONCURRENT ?ops]
    by (simp_all add: engine_inv_def g'_def run_ok_all)
  moreover have "active (outgoing_files (page s)) = set (running_ids (sending (page s)))"
    "\<forall>t \<in> set (sending (page s)). task_inv enc t" using inv by (simp_all add: engine_inv_def)
  note page_tasks [OF this, of dec e]
  ultimately show ?thesis using ops sim unfolding engine_inv_def by blast
qed


subsection \<open>Polls\<close>

lemma task_inv_closed [simp]: "task_inv enc (t\<lparr>tk_closed := b\<rparr>) = task_inv enc t"
  by (simp add: task_inv_def on_wire_def fully_sent_def chunk_ok_def split: phase.split)

text \<open>The end of a task: its slot is released and waiting files are started.\<close>

lemma finish_sending_shape:
  assumes "k < length (sending s)"
  obtains s1 t' where "finish_sending k s = pump s1" "outgoing_files s1 = release_slot (tk_id (sending s ! k)) (outgoing_files s)"
    "sending s1 = (sending s)[k := t']" "task_inv enc t' = task_inv enc (sending s ! k)"
    "tk_id t' = tk_id (sending s ! k)" "tk_file t' = tk_file (sending s ! k)" "tk_phase t' = tk_phase (sending s ! k)"
proof -
  let ?t = "sending s ! k"
  define t' where "t' = (if tk_id ?t \<in> cancelled (outgoing_files s) then ?t\<lparr>tk_closed := True\<rparr> else ?t)"
  define s1 where "s1 = (let s = (if tk_id ?t \<in> cancelled (outgoing_files s)
      then s\<lparr>sending := (sending s)[k := ?t\<lparr>tk_closed := True\<rparr>]\<rparr>
      else call_ui (On_Send_Progress (tk_id ?t) (jf_name (tk_file ?t)) (file_size (tk_file ?t)) (file_size (tk_file ?t))) s)
    in s\<lparr>outgoing_files := release_slot (tk_id ?t) (outgoing_files s)\<rparr>)"
  have "finish_sending k s = pump s1" by (simp add: finish_sending_def s1_def Let_def)
  then show thesis by (rule that [where t' = t']) (simp_all add: s1_def t'_def Let_def)
qed

lemma same_files:
  "k < length ts \<Longrightarrow> tk_id t = tk_id (ts ! k) \<Longrightarrow> tk_file t = tk_file (ts ! k) \<Longrightarrow>
     map (\<lambda>t. (tk_id t, tk_file t)) (ts[k := t]) = map (\<lambda>t. (tk_id t, tk_file t)) ts"
  by (simp add: map_update list_update_same_conv)

lemma engine_poll_step:
  fixes enc :: "control \<Rightarrow> 't" and used and g
  assumes inv: "engine_inv enc used s g" and k: "k < length (sending s)" "tk_phase (sending s ! k) \<noteq> Returned"
    and t': "tk_id t' = tk_id (sending s ! k)" "tk_file t' = tk_file (sending s ! k)" "task_inv enc t'"
    and s1: "outgoing_files s1 = outgoing_files s" "sending s1 = (sending s)[k := t']"
  shows "tk_phase t' \<noteq> Returned \<Longrightarrow> engine_inv enc used s1 g"
    and "tk_phase t' = Returned \<Longrightarrow> sender_ok g (Finished (tk_id t')) \<and>
      engine_inv enc used (finish_sending k s1) (sender_step MAX_CONCURRENT g (Finished (tk_id t')))"
proof -
  have sim: "map (\<lambda>t. (tk_id t, tk_file t)) (sending s1) = map (\<lambda>t. (tk_id t, tk_file t)) (sending s)"
    unfolding s1(2) by (rule same_files [OF k(1) t'(1,2)])
  have tasks: "\<forall>t \<in> set (sending s1). task_inv enc t"
    using inv t'(3) set_update_subset_insert [of "sending s" k t'] by (auto simp: s1 engine_inv_def)
  have ids: "distinct (map tk_id (sending s))" by (rule engine_tasks(1) [OF inv])
  note upd = running_update [OF k(1) ids k(2) t'(1), folded s1(2)]
  have act: "active (outgoing_files s) = set (running_ids (sending s))" using inv unfolding engine_inv_def by blast
  show "engine_inv enc used s1 g" if "tk_phase t' \<noteq> Returned"
  proof -
    have "active (outgoing_files s1) = set (running_ids (sending s1))" using act upd that by (simp add: s1(1))
    with inv sim tasks show ?thesis unfolding engine_inv_def simulates_def s1(1) by simp
  qed
  assume ret: "tk_phase t' = Returned"
  let ?g = "sender_step MAX_CONCURRENT g (Finished (tk_id t'))"
  have "tk_id t' \<in> set (running_ids (sending s))" using k by (auto simp: running_ids_def t'(1))
  moreover have "out g = outgoing_files s" using inv by (simp add: engine_inv_def simulates_def)
  ultimately have "tk_id t' \<in> active (out g)" using act by simp
  then have ok: "sender_ok g (Finished (tk_id t'))" by simp
  have nth: "sending s1 ! k = t'" "k < length (sending s1)" using k(1) by (simp_all add: s1)
  obtain s2 t'' where s2: "finish_sending k s1 = pump s2"
    "outgoing_files s2 = release_slot (tk_id (sending s1 ! k)) (outgoing_files s1)" "sending s2 = (sending s1)[k := t'']"
    and t'': "task_inv enc t'' = task_inv enc (sending s1 ! k)"
    "tk_id t'' = tk_id (sending s1 ! k)" "tk_file t'' = tk_file (sending s1 ! k)"
    "tk_phase t'' = tk_phase (sending s1 ! k)"
    by (rule finish_sending_shape [OF nth(2)])
  note s2 = s2 [unfolded nth(1), unfolded s1 list_update_overwrite] and t'' = t'' [unfolded nth(1) ret]
  have "simulates s2 (g\<lparr>out := release_slot (tk_id t') (out g)\<rparr>)"
    using inv same_files [OF k(1), of t''] t'(1,2) t''(2,3) by (simp add: engine_inv_def simulates_def s2)
  then have "simulates (pump s2) ?g" using simulates_pump by simp
  moreover have "active (outgoing_files s2) = set (running_ids (sending s2))"
    using running_update [OF k(1) ids k(2), of t''] t'(1) t''(2,4) inv
    by (simp add: s2 release_slot_def Let_def engine_inv_def)
  then have "active (outgoing_files (pump s2)) = set (running_ids (sending (pump s2)))" by (rule running_pump)
  moreover have "\<forall>t \<in> set (sending s2). task_inv enc t"
    using inv t'(3) t''(1) set_update_subset_insert [of "sending s" k t''] by (auto simp: s2 engine_inv_def)
  then have "\<forall>t \<in> set (sending (pump s2)). task_inv enc t" by (rule spawned_tasks)
  moreover have "sender_inv MAX_CONCURRENT ?g" "sender_files file_ok ?g"
    using inv sender_step_inv [OF _ ok] sender_step_files [of file_ok g "Finished (tk_id t')"]
    by (simp_all add: engine_inv_def)
  moreover have "dom (offered (out ?g)) \<union> fst ` set (accepted ?g) \<subseteq> used"
  proof (rule order_trans [OF sender_step_used])
    show "dom (offered (out g)) \<union> fst ` set (accepted g) \<subseteq> used" using inv unfolding engine_inv_def by blast
  qed simp
  ultimately show "sender_ok g (Finished (tk_id t')) \<and> engine_inv enc used (finish_sending k s1) ?g"
    using ok by (simp add: engine_inv_def s2)
qed


text \<open>A poll of a task that runs returns, with the task in one of its states.\<close>

lemma engine_poll_result:
  assumes "engine_inv enc used s g" and "k < length (sending s)"
  obtains t' progress where
    "poll_send_file enc env (tk_id (sending s ! k) \<in> cancelled (outgoing_files s)) (sending s ! k) = Some (t', progress)"
    "task_inv enc t'" "tk_id t' = tk_id (sending s ! k)" "tk_file t' = tk_file (sending s ! k)"
proof -
  have t: "sending s ! k \<in> set (sending s)" using assms(2) by simp
  have "task_inv enc (sending s ! k)" using assms(1) t by (simp add: engine_inv_def)
  from poll_task_ok [OF this engine_tasks(2) [OF assms(1) t]] show thesis
    using that by (fastforce simp: poll_ok_def split: option.splits)
qed

lemma engine_step_inv:
  fixes enc :: "control \<Rightarrow> 't" and dec
  assumes inv: "engine_inv enc used (page s) g" and ok: "engine_ok s e" and fresh: "fresh_offers used e"
  shows "run_ok sender_ok (sender_step MAX_CONCURRENT) g (engine_ops enc dec s e) \<and>
    engine_inv enc (used \<union> fst ` set (offered_by e)) (page (engine_step enc dec s e))
      (run (sender_step MAX_CONCURRENT) g (engine_ops enc dec s e))"
proof (cases e)
  case (Page e')
  with engine_page [OF inv, where e = e' and dec = dec] fresh show ?thesis by simp
next
  case (Poll k env)
  with ok have k: "k < length (sending (page s))" "tk_phase (sending (page s) ! k) \<noteq> Returned" by simp_all
  obtain t' progress where t': "poll_send_file enc env (tk_id (sending (page s) ! k) \<in> cancelled (outgoing_files (page s)))
      (sending (page s) ! k) = Some (t', progress)"
    "task_inv enc t'" "tk_id t' = tk_id (sending (page s) ! k)" "tk_file t' = tk_file (sending (page s) ! k)"
    using engine_poll_result [OF inv k(1)] .
  define s1 where "s1 = (page s)\<lparr>sending := (sending (page s))[k := t'],
      ui := ui (page s) @ map (\<lambda>snt. On_Send_Progress (tk_id t') (jf_name (tk_file t')) snt (file_size (tk_file t'))) progress\<rparr>"
  have poll: "poll_sending enc env k (page s) = Some (if tk_phase t' = Returned then finish_sending k s1 else s1)"
    by (simp add: poll_sending_def t' s1_def Let_def)
  have "outgoing_files s1 = outgoing_files (page s)" "sending s1 = (sending (page s))[k := t']"
    by (simp_all add: s1_def)
  note poll_step = engine_poll_step [OF inv k t'(3,4,2) this]
  have ops: "engine_ops enc dec s e = (if tk_phase t' = Returned then [Finished (tk_id t')] else [])"
    by (simp add: Poll t' Let_def)
  show ?thesis
    using poll_step by (cases "tk_phase t' = Returned") (simp_all add: ops, simp_all add: Poll poll)
qed

section \<open>Histories of the engine\<close>

text \<open>
  A page counts the ids of the files it offers up (\<open>app.rs\<close>), so no id is offered twice; the
  executor polls only tasks that run.
\<close>

definition all_offers :: "'t engine_event list \<Rightarrow> (u64 \<times> js_file) list" where
  "all_offers es = concat (map offered_by es)"

definition engine_history ::
  "(control \<Rightarrow> 't) \<Rightarrow> ('t \<Rightarrow> control option) \<Rightarrow> 't engine_event list \<Rightarrow> bool" where
  "engine_history enc dec es \<longleftrightarrow>
     run_ok engine_ok (engine_step enc dec) receiver_new es \<and>
     distinct (map fst (all_offers es)) \<and> (\<forall>f \<in> snd ` set (all_offers es). length (jf_bytes f) \<le> 2 ^ 53)"

definition engine_after ::
  "(control \<Rightarrow> 't) \<Rightarrow> ('t \<Rightarrow> control option) \<Rightarrow> 't engine_event list \<Rightarrow> 't shared" where
  "engine_after enc dec es = page (run (engine_step enc dec) receiver_new es)"

lemma engine_run_inv:
  fixes enc :: "control \<Rightarrow> 't" and dec
  assumes "engine_inv enc used (page s) g" and "run_ok engine_ok (engine_step enc dec) s es"
    and "distinct (map fst (all_offers es))" and "fst ` set (all_offers es) \<inter> used = {}"
    and "\<forall>f \<in> snd ` set (all_offers es). file_ok f"
  defines "ops \<equiv> trace_of (engine_ops enc dec) (engine_step enc dec) s es"
  shows "run_ok sender_ok (sender_step MAX_CONCURRENT) g ops \<and>
    engine_inv enc (used \<union> fst ` set (all_offers es)) (page (run (engine_step enc dec) s es))
      (run (sender_step MAX_CONCURRENT) g ops)"
  using assms(1-5) unfolding ops_def
proof (induction es arbitrary: used s g)
  case Nil
  then show ?case by (simp add: all_offers_def)
next
  case (Cons e es)
  let ?used = "used \<union> fst ` set (offered_by e)"
  have all: "all_offers (e # es) = offered_by e @ all_offers es" by (simp add: all_offers_def)
  have "fresh_offers used e" using Cons.prems(3-5) by (auto simp: fresh_offers_def all)
  with engine_step_inv [OF Cons.prems(1), where e = e and dec = dec] Cons.prems(2)
  have e: "run_ok sender_ok (sender_step MAX_CONCURRENT) g (engine_ops enc dec s e)"
    "engine_inv enc ?used (page (engine_step enc dec s e)) (run (sender_step MAX_CONCURRENT) g (engine_ops enc dec s e))"
    by auto
  have "fst ` set (all_offers es) \<inter> ?used = {}" using Cons.prems(3,4) unfolding all by auto
  with Cons.IH [OF e(2)] Cons.prems(2,3,5) e(1) show ?case by (simp add: all run_ok_append Un_assoc image_Un)
qed

lemma engine_inv_new: "engine_inv enc {} (page receiver_new) sender_new"
  using sender_inv_new [of MAX_CONCURRENT]
  by (simp add: engine_inv_def simulates_def receiver_new_def transfer_new_def sender_new_def sender_files_def
      running_ids_def outgoing_default_def)

definition engine_trace ::
  "(control \<Rightarrow> 't) \<Rightarrow> ('t \<Rightarrow> control option) \<Rightarrow> 't engine_event list \<Rightarrow> js_file sender_op list" where
  "engine_trace enc dec es = trace_of (engine_ops enc dec) (engine_step enc dec) receiver_new es"

lemma engine_after_inv:
  assumes "engine_history enc dec es"
  shows "sender_history (engine_trace enc dec es)"
    and "engine_inv enc (fst ` set (all_offers es)) (engine_after enc dec es) (sender_after (engine_trace enc dec es))"
  using engine_run_inv [OF engine_inv_new, where dec = dec and es = es and enc = enc] assms
  by (auto simp: engine_history_def file_ok_def sender_history_def sender_after_def engine_after_def engine_trace_def)

definition demo_engine :: "control engine_event list" where
  "demo_engine =
     [Page (User_Offers [(0, demo_file)]), Page (Ctrl_Msg (Text (Accept 0))), Poll 0 demo_env]"

lemmas engine_simps =
  receiver_new_def transfer_new_def outgoing_default_def ctrl_router_def pump_def spawn_def schedule_def
  enqueue_accepted_def MAX_CONCURRENT_def all_offers_def ctrl_send_def

lemma demo_engine_history: "engine_history id Some demo_engine"
  by (simp add: engine_history_def demo_engine_def engine_simps demo_file_def)

lemma running_tasks:
  assumes "engine_history enc dec es"
  defines "p \<equiv> engine_after enc dec es"
  shows "distinct (running_ids (sending p))"
    and "card (active (out (sender_after (engine_trace enc dec es)))) = length (running_ids (sending p))"
proof -
  have inv: "engine_inv enc (fst ` set (all_offers es)) p (sender_after (engine_trace enc dec es))"
    unfolding p_def by (rule engine_after_inv(2) [OF assms(1)])
  show "distinct (running_ids (sending p))" by (rule distinct_running_ids [OF engine_tasks(1) [OF inv]])
  then show "card (active (out (sender_after (engine_trace enc dec es)))) = length (running_ids (sending p))"
    using inv by (auto simp: engine_inv_def simulates_def distinct_card)
qed

lemma running_tasks_bound:
  assumes "engine_history enc dec es"
  shows "length (running_ids (sending (engine_after enc dec es))) \<le> 4"
  using running_tasks(2) [OF assms] engine_after_inv(2) [OF assms]
  by (simp add: engine_inv_def sender_inv_def MAX_CONCURRENT_def)

section \<open>What the engine guarantees\<close>

text \<open>(C8) The engine with its routers and tasks refines the scheduler: what its events mean for the
  scheduler is a history that the scheduler machine allows, after which its bookkeeping is the
  machine's and the spawned tasks are the started files, in order. So every property of the
  scheduler (the cap, the order, no starvation) holds of the tasks that really run.\<close>

theorem engine_refines_the_scheduler:
  assumes "engine_history enc dec es"
  defines "ops \<equiv> engine_trace enc dec es" and "p \<equiv> engine_after enc dec es"
  shows "sender_history ops \<and> outgoing_files p = out (sender_after ops) \<and>
    map (\<lambda>t. (tk_id t, tk_file t)) (sending p) = started (sender_after ops)"
  using engine_after_inv [OF assms(1)] by (simp add: ops_def p_def engine_inv_def simulates_def)

theorem engine_refines_the_scheduler_witness:
  "map (\<lambda>t. (tk_id t, tk_file t)) (sending (engine_after id Some demo_engine)) =
     started (sender_after (engine_trace id Some demo_engine))"
  using engine_refines_the_scheduler [OF demo_engine_history] by simp

text \<open>(C10) At every moment at most four sending tasks run, each for a file of its own; a file waits only
  while four run; and the page never hangs in one of them: every poll of a task comes back, whatever
  the browser answers, up to files of \<open>2\<^sup>5\<^sup>3\<close> bytes.\<close>

theorem at_most_four_tasks_run:
  assumes "engine_history enc dec es"
  defines "p \<equiv> engine_after enc dec es"
  shows "length (running_ids (sending p)) \<le> 4 \<and> distinct (running_ids (sending p)) \<and>
    (queue (outgoing_files p) = [] \<or> length (running_ids (sending p)) = 4) \<and>
    (\<forall>k env. k < length (sending p) \<longrightarrow> poll_sending enc env k p \<noteq> None)"
proof -
  let ?g = "sender_after (engine_trace enc dec es)"
  have inv: "engine_inv enc (fst ` set (all_offers es)) p ?g" unfolding p_def by (rule engine_after_inv(2) [OF assms(1)])
  then have "queue (out ?g) = queue (outgoing_files p)" "sender_inv MAX_CONCURRENT ?g"
    by (auto simp: engine_inv_def simulates_def)
  moreover have "poll_sending enc env k p \<noteq> None" if "k < length (sending p)" for k env
    by (rule engine_poll_result [OF inv that, where env = env]) (auto simp: poll_sending_def Let_def)
  ultimately show ?thesis
    using running_tasks [OF assms(1)] by (auto simp: p_def sender_inv_def MAX_CONCURRENT_def)
qed

theorem at_most_four_tasks_run_witness:
  "length (running_ids (sending (engine_after id Some demo_engine))) \<le> 4"
  using at_most_four_tasks_run [OF demo_engine_history] by blast


section \<open>A send that fails\<close>

lemma ui_pump: "ui (pump s) = ui s" by simp

lemma sending_pump: "k < length (sending s) \<Longrightarrow> sending (pump s) ! k = sending s ! k"
  by (simp add: pump_def spawn_def Let_def case_prod_unfold nth_append)

text \<open>A read that fails: the task returns, and the error is dropped.\<close>

lemma poll_read_error:
  assumes "k < length (sending s)" and "tk_phase (sending s ! k) = Reading idx snt" and "\<not> read_ok env"
    and "file_ok (tk_file (sending s ! k))" and "tk_id (sending s ! k) \<notin> cancelled (outgoing_files s)"
  defines "t \<equiv> sending s ! k"
  shows "\<exists>s'. poll_sending enc env k s = Some s' \<and>
    ui s' = ui s @ [On_Send_Progress (tk_id t) (jf_name (tk_file t)) (file_size (tk_file t)) (file_size (tk_file t))] \<and>
    sending s' ! k = t\<lparr>tk_phase := Returned\<rparr>"
proof -
  have "poll_send_file enc env False t = Some (t\<lparr>tk_phase := Returned\<rparr>, [])"
    using assms(2-4) slab_ranges_eq [of "tk_file t"] by (auto simp: poll_send_file_def t_def)
  then show ?thesis
    using assms(1,5) by (simp add: poll_sending_def finish_sending_def t_def Let_def sending_pump)
qed

lemma no_end_while_reading:
  assumes "task_inv enc t" and "tk_phase t = Reading idx snt"
    and "dec (enc (Start (file_meta (tk_id t) (tk_file t)))) = Some (Start (file_meta (tk_id t) (tk_file t)))"
    and "dec (enc (End \<lparr>fe_id = tk_id t\<rparr>)) = Some (End \<lparr>fe_id = tk_id t\<rparr>)"
  shows "end_frame enc (tk_id t) \<notin> set (tk_wire t)"
  using assms by (auto simp: task_inv_def on_wire_def stream_def end_frame_def Let_def)

lemma full_send_progress:
  assumes "file_ok file"
  shows "map_option t_state (row_at (send_progress rows i name (file_size file) (file_size file)) (i, False)) = Some Done"
  using assms by (auto simp: file_size_int file_ok_def send_progress_def frac_def row_at_upsert Let_def split: option.splits)

text \<open>(C38) An error while sending is reported as success. \<open>send_file_on_channel\<close> drops the result of
  \<open>send_file\<close>: when the browser cannot read the next slab of a file (it was moved or deleted) and
  nobody has cancelled, the stream stays without its \<open>End\<close>, so the peer never completes the file,
  but the sender reports 100 percent and its row says \<open>Done\<close>.\<close>

theorem failed_send_is_reported_done:
  fixes k :: nat
  assumes "engine_history enc dec es"
  defines "s \<equiv> engine_after enc dec es"
  defines "t \<equiv> sending s ! k"
  assumes "k < length (sending s)" and "tk_phase t = Reading idx snt" and "tk_id t \<notin> cancelled (outgoing_files s)"
    and "\<not> read_ok env"
    and "dec (enc (Start (file_meta (tk_id t) (tk_file t)))) = Some (Start (file_meta (tk_id t) (tk_file t)))"
    and "dec (enc (End \<lparr>fe_id = tk_id t\<rparr>)) = Some (End \<lparr>fe_id = tk_id t\<rparr>)"
  shows "\<exists>s'. poll_sending enc env k s = Some s' \<and>
    ui s' = ui s @ [On_Send_Progress (tk_id t) (jf_name (tk_file t)) (file_size (tk_file t)) (file_size (tk_file t))] \<and>
    tk_phase (sending s' ! k) = Returned \<and> end_frame enc (tk_id t) \<notin> set (tk_wire (sending s' ! k)) \<and>
    map_option t_state (row_at (send_progress rows (tk_id t) (jf_name (tk_file t)) (file_size (tk_file t))
        (file_size (tk_file t))) (tk_id t, False)) = Some Done"
proof -
  have inv: "engine_inv enc (fst ` set (all_offers es)) s (sender_after (engine_trace enc dec es))"
    unfolding s_def by (rule engine_after_inv(2) [OF assms(1)])
  have "t \<in> set (sending s)" using assms(4) by (simp add: t_def)
  then have t: "file_ok (tk_file t)" "task_inv enc t" using engine_tasks(2) [OF inv] inv by (auto simp: engine_inv_def)
  from poll_read_error [OF assms(4) assms(5)[unfolded t_def] assms(7) t(1)[unfolded t_def] assms(6)[unfolded t_def], of enc]
    no_end_while_reading [OF t(2) assms(5,8,9)] full_send_progress [OF t(1)]
  show ?thesis unfolding t_def by fastforce
qed

theorem failed_send_is_reported_done_witness:
  "\<exists>s'. poll_sending id (demo_env\<lparr>read_ok := False\<rparr>) 0 (engine_after id Some demo_engine) = Some s' \<and>
    ui s' = ui (engine_after id Some demo_engine) @
      [On_Send_Progress 0 (lit ''a.txt'') (file_size demo_file) (file_size demo_file)]"
proof -
  let ?s = "engine_after id Some demo_engine"
  have len: "length (jf_bytes demo_file) = 3" by (simp add: demo_file_def)
  have "ref_ranges 3 slab_size 0 = [(0, 3)]"
    by (simp add: ref_ranges.simps [of 3 _ 0] ref_ranges.simps [of 3 _ 3])
  then have "slab_ranges demo_file = Some [(0, 3)]"
    using slab_ranges_eq [of demo_file, unfolded file_ok_def len] by simp
  moreover have "(sat_cast (f_int 2) :: usize) = 2"
    using sat_cast_int [of 2, where 'a = 32] by (simp add: word_uint_eq_iff)
  then have "min (sat_cast (f_int 2) :: usize) 262144 = 2" by simp
  ultimately have s: "sending ?s = [\<lparr>tk_id = 0, tk_file = demo_file, tk_phase = Reading 0 (f_int 0), tk_chunk = 2,
      tk_wire = [Text (Start (file_meta 0 demo_file))], tk_closed = False\<rparr>]" "cancelled (outgoing_files ?s) = {}"
    by (simp_all add: engine_after_def demo_engine_def engine_simps poll_sending_def poll_send_file_def
        demo_env_def next_slab_def max_message_size_def CHUNK_SIZE_def Let_def)
  have name: "jf_name demo_file = lit ''a.txt''" by (simp add: demo_file_def)
  show ?thesis
    using failed_send_is_reported_done [OF demo_engine_history, where k = 0 and idx = 0 and snt = "f_int 0"
        and env = "demo_env\<lparr>read_ok := False\<rparr>" and rows = "[]"]
    by (auto simp: s name simp del: lit_Cons)
qed

end
