(* ===== verification/Reconnect.thy ===== *)
theory Reconnect
  imports Rust_Base
begin

text \<open>
  The reducer of the signaling and reconnect handshake, \<open>crates/client/src/reconnect.rs\<close>: which
  actions one inbound event asks for, given what the session knows. The constructors of the
  source's enums carry a prefix where the signaling messages use the same names.
\<close>

section \<open>Status, events, session, actions\<close>

datatype status =
    StIdle | StWaitingForPeer | StConnecting | StConnected | StReconnecting | StPeerLeft
  | StRoomFull | StRoomNotFound | StError rstr

datatype event =
    EvOpen
  | EvCreated rstr
  | EvPeerJoined
  | EvOffer rstr
  | EvAnswer rstr
  | EvIce
  | EvPeerLeft
  | EvRoomFull
  | EvRoomNotFound

record session =
  room_in_hash :: "rstr option"
  owns :: "rstr option"
  reclaim_tried :: bool
  has_pc :: bool

definition session_default :: session where
  "session_default = \<lparr>room_in_hash = None, owns = None, reclaim_tried = False, has_pc = False\<rparr>"

datatype action =
    SendCreate
  | SendJoin rstr
  | SendReclaim rstr
  | BuildPcAndOffer
  | BuildPcAndAnswer rstr
  | SetRemoteAnswer rstr
  | AddIce
  | TeardownPc
  | SetStatus status
  | PersistRoom rstr

section \<open>The reducer\<close>

fun step_session :: "session \<Rightarrow> event \<Rightarrow> action list \<times> session" where
  "step_session s EvOpen =
     ((case room_in_hash s of Some room \<Rightarrow> [SendJoin room] | None \<Rightarrow> [SendCreate]), s)"
| "step_session s EvPeerJoined = ([BuildPcAndOffer], s\<lparr>has_pc := True\<rparr>)"
| "step_session s (EvOffer sdp) = ([BuildPcAndAnswer sdp], s\<lparr>has_pc := True\<rparr>)"
| "step_session s (EvAnswer sdp) = (if has_pc s then [SetRemoteAnswer sdp] else [], s)"
| "step_session s EvIce = (if has_pc s then [AddIce] else [], s)"
| "step_session s EvPeerLeft = ([TeardownPc, SetStatus StPeerLeft], s\<lparr>has_pc := False\<rparr>)"
| "step_session s (EvCreated room) =
     ([PersistRoom room, SetStatus StWaitingForPeer],
      s\<lparr>owns := Some room, room_in_hash := Some room\<rparr>)"
| "step_session s EvRoomFull = ([SetStatus StRoomFull], s)"
| "step_session s EvRoomNotFound =
     (let is_owner = (case (room_in_hash s, owns s) of (Some h, Some o') \<Rightarrow> h = o' | _ \<Rightarrow> False) in
      if is_owner \<and> \<not> reclaim_tried s
      then ([SendReclaim (the (room_in_hash s))], s\<lparr>reclaim_tried := True\<rparr>)
      else ([SetStatus StRoomNotFound], s))"

definition next_session :: "session \<Rightarrow> event \<Rightarrow> session" where
  "next_session s e = snd (step_session s e)"

text \<open>All actions of a sequence of events, in the order in which they are asked for.\<close>

definition actions_of :: "session \<Rightarrow> event list \<Rightarrow> action list" where
  "actions_of s es = trace_of (\<lambda>s e. fst (step_session s e)) next_session s es"

lemma actions_of_simps [simp]:
  "actions_of s [] = []"
  "actions_of s (e # es) = fst (step_session s e) @ actions_of (next_session s e) es"
  by (simp_all add: actions_of_def)

section \<open>Reclaiming\<close>

fun is_reclaim :: "action \<Rightarrow> bool" where
  "is_reclaim (SendReclaim room) \<longleftrightarrow> True"
| "is_reclaim _ \<longleftrightarrow> False"

lemma reclaim_step:
  "SendReclaim room \<in> set (fst (step_session s e)) \<Longrightarrow>
     e = EvRoomNotFound \<and> owns s = Some room \<and> room_in_hash s = Some room \<and> \<not> reclaim_tried s \<and>
     fst (step_session s e) = [SendReclaim room] \<and> reclaim_tried (next_session s e)"
  by (cases e) (auto simp: Let_def next_session_def split: if_splits option.splits)

lemma no_reclaim_once_tried:
  "reclaim_tried s \<Longrightarrow> filter is_reclaim (actions_of s es) = []"
proof (induction es arbitrary: s)
  case (Cons e es)
  have "reclaim_tried (next_session s e)"
    using Cons.prems by (cases e) (auto simp: next_session_def Let_def split: if_splits)
  moreover have "filter is_reclaim (fst (step_session s e)) = []"
    using Cons.prems by (cases e) (auto simp: Let_def split: if_splits option.splits)
  ultimately show ?case using Cons.IH by simp
qed simp

lemma at_most_one_reclaim: "length (filter is_reclaim (actions_of s es)) \<le> 1"
proof (induction es arbitrary: s)
  case (Cons e es)
  show ?case
  proof (cases "\<exists>room. SendReclaim room \<in> set (fst (step_session s e))")
    case True
    then obtain room where "SendReclaim room \<in> set (fst (step_session s e))" by blast
    from reclaim_step [OF this]
    have "fst (step_session s e) = [SendReclaim room]" "reclaim_tried (next_session s e)" by auto
    then show ?thesis by (simp add: no_reclaim_once_tried)
  next
    case False
    then have "\<forall>a \<in> set (fst (step_session s e)). \<not> is_reclaim a"
      by (metis is_reclaim.elims(2))
    with Cons.IH [of "next_session s e"] show ?thesis by (simp add: filter_empty_conv [THEN iffD2])
  qed
qed simp

lemma owner_created:
  "owns (run next_session s es) = Some room \<Longrightarrow> owns s = Some room \<or> EvCreated room \<in> set es"
proof (induction es arbitrary: s)
  case (Cons e es)
  then have "owns (next_session s e) = Some room \<or> EvCreated room \<in> set es" by simp
  moreover have "owns (next_session s e) = Some room \<Longrightarrow> owns s = Some room \<or> e = EvCreated room"
    by (cases e) (auto simp: next_session_def Let_def split: if_splits)
  ultimately show ?case by auto
qed simp

lemma reclaim_in_actions:
  "SendReclaim room \<in> set (actions_of s es) \<Longrightarrow>
     \<exists>es1 es2. es = es1 @ EvRoomNotFound # es2 \<and> owns (run next_session s es1) = Some room \<and>
       room_in_hash (run next_session s es1) = Some room"
proof (induction es arbitrary: s)
  case (Cons e es)
  then consider "SendReclaim room \<in> set (fst (step_session s e))"
    | "SendReclaim room \<in> set (actions_of (next_session s e) es)" by auto
  then show ?case
  proof cases
    case 1
    from reclaim_step [OF this]
    have "e # es = [] @ EvRoomNotFound # es \<and> owns (run next_session s []) = Some room \<and>
        room_in_hash (run next_session s []) = Some room" by simp
    then show ?thesis by blast
  next
    case 2
    from Cons.IH [OF this] obtain es1 es2 where "es = es1 @ EvRoomNotFound # es2"
      "owns (run next_session (next_session s e) es1) = Some room"
      "room_in_hash (run next_session (next_session s e) es1) = Some room" by blast
    then show ?thesis by (intro exI [where x = "e # es1"] exI [where x = es2]) simp
  qed
qed simp

text \<open>(C33) A tab asks to reclaim a room at most once, whatever the server sends, so a refused reclaim
  (answered by \<open>RoomNotFound\<close> again) cannot loop; and it only ever reclaims a room it was told it
  had created, or whose ownership was stored when the page loaded: a code from a link, or a
  guessed one, never triggers a reclaim.\<close>

theorem reclaim_once_and_only_own_room:
  shows "length (filter is_reclaim (actions_of s es)) \<le> 1 \<and>
    (SendReclaim room \<notin> set (actions_of s es) \<or> owns s = Some room \<or> EvCreated room \<in> set es)"
  using at_most_one_reclaim [of s es] reclaim_in_actions [of room s es] owner_created [of s _ room]
  by fastforce

text \<open>A reload of the owner's tab after the server dropped the room, and a refused second attempt.\<close>

theorem reclaim_once_and_only_own_room_witness:
  "length (filter is_reclaim (actions_of
      (session_default\<lparr>room_in_hash := Some (lit ''abc''), owns := Some (lit ''abc'')\<rparr>)
      [EvOpen, EvRoomNotFound, EvRoomNotFound])) = 1"
proof -
  let ?s = "session_default\<lparr>room_in_hash := Some (lit ''abc''), owns := Some (lit ''abc'')\<rparr>"
  let ?es = "[EvOpen, EvRoomNotFound, EvRoomNotFound]"
  have "SendReclaim (lit ''abc'') \<in> set (actions_of ?s ?es)"
    by (simp add: session_default_def next_session_def)
  then have "filter is_reclaim (actions_of ?s ?es) \<noteq> []" by (force simp: filter_empty_conv)
  then have "0 < length (filter is_reclaim (actions_of ?s ?es))" by (rule length_greater_0_conv [THEN iffD2])
  moreover have "length (filter is_reclaim (actions_of ?s ?es)) \<le> 1"
    by (rule conjunct1 [OF reclaim_once_and_only_own_room [of ?s ?es "lit ''abc''"]])
  ultimately show ?thesis by linarith
qed

section \<open>Peer connections\<close>

text \<open>
  Is there a peer connection after these actions? A build makes one, a teardown removes it.
\<close>

fun pc_after :: "bool \<Rightarrow> action list \<Rightarrow> bool" where
  "pc_after b [] = b"
| "pc_after b (a # acts) =
     pc_after (case a of BuildPcAndOffer \<Rightarrow> True | BuildPcAndAnswer sdp \<Rightarrow> True
                | TeardownPc \<Rightarrow> False | _ \<Rightarrow> b) acts"

fun needs_pc :: "action \<Rightarrow> bool" where
  "needs_pc (SetRemoteAnswer sdp) \<longleftrightarrow> True"
| "needs_pc AddIce \<longleftrightarrow> True"
| "needs_pc _ \<longleftrightarrow> False"

lemma pc_after_append [simp]: "pc_after b (xs @ ys) = pc_after (pc_after b xs) ys"
  by (induction xs arbitrary: b) auto

lemma has_pc_step: "has_pc (next_session s e) = pc_after (has_pc s) (fst (step_session s e))"
  by (cases e) (auto simp: next_session_def Let_def split: option.splits)

lemma has_pc_run: "has_pc (run next_session s es) = pc_after (has_pc s) (actions_of s es)"
  by (induction es arbitrary: s) (simp_all add: has_pc_step)

lemma step_needs_pc:
  "fst (step_session s e) = xs @ a # ys \<Longrightarrow> needs_pc a \<Longrightarrow> pc_after (has_pc s) xs"
  by (cases e) (auto simp: Let_def Cons_eq_append_conv append_eq_Cons_conv split: if_splits option.splits)

lemma actions_need_pc:
  "actions_of s es = xs @ a # ys \<Longrightarrow> needs_pc a \<Longrightarrow> pc_after (has_pc s) xs"
proof (induction es arbitrary: s xs)
  case (Cons e es)
  let ?f = "fst (step_session s e)"
  from Cons.prems(1) have "?f @ actions_of (next_session s e) es = xs @ a # ys" by simp
  then show ?case
  proof (cases rule: append_element_cases)
    case (1 us)
    then show ?thesis using Cons.IH [OF 1(2) Cons.prems(2)] by (simp add: has_pc_step)
  next
    case (2 us)
    then show ?thesis using step_needs_pc Cons.prems(2) by blast
  qed
qed simp

text \<open>An answer is applied and a candidate is added only while a peer connection built for the
  current handshake exists: the last of the earlier builds and teardowns is a build. Stray
  answers and candidates, in whatever order the server relays them, ask for nothing.\<close>

theorem answer_and_ice_only_with_a_connection:
  assumes "actions_of s es = xs @ a # ys" and "needs_pc a" and "\<not> has_pc s"
  shows "\<exists>b us vs. xs = us @ b # vs \<and> (b = BuildPcAndOffer \<or> (\<exists>sdp. b = BuildPcAndAnswer sdp)) \<and>
    TeardownPc \<notin> set vs"
proof -
  have "pc_after False xs \<Longrightarrow> \<exists>b us vs. xs = us @ b # vs \<and>
      (b = BuildPcAndOffer \<or> (\<exists>sdp. b = BuildPcAndAnswer sdp)) \<and> TeardownPc \<notin> set vs"
  proof (induction xs rule: rev_induct)
    case (snoc a xs)
    show ?case
    proof (cases "a = BuildPcAndOffer \<or> (\<exists>sdp. a = BuildPcAndAnswer sdp)")
      case True
      then show ?thesis by (intro exI [where x = a] exI [where x = xs] exI [where x = "[]"]) simp
    next
      case False
      with snoc.prems have "pc_after False xs" "a \<noteq> TeardownPc" by (cases a; simp)+
      with snoc.IH obtain b us vs where "xs = us @ b # vs" "TeardownPc \<notin> set vs"
        "b = BuildPcAndOffer \<or> (\<exists>sdp. b = BuildPcAndAnswer sdp)" by blast
      with \<open>a \<noteq> TeardownPc\<close> show ?thesis
        by (intro exI [where x = b] exI [where x = us] exI [where x = "vs @ [a]"]) simp
    qed
  qed simp
  with actions_need_pc [OF assms(1,2)] assms(3) show ?thesis by simp
qed

theorem answer_and_ice_only_with_a_connection_witness:
  "\<exists>b us vs. [BuildPcAndOffer] = us @ b # vs \<and> (b = BuildPcAndOffer \<or> (\<exists>sdp. b = BuildPcAndAnswer sdp)) \<and>
    TeardownPc \<notin> set vs"
  by (rule answer_and_ice_only_with_a_connection
        [where s = session_default and es = "[EvIce, EvPeerJoined, EvAnswer [1]]" and a = "SetRemoteAnswer [1]"])
     (simp_all add: session_default_def next_session_def)

section \<open>The room\<close>

lemma hash_kept: "room_in_hash s \<noteq> None \<Longrightarrow> room_in_hash (next_session s e) \<noteq> None"
  by (cases e) (auto simp: next_session_def Let_def split: if_splits)

lemma no_create_in_a_room: "room_in_hash s \<noteq> None \<Longrightarrow> SendCreate \<notin> set (actions_of s es)"
proof (induction es arbitrary: s)
  case (Cons e es)
  have "SendCreate \<notin> set (fst (step_session s e))"
    using Cons.prems by (cases e) (auto simp: Let_def split: if_splits)
  with Cons hash_kept [OF Cons.prems] show ?case by simp
qed simp

end
