(* ===== verification/Signaling_Client.thy ===== *)
theory Signaling_Client
  imports Signal_Msg
begin

text \<open>
  The self-reconnecting signaling socket of the browser, \<open>crates/client/src/signaling.rs\<close>: the
  back-off, and the machine of sockets, timers and the \<open>online\<close> event around it. A browser socket
  is a parameter of the model as far as it decides by itself: when it opens, closes, delivers a
  text, and whether its constructor throws, are inputs of the machine.
\<close>

section \<open>The back-off\<close>

definition BACKOFF_BASE_MS :: u32 where "BACKOFF_BASE_MS = 500"

definition BACKOFF_CAP_MS :: u32 where "BACKOFF_CAP_MS = 15000"

text \<open>
  Rust's \<open>checked_shl\<close> on \<open>u64\<close>: it fails only when the shift amount is not below the width; bits
  that are shifted out at the top are lost without a trace.
\<close>

definition checked_shl :: "u64 \<Rightarrow> u32 \<Rightarrow> u64 option" where
  "checked_shl w n = (if unat n < 64 then Some (push_bit (unat n) w) else None)"

definition next_backoff :: "u32 \<Rightarrow> u32" where
  "next_backoff attempt =
     (let shifted = (case checked_shl (ucast BACKOFF_BASE_MS) attempt of Some v \<Rightarrow> v | None \<Rightarrow> - 1)
      in ucast (min shifted (ucast BACKOFF_CAP_MS :: u64)))"

lemma backoff_table:
  "list_all (\<lambda>n.
     unat (ucast (min (push_bit n (500 :: u64)) 15000) :: u32) =
       (if n = 62 \<or> n = 63 then 0 else min (500 * 2 ^ n) 15000)) (map nat [0..63])"
  by (simp add: upto_rec1)

lemma backoff_below_64:
  assumes "n < 64"
  shows "unat (ucast (min (push_bit n (500 :: u64)) 15000) :: u32) =
       (if n = 62 \<or> n = 63 then 0 else min (500 * 2 ^ n) 15000)"
proof -
  have "n \<in> set (map nat [0..63])" using assms by (auto simp: image_iff intro!: bexI [where x = "int n"])
  then show ?thesis using backoff_table unfolding list_all_iff by blast
qed

lemma next_backoff_eq:
  "unat (next_backoff attempt) =
     (if attempt = 62 \<or> attempt = 63 then 0 else min (500 * 2 ^ unat attempt) 15000)"
proof (cases "unat attempt < 64")
  case True
  have "unat attempt = 62 \<longleftrightarrow> attempt = 62" "unat attempt = 63 \<longleftrightarrow> attempt = 63"
    by (simp_all add: word_unat_eq_iff)
  moreover have "unat (next_backoff attempt) = unat (ucast (min (push_bit (unat attempt) (500 :: u64)) 15000) :: u32)"
    using True by (simp add: next_backoff_def checked_shl_def BACKOFF_BASE_MS_def BACKOFF_CAP_MS_def)
  ultimately show ?thesis using backoff_below_64 [OF True] by simp
next
  case False
  then have "(2::nat) ^ 5 \<le> 2 ^ unat attempt" by (intro power_increasing) simp_all
  moreover have "attempt \<noteq> 62" "attempt \<noteq> 63" using False by auto
  moreover have "next_backoff attempt = 15000"
    using False by (simp add: next_backoff_def checked_shl_def BACKOFF_CAP_MS_def)
  ultimately show ?thesis by simp
qed

lemma next_backoff_le_cap: "next_backoff attempt \<le> 15000"
  unfolding word_le_nat_alt next_backoff_eq by simp

text \<open>The back-off doubles from half a second up to the cap of 15 seconds, with two exceptions: the
  62nd and the 63rd consecutive failure are retried without any delay, because the shift loses
  every bit of the base instead of saturating.\<close>

theorem backoff_doubles_up_to_the_cap:
  "unat (next_backoff n) = (if n = 62 \<or> n = 63 then 0 else min (500 * 2 ^ unat n) 15000)"
  by (rule next_backoff_eq)

section \<open>The socket machine\<close>

datatype ready_state = CONNECTING | OPEN | CLOSING | CLOSED

text \<open>What the application is told, in order.\<close>

datatype callback = On_Open | On_Disconnect | On_Msg signal_msg

text \<open>
  \<open>socks\<close> holds the ready state of every socket constructed so far and \<open>cur\<close> the index of the
  one in \<open>ws\<close>, whose closures are the installed ones; \<open>timers\<close> are the delays of the pending
  \<open>setTimeout\<close> calls; \<open>calls\<close> and \<open>sent\<close> record the callbacks and what was handed to a socket.
\<close>

record signaling =
  socks :: "ready_state list"
  cur :: nat
  attempt :: u32
  closed :: bool
  timers :: "u32 list"
  calls :: "callback list"
  sent :: "(nat \<times> signal_msg) list"

text \<open>
  \<open>Signaling::connect\<close>: the address of the socket and the first state of the client. That the location
  cannot be read or the constructor throws is the error with which the page is mounted.
\<close>

definition socket_url :: "rstr \<Rightarrow> rstr \<Rightarrow> rstr" where
  "socket_url protocol host =
     (if protocol = lit ''https:'' then lit ''wss'' else lit ''ws'') @ lit ''://'' @ host @ lit ''/ws''"

lemma socket_is_as_secure_as_the_page: "take 3 (socket_url protocol host) = lit ''wss'' \<longleftrightarrow> protocol = lit ''https:''"
  by (simp add: socket_url_def)

definition signaling_connect :: signaling where
  "signaling_connect =
     \<lparr>socks = [CONNECTING], cur = 0, attempt = 0, closed = False, timers = [], calls = [], sent = []\<rparr>"

text \<open>\<open>send\<close>: a socket that still connects throws, one that closes drops the text; both are ignored.\<close>

definition signaling_send :: "signal_msg \<Rightarrow> signaling \<Rightarrow> signaling" where
  "signaling_send m s = (if socks s ! cur s = OPEN then s\<lparr>sent := sent s @ [(cur s, m)]\<rparr> else s)"

definition schedule_reconnect :: "signaling \<Rightarrow> signaling" where
  "schedule_reconnect s =
     s\<lparr>timers := timers s @ [next_backoff (attempt s)], attempt := attempt s + 1\<rparr>"

text \<open>\<open>made\<close> says whether the constructor \<open>WebSocket::new\<close> succeeds.\<close>

definition reconnect_now :: "bool \<Rightarrow> signaling \<Rightarrow> signaling" where
  "reconnect_now made s =
     (if closed s then s
      else if socks s ! cur s = OPEN \<or> socks s ! cur s = CONNECTING then s
      else if made then s\<lparr>socks := socks s @ [CONNECTING], cur := length (socks s)\<rparr>
      else schedule_reconnect s)"

definition on_online :: "bool \<Rightarrow> signaling \<Rightarrow> signaling" where
  "on_online made s =
     (if closed s then s
      else if socks s ! cur s = OPEN \<or> socks s ! cur s = CONNECTING then s
      else reconnect_now made (s\<lparr>attempt := 0\<rparr>))"

definition ws_onmessage :: "(rstr \<Rightarrow> signal_msg option) \<Rightarrow> rstr \<Rightarrow> signaling \<Rightarrow> signaling" where
  "ws_onmessage parse text s =
     (case parse text of Some m \<Rightarrow> s\<lparr>calls := calls s @ [On_Msg m]\<rparr> | None \<Rightarrow> s)"

definition ws_onopen :: "signaling \<Rightarrow> signaling" where
  "ws_onopen s = s\<lparr>attempt := 0, calls := calls s @ [On_Open]\<rparr>"

definition ws_onclose :: "signaling \<Rightarrow> signaling" where
  "ws_onclose s =
     (if closed s then s else schedule_reconnect (s\<lparr>calls := calls s @ [On_Disconnect]\<rparr>))"

text \<open>
  What the browser does next. \<open>wire_socket\<close> drops the closures of the previous socket when it
  installs new ones, so an event of a replaced socket reaches no handler.
\<close>

datatype browser_event =
    Sock_Opens nat
  | Sock_Closing nat
  | Sock_Closes nat
  | Sock_Text nat rstr
  | Timer_Fires nat bool
  | Online bool

definition set_state :: "nat \<Rightarrow> ready_state \<Rightarrow> signaling \<Rightarrow> signaling" where
  "set_state i st s = s\<lparr>socks := (socks s)[i := st]\<rparr>"

fun signaling_step :: "(rstr \<Rightarrow> signal_msg option) \<Rightarrow> signaling \<Rightarrow> browser_event \<Rightarrow> signaling" where
  "signaling_step parse s (Sock_Opens i) =
     (let s' = set_state i OPEN s in if i = cur s then ws_onopen s' else s')"
| "signaling_step parse s (Sock_Closing i) = set_state i CLOSING s"
| "signaling_step parse s (Sock_Closes i) =
     (let s' = set_state i CLOSED s in if i = cur s then ws_onclose s' else s')"
| "signaling_step parse s (Sock_Text i text) = (if i = cur s then ws_onmessage parse text s else s)"
| "signaling_step parse s (Timer_Fires k made) =
     reconnect_now made (s\<lparr>timers := take k (timers s) @ drop (Suc k) (timers s)\<rparr>)"
| "signaling_step parse s (Online made) = on_online made s"

text \<open>The order in which the WebSocket standard lets a socket change its state.\<close>

fun browser_ok :: "signaling \<Rightarrow> browser_event \<Rightarrow> bool" where
  "browser_ok s (Sock_Opens i) \<longleftrightarrow> i < length (socks s) \<and> socks s ! i = CONNECTING"
| "browser_ok s (Sock_Closing i) \<longleftrightarrow> i < length (socks s) \<and> socks s ! i \<in> {CONNECTING, OPEN}"
| "browser_ok s (Sock_Closes i) \<longleftrightarrow> i < length (socks s) \<and> socks s ! i \<noteq> CLOSED"
| "browser_ok s (Sock_Text i text) \<longleftrightarrow> i < length (socks s) \<and> socks s ! i = OPEN"
| "browser_ok s (Timer_Fires k made) \<longleftrightarrow> k < length (timers s)"
| "browser_ok s (Online made) \<longleftrightarrow> True"

section \<open>Invariant\<close>

definition signaling_inv :: "signaling \<Rightarrow> bool" where
  "signaling_inv s \<longleftrightarrow>
     cur s < length (socks s) \<and>
     (\<forall>i < length (socks s). i \<noteq> cur s \<longrightarrow> socks s ! i \<in> {CLOSING, CLOSED}) \<and>
     \<not> closed s \<and> (socks s ! cur s = CLOSED \<longrightarrow> timers s \<noteq> []) \<and>
     (\<forall>d \<in> set (timers s). d \<le> 15000)"

lemma reconnect_now_inv:
  assumes "cur s < length (socks s)" and "\<not> closed s"
    and "\<forall>i < length (socks s). i \<noteq> cur s \<longrightarrow> socks s ! i \<in> {CLOSING, CLOSED}"
    and "\<forall>d \<in> set (timers s). d \<le> 15000"
  shows "signaling_inv (reconnect_now made s)"
  using assms next_backoff_le_cap [of "attempt s"]
  by (cases "socks s ! cur s")
     (auto simp: signaling_inv_def reconnect_now_def schedule_reconnect_def nth_append less_Suc_eq)

lemma signaling_step_inv:
  assumes "signaling_inv s" and "browser_ok s e"
  shows "signaling_inv (signaling_step parse s e)"
proof (cases e)
  case (Timer_Fires k made)
  show ?thesis
    unfolding Timer_Fires signaling_step.simps
    by (rule reconnect_now_inv)
       (use assms(1) in \<open>auto simp: signaling_inv_def dest: in_set_takeD in_set_dropD\<close>)
next
  case (Online made)
  have "signaling_inv (reconnect_now made (s\<lparr>attempt := 0\<rparr>))"
    by (rule reconnect_now_inv) (use assms(1) in \<open>auto simp: signaling_inv_def\<close>)
  with assms(1) show ?thesis by (simp add: Online on_online_def)
qed (use assms next_backoff_le_cap [of "attempt s"] in
     \<open>auto simp: signaling_inv_def set_state_def ws_onopen_def ws_onclose_def ws_onmessage_def
        schedule_reconnect_def Let_def nth_list_update split: option.splits\<close>)

interpretation signaling: invariant_machine "signaling_step parse" browser_ok signaling_inv
  by unfold_locales (rule signaling_step_inv)

lemma signaling_inv_connect: "signaling_inv signaling_connect"
  by (simp add: signaling_inv_def signaling_connect_def)

section \<open>Properties\<close>

definition signaling_after :: "(rstr \<Rightarrow> signal_msg option) \<Rightarrow> browser_event list \<Rightarrow> signaling" where
  "signaling_after parse es = run (signaling_step parse) signaling_connect es"

definition browser_history :: "(rstr \<Rightarrow> signal_msg option) \<Rightarrow> browser_event list \<Rightarrow> bool" where
  "browser_history parse es \<longleftrightarrow> run_ok browser_ok (signaling_step parse) signaling_connect es"

lemma signaling_after_inv: "browser_history parse es \<Longrightarrow> signaling_inv (signaling_after parse es)"
  unfolding browser_history_def signaling_after_def
  by (rule signaling.run_inv [OF signaling_inv_connect])

text \<open>An open connection that drops, a failed attempt to reconnect, and the \<open>online\<close> event.\<close>

definition demo_browser :: "browser_event list" where
  "demo_browser = [Sock_Opens 0, Sock_Closes 0, Timer_Fires 0 False, Online True, Timer_Fires 0 True]"

lemma demo_browser_ok: "browser_history (\<lambda>_. None) demo_browser"
  by (simp add: browser_history_def demo_browser_def signaling_connect_def set_state_def ws_onopen_def
      ws_onclose_def schedule_reconnect_def reconnect_now_def on_online_def Let_def)

text \<open>(C34) Timers that fire late, failed constructors and the \<open>online\<close> event never lead to two connections:
  in every history at most one socket connects or is open, and it is the one the client sends on.\<close>

theorem at_most_one_live_socket:
  assumes "browser_history parse es" and "i < length (socks (signaling_after parse es))"
    and "socks (signaling_after parse es) ! i = OPEN \<or> socks (signaling_after parse es) ! i = CONNECTING"
  shows "i = cur (signaling_after parse es)"
  using signaling_after_inv [OF assms(1)] assms(2,3) by (auto simp: signaling_inv_def)

theorem at_most_one_live_socket_witness:
  "1 = cur (signaling_after (\<lambda>_. None) demo_browser)"
  by (rule at_most_one_live_socket [OF demo_browser_ok])
     (simp_all add: demo_browser_def signaling_after_def signaling_connect_def set_state_def ws_onopen_def
        ws_onclose_def schedule_reconnect_def reconnect_now_def on_online_def Let_def)

text \<open>(C35) The client never gives up: whenever its socket has closed, a timer of at most 15 seconds is
  pending whose callback makes a new socket as soon as the constructor succeeds.\<close>

theorem closed_socket_is_retried:
  assumes "browser_history parse es"
  defines "s \<equiv> signaling_after parse es"
  assumes "socks s ! cur s = CLOSED"
  shows "\<exists>k < length (timers s). timers s ! k \<le> 15000 \<and>
    (let s' = signaling_step parse s (Timer_Fires k True)
      in cur s' = length (socks s) \<and> socks s' = socks s @ [CONNECTING])"
proof -
  have "signaling_inv s" unfolding s_def by (rule signaling_after_inv [OF assms(1)])
  then have "0 < length (timers s)" "timers s ! 0 \<le> 15000" "\<not> closed s"
    using assms(3) by (auto simp: signaling_inv_def)
  then show ?thesis
    using assms(3) by (intro exI [of _ 0]) (simp add: reconnect_now_def Let_def)
qed

theorem closed_socket_is_retried_witness:
  "\<exists>k < length (timers (signaling_after (\<lambda>_. None) (take 3 demo_browser))).
    timers (signaling_after (\<lambda>_. None) (take 3 demo_browser)) ! k \<le> 15000 \<and>
    (let s' = signaling_step (\<lambda>_. None) (signaling_after (\<lambda>_. None) (take 3 demo_browser)) (Timer_Fires k True)
      in cur s' = length (socks (signaling_after (\<lambda>_. None) (take 3 demo_browser))) \<and>
         socks s' = socks (signaling_after (\<lambda>_. None) (take 3 demo_browser)) @ [CONNECTING])"
  by (rule closed_socket_is_retried)
     (simp_all add: demo_browser_def browser_history_def signaling_after_def signaling_connect_def
        set_state_def ws_onopen_def ws_onclose_def schedule_reconnect_def reconnect_now_def Let_def)

text \<open>A drop can go unnoticed: if the \<open>online\<close> event arrives while the socket is still closing, the
  client replaces the socket and drops its handlers, so the close that follows is not reported
  and \<open>on_disconnect\<close> is never called for that connection.\<close>

theorem online_while_closing_hides_the_drop:
  assumes "browser_history parse es"
  defines "s \<equiv> signaling_after parse es"
  assumes "socks s ! cur s = CLOSING"
  defines "s1 \<equiv> signaling_step parse s (Online True)"
  defines "s2 \<equiv> signaling_step parse s1 (Sock_Closes (cur s))"
  shows "calls s2 = calls s \<and> timers s2 = timers s \<and> socks s2 ! cur s = CLOSED \<and>
    socks s2 ! cur s2 = CONNECTING"
proof -
  have "signaling_inv s" unfolding s_def by (rule signaling_after_inv [OF assms(1)])
  then have c: "cur s < length (socks s)" "\<not> closed s" by (auto simp: signaling_inv_def)
  then have "s1 = s\<lparr>attempt := 0, socks := socks s @ [CONNECTING], cur := length (socks s)\<rparr>"
    using assms(3) by (simp add: s1_def on_online_def reconnect_now_def)
  then show ?thesis using c by (auto simp: s2_def set_state_def Let_def nth_append nth_list_update)
qed

theorem online_while_closing_hides_the_drop_witness:
  "calls (signaling_after (\<lambda>_. None) [Sock_Opens 0, Sock_Closing 0, Online True, Sock_Closes 0]) = [On_Open]"
proof -
  let ?es = "[Sock_Opens 0, Sock_Closing 0]"
  have "browser_history (\<lambda>_. None) ?es" "socks (signaling_after (\<lambda>_. None) ?es) ! cur (signaling_after (\<lambda>_. None) ?es) = CLOSING"
    "calls (signaling_after (\<lambda>_. None) ?es) = [On_Open]" "cur (signaling_after (\<lambda>_. None) ?es) = 0"
    by (simp_all add: browser_history_def signaling_after_def signaling_connect_def set_state_def ws_onopen_def Let_def)
  with online_while_closing_hides_the_drop [of "\<lambda>_. None" ?es]
  have "calls (run (signaling_step (\<lambda>_. None)) (signaling_after (\<lambda>_. None) ?es) [Online True, Sock_Closes 0]) = [On_Open]"
    by simp
  then show ?thesis by (simp add: signaling_after_def)
qed

end
