(* ===== verification/Room_Link.thy ===== *)
theory Room_Link
  imports File_Kind Signal_Server
begin

text \<open>
  How a room code travels: from the server's generator into the share link and the URL hash, and
  back from a pasted link, a typed code or the hash (the string functions of
  \<open>crates/client/src/app.rs\<close>).
\<close>

section \<open>Rust's string functions\<close>

text \<open>\<open>char::is_whitespace\<close>: the Unicode property \<open>White_Space\<close>.\<close>

definition is_whitespace :: "nat \<Rightarrow> bool" where
  "is_whitespace c \<longleftrightarrow>
     9 \<le> c \<and> c \<le> 13 \<or> c = 32 \<or> c = 133 \<or> c = 160 \<or> c = 5760 \<or> 8192 \<le> c \<and> c \<le> 8202 \<or>
     c = 8232 \<or> c = 8233 \<or> c = 8239 \<or> c = 8287 \<or> c = 12288"

definition trim_start :: "(nat \<Rightarrow> bool) \<Rightarrow> rstr \<Rightarrow> rstr" where
  "trim_start p s = dropWhile p s"

definition trim_end :: "(nat \<Rightarrow> bool) \<Rightarrow> rstr \<Rightarrow> rstr" where
  "trim_end p s = rev (dropWhile p (rev s))"

definition trim_both :: "(nat \<Rightarrow> bool) \<Rightarrow> rstr \<Rightarrow> rstr" where
  "trim_both p s = trim_end p (trim_start p s)"

definition trim :: "rstr \<Rightarrow> rstr" where
  "trim s = trim_both is_whitespace s"

definition strip_prefix :: "rstr \<Rightarrow> rstr \<Rightarrow> rstr option" where
  "strip_prefix pat s = (if take (length pat) s = pat then Some (drop (length pat) s) else None)"

text \<open>\<open>s.rfind(pat)\<close> and the slice behind the match: what follows the last occurrence of \<open>pat\<close>.\<close>

fun after_last :: "rstr \<Rightarrow> rstr \<Rightarrow> rstr option" where
  "after_last pat [] = strip_prefix pat []"
| "after_last pat (c # cs) =
     (case after_last pat cs of Some r \<Rightarrow> Some r | None \<Rightarrow> strip_prefix pat (c # cs))"

definition is_slash :: "nat \<Rightarrow> bool" where
  "is_slash c \<longleftrightarrow> c = of_char (CHR ''/'')"

section \<open>The functions of the page\<close>

definition normalize_code :: "rstr \<Rightarrow> rstr" where
  "normalize_code raw =
     (let s = trim raw;
          code = (case after_last (lit ''room/'') s of
                    Some rest \<Rightarrow> trim (trim_both is_slash rest)
                  | None \<Rightarrow> s)
      in to_ascii_lowercase code)"

definition resolve_origin :: "rstr option \<Rightarrow> rstr \<Rightarrow> rstr" where
  "resolve_origin compile_time runtime =
     (case compile_time of
        Some o' \<Rightarrow> (if trim o' \<noteq> [] then trim_end is_slash (trim o') else runtime)
      | None \<Rightarrow> runtime)"

definition room_from_hash :: "rstr \<Rightarrow> rstr option" where
  "room_from_hash hash =
     (let trimmed = trim_start is_slash (trim_start (\<lambda>c. c = of_char (CHR ''#'')) hash)
      in case strip_prefix (lit ''room/'') trimmed of
           None \<Rightarrow> None
         | Some rest \<Rightarrow> (if rest = [] then None else Some rest))"

text \<open>The link and the fragment that \<open>PersistRoom\<close> builds.\<close>

definition share_link :: "rstr \<Rightarrow> rstr \<Rightarrow> rstr" where
  "share_link origin room = origin @ lit ''/#/room/'' @ room"

definition room_fragment :: "rstr \<Rightarrow> rstr" where
  "room_fragment room = lit ''/room/'' @ room"

section \<open>Trimming\<close>

lemma trim_start_skip: "\<forall>c \<in> set ws. p c \<Longrightarrow> trim_start p (ws @ s) = trim_start p s"
  by (simp add: trim_start_def)

lemma trim_end_skip: "\<forall>c \<in> set ws. p c \<Longrightarrow> trim_end p (s @ ws) = trim_end p s"
  by (simp add: trim_end_def dropWhile_append)

lemma trim_start_id: "s = [] \<or> \<not> p (hd s) \<Longrightarrow> trim_start p s = s"
  by (cases s) (auto simp: trim_start_def)

lemma trim_end_id: "s = [] \<or> \<not> p (last s) \<Longrightarrow> trim_end p s = s"
  by (cases s rule: rev_cases) (auto simp: trim_end_def)

text \<open>Text without a space at its ends is what remains of it when spaces are put around it.\<close>

lemma trim_both_padded:
  assumes "\<forall>c \<in> set us. p c" and "\<forall>c \<in> set vs. p c" and "s \<noteq> []" and "\<not> p (hd s)" and "\<not> p (last s)"
  shows "trim_both p (us @ s @ vs) = s"
proof -
  have "trim_start p (us @ s @ vs) = trim_start p (s @ vs)" using assms(1) by (rule trim_start_skip)
  also have "\<dots> = s @ vs" using assms(3,4) by (simp add: trim_start_id)
  finally show ?thesis using assms(2,3,5) by (simp add: trim_both_def trim_end_skip trim_end_id)
qed

lemma trim_both_clean: "\<forall>c \<in> set s. \<not> p c \<Longrightarrow> trim_both p s = s"
  by (cases "s = []") (simp_all add: trim_both_def trim_start_id trim_end_id)

section \<open>Finding the code in a link\<close>

lemma strip_prefix_append [simp]: "strip_prefix pat (pat @ s) = Some s"
  by (simp add: strip_prefix_def)

lemma strip_prefix_SomeD: "strip_prefix pat s = Some r \<Longrightarrow> s = pat @ r"
  by (auto simp: strip_prefix_def split: if_splits) (metis append_take_drop_id)

lemma after_last_SomeD: "after_last pat s = Some r \<Longrightarrow> \<exists>u. s = u @ pat @ r"
proof (induction s arbitrary: r)
  case Nil
  then show ?case by (auto dest: strip_prefix_SomeD)
next
  case (Cons c s)
  show ?case
  proof (cases "after_last pat s")
    case None
    with Cons.prems have "c # s = [] @ pat @ r" by (auto dest: strip_prefix_SomeD)
    then show ?thesis by blast
  next
    case (Some r')
    with Cons obtain u where "c # s = (c # u) @ pat @ r" by auto
    then show ?thesis by blast
  qed
qed

lemma after_last_none: "(\<nexists>u r. s = u @ pat @ r) \<Longrightarrow> after_last pat s = None"
  using after_last_SomeD [of pat s] by (cases "after_last pat s") auto

text \<open>If no later match begins behind the head of the last one, it is found.\<close>

lemma after_last_append:
  assumes "after_last pat (tl (pat @ r)) = None" and "pat \<noteq> []"
  shows "after_last pat (u @ pat @ r) = Some r"
proof (induction u)
  case Nil
  from assms obtain c cs where "pat @ r = c # cs" "after_last pat cs = None" by (cases pat) auto
  then show ?case using strip_prefix_append [of pat r] by simp
qed simp

lemma no_second_match:
  assumes "of_char (CHR ''o'') \<notin> set r"
  shows "after_last (lit ''room/'') (tl (lit ''room/'' @ r)) = None"
proof (rule after_last_none, clarify)
  fix u v
  assume eq: "tl (lit ''room/'' @ r) = u @ lit ''room/'' @ v"
  have "count_list (tl (lit ''room/'' @ r)) (of_char (CHR ''o'')) = 2"
    using assms by (simp add: count_list_0_iff)
  moreover have "count_list (tl (lit ''room/'' @ r)) (of_char (CHR ''o'')) =
      count_list u (of_char (CHR ''o'')) + (2 + count_list v (of_char (CHR ''o'')))" unfolding eq by simp
  ultimately have "of_char (CHR ''o'') \<notin> set u" by (simp add: count_list_0_iff)
  with eq show False by (cases u) simp_all
qed

section \<open>Codes of the server\<close>

lemma alphabet_clean:
  assumes "c \<in> set ROOM_ALPHABET"
  shows "\<not> is_whitespace c" and "\<not> is_slash c" and "c \<noteq> of_char (CHR ''o'')" and "\<not> (65 \<le> c \<and> c \<le> 90)"
    and "c \<noteq> of_char (CHR ''#'')"
proof -
  have "\<forall>c \<in> set ROOM_ALPHABET. \<not> is_whitespace c \<and> \<not> is_slash c \<and> c \<noteq> of_char (CHR ''o'') \<and>
      \<not> (65 \<le> c \<and> c \<le> 90) \<and> c \<noteq> of_char (CHR ''#'')"
    by (simp add: ROOM_ALPHABET_def is_whitespace_def is_slash_def)
  then show "\<not> is_whitespace c" "\<not> is_slash c" "c \<noteq> of_char (CHR ''o'')" "\<not> (65 \<le> c \<and> c \<le> 90)"
    "c \<noteq> of_char (CHR ''#'')" using assms by auto
qed

lemma alphabet_lowercase: "set code \<subseteq> set ROOM_ALPHABET \<Longrightarrow> to_ascii_lowercase code = code"
  unfolding to_ascii_lowercase_def by (rule map_idI) (use alphabet_clean(4) in force)

lemma slash_not_whitespace: "is_slash c \<Longrightarrow> \<not> is_whitespace c"
  by (simp add: is_slash_def is_whitespace_def)

text \<open>A code behind \<open>room/\<close>, with slashes behind it and spaces around.\<close>

lemma normalize_link:
  assumes code: "set code \<subseteq> set ROOM_ALPHABET" "code \<noteq> []"
    and us: "\<forall>c \<in> set us. is_whitespace c" and vs: "\<forall>c \<in> set vs. is_whitespace c" and sl: "\<forall>c \<in> set sl. is_slash c"
    and u: "u = [] \<or> \<not> is_whitespace (hd u)"
  shows "normalize_code (us @ (u @ lit ''room/'' @ code @ sl) @ vs) = code"
proof -
  let ?s = "u @ lit ''room/'' @ code @ sl"
  have last: "last (code @ sl) \<in> set code \<union> set sl" using code(2) last_in_set [of "code @ sl"] by simp
  then have "\<not> is_whitespace (last (code @ sl))"
    using code(1) sl alphabet_clean(1) slash_not_whitespace by blast
  moreover have "last ?s = last (code @ sl)" using code(2) by simp
  moreover have "\<not> is_whitespace (hd ?s)" using u by (cases u) (auto simp: is_whitespace_def)
  ultimately have "trim (us @ ?s @ vs) = ?s"
    unfolding trim_def using us vs by (intro trim_both_padded) simp_all
  moreover have "of_char (CHR ''o'') \<notin> set (code @ sl)"
    using code(1) sl alphabet_clean(3) by (auto simp: is_slash_def)
  then have "after_last (lit ''room/'') ?s = Some (code @ sl)"
    by (intro after_last_append no_second_match) simp_all
  moreover have "trim_both is_slash ([] @ code @ sl) = code"
    using code sl alphabet_clean(2) by (intro trim_both_padded) (auto simp: subset_iff)
  moreover have "trim code = code"
    unfolding trim_def using code(1) alphabet_clean(1) by (intro trim_both_clean) auto
  ultimately show ?thesis using alphabet_lowercase [OF code(1)] by (simp add: normalize_code_def Let_def)
qed

lemma no_room_in_code:
  assumes "of_char (CHR ''/'') \<notin> set s"
  shows "after_last (lit ''room/'') s = None"
  by (rule after_last_none) (use assms in auto)

text \<open>A code that is typed, in any case and with spaces around it.\<close>

lemma normalize_typed:
  assumes code: "set code \<subseteq> set ROOM_ALPHABET" "code \<noteq> []" and typed: "to_ascii_lowercase s = code"
    and us: "\<forall>c \<in> set us. is_whitespace c" and vs: "\<forall>c \<in> set vs. is_whitespace c"
  shows "normalize_code (us @ s @ vs) = code"
proof -
  have ne: "s \<noteq> []" using code(2) typed by (auto simp: to_ascii_lowercase_def)
  have clean: "\<not> is_whitespace c \<and> c \<noteq> of_char (CHR ''/'')" if "c \<in> set s" for c
  proof (cases "65 \<le> c \<and> c \<le> 90")
    case False
    with that have "c \<in> set code" unfolding typed [symmetric] by (force simp: to_ascii_lowercase_def)
    then show ?thesis using code(1) alphabet_clean(1,2) [of c] by (auto simp: is_slash_def)
  qed (auto simp: is_whitespace_def)
  have "trim (us @ s @ vs) = s"
    unfolding trim_def using us vs ne clean hd_in_set [OF ne] last_in_set [OF ne] by (intro trim_both_padded) auto
  moreover have "after_last (lit ''room/'') s = None" using clean by (intro no_room_in_code) auto
  ultimately show ?thesis using typed by (simp add: normalize_code_def Let_def)
qed

lemma resolve_origin_head:
  assumes "runtime = [] \<or> \<not> is_whitespace (hd runtime)"
  shows "resolve_origin ct runtime = [] \<or> \<not> is_whitespace (hd (resolve_origin ct runtime))"
proof (cases "\<exists>o'. ct = Some o' \<and> trim o' \<noteq> []")
  case True
  then obtain o' where o': "ct = Some o'" "trim o' \<noteq> []" by blast
  have prefix: "\<exists>ys. s = trim_end p s @ ys" for p and s :: rstr
    unfolding trim_end_def by (metis rev_append rev_rev_ident takeWhile_dropWhile_id)
  have head: "\<not> p (hd (trim_start p s))" if "trim_start p s \<noteq> []" for p and s :: rstr
    using that hd_dropWhile unfolding trim_start_def by blast
  obtain ys where ys: "trim o' = resolve_origin ct runtime @ ys"
    using prefix [of "trim o'" is_slash] o' by (auto simp: resolve_origin_def)
  obtain zs where zs: "trim_start is_whitespace o' = trim o' @ zs"
    using prefix [of "trim_start is_whitespace o'" is_whitespace] by (auto simp: trim_def trim_both_def)
  have "\<not> is_whitespace (hd (trim_start is_whitespace o'))" using zs o'(2) head [of is_whitespace o'] by simp
  then show ?thesis using o'(2) unfolding zs ys by (cases "resolve_origin ct runtime") auto
next
  case False
  then have "resolve_origin ct runtime = runtime" by (cases ct) (auto simp: resolve_origin_def)
  with assms show ?thesis by simp
qed

lemma hash_of_room:
  assumes "set code \<subseteq> set ROOM_ALPHABET" and "code \<noteq> []"
  shows "room_from_hash (lit ''#'' @ room_fragment code) = Some code"
  using assms(2) by (simp add: room_from_hash_def room_fragment_def trim_start_def is_slash_def strip_prefix_def)


section \<open>The round trip\<close>

text \<open>The code of a room survives every way it is passed on. Whatever six characters the
  generator draws from the server's alphabet: pasting the share link (with any origin, override or
  not, spaces around it and slashes behind it) gives back the code; so does typing it in capital
  letters; and a page that is loaded with the hash of the link joins that room.\<close>

theorem room_code_round_trip:
  fixes nanoid :: "'rnd \<Rightarrow> rstr \<Rightarrow> nat \<Rightarrow> rstr" and rnd and compile_time
  assumes nanoid: "\<And>r a n. a \<noteq> [] \<Longrightarrow> set (nanoid r a n) \<subseteq> set a \<and> length (nanoid r a n) = n"
    and runtime: "runtime = [] \<or> \<not> is_whitespace (hd runtime)"
    and spaces: "\<forall>c \<in> set us \<union> set vs. is_whitespace c"
  defines "code \<equiv> gen_room_id nanoid rnd" and "origin \<equiv> resolve_origin compile_time runtime"
  shows "normalize_code (us @ (share_link origin code @ replicate n (of_char (CHR ''/''))) @ vs) = code \<and>
    normalize_code (us @ to_ascii_uppercase code @ vs) = code \<and>
    room_from_hash (lit ''#'' @ room_fragment code) = Some code"
proof -
  have "ROOM_ALPHABET \<noteq> []" by (simp add: ROOM_ALPHABET_def)
  from nanoid [OF this, of rnd 6] have code: "set code \<subseteq> set ROOM_ALPHABET" and "length code = 6"
    by (simp_all add: code_def gen_room_id_def)
  then have ne: "code \<noteq> []" by auto
  have "origin @ lit ''/#/'' = [] \<or> \<not> is_whitespace (hd (origin @ lit ''/#/''))"
    using resolve_origin_head [OF runtime, of compile_time] by (auto simp: origin_def hd_append is_whitespace_def)
  then have "normalize_code (us @ ((origin @ lit ''/#/'') @ lit ''room/'' @ code @
      replicate n (of_char (CHR ''/''))) @ vs) = code"
    using spaces by (intro normalize_link [OF code ne]) (auto simp: is_slash_def)
  moreover have "share_link origin code = (origin @ lit ''/#/'') @ lit ''room/'' @ code" by (simp add: share_link_def)
  ultimately show ?thesis
    using normalize_typed [OF code ne, where s = "to_ascii_uppercase code" and us = us and vs = vs]
      hash_of_room [OF code ne] spaces alphabet_lowercase [OF code] by (simp add: lowercase_uppercase)
qed

definition demo_nanoid :: "unit \<Rightarrow> rstr \<Rightarrow> nat \<Rightarrow> rstr" where
  "demo_nanoid r a n = map (\<lambda>i. a ! (i mod length a)) [0..<n]"

lemma demo_nanoid_law: "a \<noteq> [] \<Longrightarrow> set (demo_nanoid r a n) \<subseteq> set a \<and> length (demo_nanoid r a n) = n"
  by (auto simp: demo_nanoid_def)

theorem room_code_round_trip_witness:
  "normalize_code (lit '' http://a.b/#/room/abcdef/ '') = lit ''abcdef''"
proof -
  have "gen_room_id demo_nanoid () = lit ''abcdef''"
    by (simp add: gen_room_id_def demo_nanoid_def ROOM_ALPHABET_def upt_rec)
  then show ?thesis
    using room_code_round_trip [OF demo_nanoid_law, where runtime = "lit ''http://a.b''" and us = "lit '' ''"
      and vs = "lit '' ''" and rnd = "()" and compile_time = None and n = 1]
    by (simp add: resolve_origin_def share_link_def is_whitespace_def)
qed

end
