(* ===== verification/Text_Format.thy ===== *)
theory Text_Format
  imports Binary64 Reconnect
begin

text \<open>
  The texts of the user interface (\<open>crates/client/src/ui.rs\<close>): the label of a status, sizes and
  rates in the units B to GB, percentages; with the parts of Rust's formatter that they use.
\<close>

section \<open>Rust's formatter\<close>

text \<open>\<open>{}\<close> of an unsigned integer: its decimal digits.\<close>

fun digits :: "nat \<Rightarrow> rstr" where
  "digits n = (if n < 10 then [48 + n] else digits (n div 10) @ [48 + n mod 10])"

declare digits.simps [simp del]

definition is_digit :: "nat \<Rightarrow> bool" where
  "is_digit c \<longleftrightarrow> 48 \<le> c \<and> c \<le> 57"

text \<open>The number that a list of digits denotes.\<close>

definition undigits :: "rstr \<Rightarrow> nat" where
  "undigits s = foldl (\<lambda>a c. 10 * a + (c - 48)) 0 s"

lemma undigits_digits [simp]: "undigits (digits n) = n"
proof (induction n rule: digits.induct)
  case (1 n)
  then show ?case by (subst digits.simps) (auto simp: undigits_def)
qed

lemma digits_is_digit: "c \<in> set (digits n) \<Longrightarrow> is_digit c"
proof (induction n rule: digits.induct)
  case (1 n)
  then show ?case by (subst (asm) digits.simps) (auto simp: is_digit_def split: if_splits)
qed

lemma digits_not_Nil [simp]: "digits n \<noteq> []"
  by (subst digits.simps) simp

lemma digits_small: "n < 10 \<Longrightarrow> digits n = [48 + n]"
  by (subst digits.simps) simp

lemma digits_step: "10 \<le> n \<Longrightarrow> digits n = digits (n div 10) @ [48 + n mod 10]"
  by (subst digits.simps) simp

lemmas digits_eval = digits_small digits_step

lemma digits_inject [simp]: "digits m = digits n \<longleftrightarrow> m = n"
  using undigits_digits by metis

text \<open>Digits followed by something else can be read back.\<close>

lemma digits_append_inject:
  assumes "digits m @ c # s = digits n @ d # t" and "\<not> is_digit c" and "\<not> is_digit d"
  shows "m = n \<and> c # s = d # t"
proof -
  have "takeWhile is_digit (digits m @ c # s) = digits m" "takeWhile is_digit (digits n @ d # t) = digits n"
    using assms(2,3) by (simp_all add: takeWhile_append digits_is_digit)
  then have "digits m = digits n" using assms(1) by simp
  with assms(1) show ?thesis by simp
qed

text \<open>\<open>{:.1}\<close>: the exact value rounded to tenths, ties to even.\<close>

definition tenths :: "nat \<Rightarrow> rstr" where
  "tenths n = digits (n div 10) @ lit ''.'' @ digits (n mod 10)"

fun fixed1 :: "f64 \<Rightarrow> rstr" where
  "fixed1 (Fin a) =
     (if a < 0 then lit ''-'' @ tenths (nat (round_even (- a * 10))) else tenths (nat (round_even (a * 10))))"
| "fixed1 (Inf s) = (if s then lit ''-inf'' else lit ''inf'')"
| "fixed1 NaN = lit ''NaN''"

text \<open>\<open>f64::round\<close>: to the nearest whole number, halves away from zero; and \<open>{}\<close> of the result.\<close>

fun f_round :: "f64 \<Rightarrow> f64" where
  "f_round (Fin a) = Fin (if a < 0 then - of_int \<lfloor>- a + 1 / 2\<rfloor> else of_int \<lfloor>a + 1 / 2\<rfloor>)"
| "f_round x = x"

fun f_mul :: "f64 \<Rightarrow> f64 \<Rightarrow> f64" where
  "f_mul (Fin a) (Fin b) = round_f64 (a * b)"
| "f_mul (Inf s) (Fin b) = (if b = 0 then NaN else Inf (s \<noteq> (b < 0)))"
| "f_mul (Fin a) (Inf s) = (if a = 0 then NaN else Inf (s \<noteq> (a < 0)))"
| "f_mul (Inf s) (Inf s') = Inf (s \<noteq> s')"
| "f_mul _ _ = NaN"

fun show_whole :: "f64 \<Rightarrow> rstr" where
  "show_whole (Fin a) = (if a < 0 then lit ''-'' @ digits (nat \<lfloor>- a\<rfloor>) else digits (nat \<lfloor>a\<rfloor>))"
| "show_whole (Inf s) = (if s then lit ''-inf'' else lit ''inf'')"
| "show_whole NaN = lit ''NaN''"

section \<open>The texts\<close>

text \<open>The two characters outside ASCII, the ellipsis and the dash, by their code points.\<close>

fun status_label :: "status \<Rightarrow> rstr" where
  "status_label StIdle = lit ''Idle''"
| "status_label StWaitingForPeer = lit ''Waiting for peer to join'' @ [8230]"
| "status_label StConnecting = lit ''Connecting'' @ [8230]"
| "status_label StConnected = lit ''Connected '' @ [8212] @ lit '' ready to transfer''"
| "status_label StReconnecting = lit ''Reconnecting'' @ [8230]"
| "status_label StPeerLeft = lit ''Peer disconnected''"
| "status_label StRoomFull = lit ''Room is full''"
| "status_label StRoomNotFound = lit ''Room not found or expired''"
| "status_label (StError e) = lit ''Couldn'' @ [39] @ lit ''t establish direct connection: '' @ e"

definition UNITS :: "rstr list" where
  "UNITS = [lit ''B'', lit ''KB'', lit ''MB'', lit ''GB'']"

text \<open>The loop of \<open>fmt_size\<close>: the value in the unit \<open>u\<close>.\<close>

function size_loop :: "f64 \<Rightarrow> nat \<Rightarrow> f64 \<times> nat" where
  "size_loop v u =
     (if f_le (f_int 1024) v \<and> u < length UNITS - 1 then size_loop (f_div v (f_int 1024)) (u + 1) else (v, u))"
  by pat_completeness auto
termination by (relation "measure (\<lambda>(v, u). length UNITS - u)") (auto simp: UNITS_def)

declare size_loop.simps [simp del]

definition fmt_size :: "f64 \<Rightarrow> rstr" where
  "fmt_size bytes =
     (let (v, u) = size_loop bytes 0 in
      if u = 0 then digits (unat (sat_cast v :: u64)) @ lit '' '' @ UNITS ! u
      else fixed1 v @ lit '' '' @ UNITS ! u)"

definition fmt_speed :: "f64 \<Rightarrow> rstr" where
  "fmt_speed bytes_per_sec = fmt_size bytes_per_sec @ lit ''/s''"

text \<open>The percentage of a fraction, in the label and as the width of the bar.\<close>

definition percent :: "f64 \<Rightarrow> rstr" where
  "percent f = show_whole (f_round (f_mul f (f_int 100)))"

section \<open>Sizes\<close>

text \<open>The unit in which a size of \<open>n\<close> bytes is shown, and its value there in tenths.\<close>

definition unit_of :: "int \<Rightarrow> nat" where
  "unit_of n = (if n < 1024 then 0 else if n < 1024 ^ 2 then 1 else if n < 1024 ^ 3 then 2 else 3)"

definition tenths_of :: "int \<Rightarrow> nat" where
  "tenths_of n = nat (round_even (of_int n / 1024 ^ unit_of n * 10))"

lemma kilo_power: "(1024 :: rat) ^ k = 2 ^ (10 * k)"
proof -
  have "(1024 :: rat) = 2 ^ 10" by simp
  then show ?thesis by (simp only: power_mult)
qed

text \<open>Dividing by 1024 only changes the exponent.\<close>

lemma f_div_1024:
  assumes "0 \<le> n" and "n < 2 ^ 53" and "k \<le> 2"
  shows "f_div (Fin (of_int n / 1024 ^ k)) (f_int 1024) = Fin (of_int n / 1024 ^ Suc k)"
proof -
  have "of_int n / (1024 :: rat) ^ Suc k = of_int n * 2 powi (- int (10 * Suc k))"
    unfolding kilo_power power_int_minus power_int_of_nat by (simp only: divide_inverse)
  then have "representable (of_int n / 1024 ^ Suc k)"
    by (rule representableI) (use assms in simp_all)
  moreover have "\<bar>of_int n / (1024 :: rat) ^ Suc k\<bar> < 2 ^ 1024"
  proof -
    have "(1 :: rat) \<le> 1024 ^ Suc k" by (rule one_le_power) simp
    then have "of_int n / (1024 :: rat) ^ Suc k \<le> of_int n / 1"
      using assms(1) by (intro frac_le) simp_all
    moreover have "0 \<le> of_int n / (1024 :: rat) ^ Suc k" using assms(1) by simp
    ultimately have "\<bar>of_int n / (1024 :: rat) ^ Suc k\<bar> \<le> of_int n" by simp
    also have "\<dots> < 2 ^ 1024" using int_below_overflow [of n] assms by simp
    finally show ?thesis .
  qed
  ultimately show ?thesis by (simp add: f_int_def round_f64_exact mult.commute)
qed

lemma size_loop_end: "u = 3 \<or> \<not> f_le (f_int 1024) v \<Longrightarrow> size_loop v u = (v, u)"
  by (subst size_loop.simps) (auto simp: UNITS_def)

lemma size_loop_next: "u < 3 \<Longrightarrow> f_le (f_int 1024) v \<Longrightarrow> size_loop v u = size_loop (f_div v (f_int 1024)) (u + 1)"
  by (subst size_loop.simps) (auto simp: UNITS_def)

lemma size_loop_int:
  assumes "0 \<le> n" and "n < 2 ^ 53"
  shows "size_loop (f_int n) 0 = (Fin (of_int n / 1024 ^ unit_of n), unit_of n)"
proof -
  have step: "size_loop (Fin (of_int n / 1024 ^ k)) k =
      (if n < 1024 ^ Suc k then (Fin (of_int n / 1024 ^ k), k)
       else size_loop (Fin (of_int n / 1024 ^ Suc k)) (Suc k))" if "k \<le> 2" for k
  proof -
    have "(of_int n < (1024 :: rat) ^ Suc k) = (n < 1024 ^ Suc k)"
      using of_int_less_iff [of n "1024 ^ Suc k", where 'a = rat] by simp
    then have "f_le (f_int 1024) (Fin (of_int n / 1024 ^ k)) \<longleftrightarrow> \<not> n < 1024 ^ Suc k"
      by (simp add: f_int_def pos_divide_less_eq flip: not_less)
    then show ?thesis
      using that f_div_1024 [OF assms that] by (simp add: size_loop_end size_loop_next)
  qed
  have "size_loop (f_int n) 0 = size_loop (Fin (of_int n / 1024 ^ 0)) 0" by (simp add: f_int_def)
  also have "\<dots> = (Fin (of_int n / 1024 ^ unit_of n), unit_of n)"
    using step [of 0] step [of 1] step [of 2]
    by (simp add: unit_of_def size_loop_end numeral_2_eq_2 numeral_3_eq_3)
  finally show ?thesis .
qed

lemma round_even_error: "\<bar>of_int (round_even x) - x\<bar> \<le> 1 / 2"
proof -
  have "of_int \<lfloor>x\<rfloor> \<le> x" "x < of_int \<lfloor>x\<rfloor> + 1" by linarith+
  then show ?thesis by (auto simp: round_even_def Let_def abs_le_iff)
qed

lemma tenth_of_half: "\<bar>r - y * 10\<bar> \<le> 1 / 2 \<Longrightarrow> \<bar>r / 10 - y\<bar> \<le> 1 / 20" for r y :: rat
  unfolding abs_le_iff by linarith

lemma tenths_of_bounds:
  assumes "0 \<le> n" and "unit_of n \<noteq> 0"
  shows "10 \<le> tenths_of n"
    and "\<bar>of_nat (tenths_of n) / 10 - of_int n / 1024 ^ unit_of n :: rat\<bar> \<le> 1 / 20"
proof -
  let ?x = "of_int n / 1024 ^ unit_of n * 10 :: rat"
  have "1024 ^ unit_of n \<le> n" using assms by (auto simp: unit_of_def split: if_splits)
  then have "of_int (1024 ^ unit_of n) \<le> (of_int n :: rat)" by (simp only: of_int_le_iff)
  then have "of_int 10 \<le> ?x" by (simp add: pos_le_divide_eq)
  then have ten: "10 \<le> round_even ?x" by (rule round_even_ge)
  then show "10 \<le> tenths_of n" by (simp add: tenths_of_def)
  have "of_nat (tenths_of n) = (of_int (round_even ?x) :: rat)"
    using ten by (simp add: tenths_of_def)
  then show "\<bar>of_nat (tenths_of n) / 10 - of_int n / 1024 ^ unit_of n :: rat\<bar> \<le> 1 / 20"
    using round_even_error [of ?x] tenth_of_half [of "of_int (round_even ?x)" "of_int n / 1024 ^ unit_of n"] by simp
qed

lemma fmt_size_int:
  assumes "0 \<le> n" and "n < 2 ^ 53"
  shows "fmt_size (f_int n) =
      (if n < 1024 then digits (nat n) else tenths (tenths_of n)) @ lit '' '' @ UNITS ! unit_of n"
proof (cases "n < 1024")
  case True
  then have u: "unit_of n = 0" by (simp add: unit_of_def)
  have "unat (sat_cast (f_int n) :: u64) = nat n"
    using sat_cast_int [of n, where 'a = 64] assms by (simp add: unat_eq_nat_uint)
  with True show ?thesis using assms size_loop_int [of n] by (simp add: fmt_size_def u f_int_def)
next
  case False
  then have u: "unit_of n \<noteq> 0" by (simp add: unit_of_def)
  have "\<not> of_int n / (1024 :: rat) ^ unit_of n < 0" using assms(1) by (simp add: not_less)
  then show ?thesis
    using False u assms size_loop_int [of n] by (simp add: fmt_size_def tenths_of_def)
qed

text \<open>A size below \<open>2\<^sup>5\<^sup>3\<close> bytes is shown in whole bytes below 1024, and otherwise in the largest unit
  of which it has at least one, up to GB, within a twentieth of the unit: dividing by 1024 in
  binary64 loses nothing, so only the last digit is rounded.\<close>

theorem sizes_are_shown_to_a_tenth:
  assumes "0 \<le> n" and "n < 2 ^ 53"
  shows "fmt_size (f_int n) =
      (if n < 1024 then digits (nat n) else tenths (tenths_of n)) @ lit '' '' @ UNITS ! unit_of n \<and>
    (n < 1024 \<or> 10 \<le> tenths_of n \<and>
      \<bar>of_nat (tenths_of n) / 10 - of_int n / 1024 ^ unit_of n :: rat\<bar> \<le> 1 / 20)"
  using fmt_size_int [OF assms] tenths_of_bounds [OF assms(1)]
  by (cases "n < 1024") (simp_all add: unit_of_def)

theorem sizes_are_shown_to_a_tenth_witness: "fmt_size (f_int 1536) = lit ''1.5 KB''"
proof -
  have "round_even (15 :: rat) = 15" using round_even_of_int [of 15] by simp
  then have "tenths_of 1536 = 15" by (simp add: tenths_of_def unit_of_def)
  then show ?thesis
    using sizes_are_shown_to_a_tenth [of 1536]
    by (simp add: unit_of_def UNITS_def tenths_def digits_eval)
qed

text \<open>The unit is chosen before the rounding, so a size just below a unit is shown as 1024.0 of the
  smaller one: \<open>2\<^sup>2\<^sup>0 - 1\<close> bytes read \<open>1024.0 KB\<close>, not \<open>1.0 MB\<close>.\<close>

theorem just_below_a_megabyte:
  "fmt_size (f_int (2 ^ 20 - 1)) = lit ''1024.0 KB'' \<and> fmt_size (f_int (2 ^ 20)) = lit ''1.0 MB''"
proof -
  have "\<lfloor>5242875 / 512 :: rat\<rfloor> = 10239" by (rule floor_unique) simp_all
  then have "round_even (5242875 / 512 :: rat) = 10240" by (simp add: round_even_def Let_def)
  then have "tenths_of (2 ^ 20 - 1) = 10240" by (simp add: tenths_of_def unit_of_def)
  moreover have "tenths_of (2 ^ 20) = 10"
    using round_even_of_int [of 10] by (simp add: tenths_of_def unit_of_def)
  ultimately show ?thesis
    using fmt_size_int [of "2 ^ 20 - 1"] fmt_size_int [of "2 ^ 20"]
    by (simp add: unit_of_def UNITS_def tenths_def digits_eval)
qed

end
