(* ===== verification/Qr_Svg.thy ===== *)
theory Qr_Svg
  imports Text_Format
begin

text \<open>
  The picture of the share link (\<open>crates/client/src/qr.rs\<close>). The encoder is the crate \<open>qrcode\<close>, a
  parameter: for a text it fails or yields the width of the symbol and the colours of its modules,
  row by row.
\<close>

section \<open>The picture\<close>

datatype color = Light | Dark

type_synonym encoder = "rstr \<Rightarrow> (nat \<times> color list) option"

definition rect_text :: "nat \<Rightarrow> nat \<Rightarrow> rstr" where
  \<open>rect_text x y =
     lit ''<rect x="'' @ digits x @ lit ''" y="'' @ digits y @ lit ''" width="1" height="1"/>''\<close>

definition svg_head :: "nat \<Rightarrow> rstr" where
  \<open>svg_head side =
     lit ''<svg xmlns="http://www.w3.org/2000/svg" viewBox="0 0 '' @ digits side @ lit '' '' @ digits side @
     lit ''" shape-rendering="crispEdges"><rect width="'' @ digits side @ lit ''" height="'' @ digits side @
     lit ''" fill="#ffffff"/><g fill="#0a0a0a">''\<close>

definition svg_tail :: rstr where
  \<open>svg_tail = lit ''</g></svg>''\<close>

text \<open>\<open>into_colors\<close> yields \<open>width * width\<close> colours, so the index is in range.\<close>

definition qr_svg :: "encoder \<Rightarrow> rstr \<Rightarrow> rstr" where
  "qr_svg encode data =
     (case encode data of
        None \<Rightarrow> []
      | Some (width, colors) \<Rightarrow>
          let quiet = 4; side = width + quiet * 2;
              rects = concat (map (\<lambda>y. concat (map (\<lambda>x.
                        if colors ! (y * width + x) = Dark then rect_text (x + quiet) (y + quiet) else [])
                        [0..<width])) [0..<width])
          in svg_head side @ rects @ svg_tail)"

section \<open>Reading the picture back\<close>

lemma rect_text_inject:
  assumes "rect_text x y @ s = rect_text x' y' @ s'"
  shows "x = x' \<and> y = y' \<and> s = s'"
proof -
  let ?C = \<open>lit ''" width="1" height="1"/>''\<close>
  have "digits x @ 34 # lit '' y='' @ 34 # digits y @ ?C @ s = digits x' @ 34 # lit '' y='' @ 34 # digits y' @ ?C @ s'"
    using assms by (simp add: rect_text_def)
  from digits_append_inject [OF this] have x: "x = x'" and "digits y @ ?C @ s = digits y' @ ?C @ s'"
    by (simp_all add: is_digit_def)
  then have "digits y @ 34 # tl ?C @ s = digits y' @ 34 # tl ?C @ s'" by simp
  from digits_append_inject [OF this] x show ?thesis by (simp add: is_digit_def)
qed

lemma rect_text_not_Nil [simp]: "rect_text x y \<noteq> []"
  by (simp add: rect_text_def)

lemma rects_inject:
  "concat (map (\<lambda>(x, y). rect_text x y) ps) @ svg_tail = concat (map (\<lambda>(x, y). rect_text x y) qs) @ svg_tail \<Longrightarrow>
     ps = qs"
proof (induction ps arbitrary: qs)
  case Nil
  then show ?case
    by (cases qs) (auto simp: case_prod_unfold)
next
  case (Cons p ps)
  then obtain q qs' where qs: "qs = q # qs'"
    by (cases qs) (auto simp: case_prod_unfold)
  with Cons.prems have "rect_text (fst p) (snd p) @ concat (map (\<lambda>(x, y). rect_text x y) ps) @ svg_tail =
      rect_text (fst q) (snd q) @ concat (map (\<lambda>(x, y). rect_text x y) qs') @ svg_tail"
    by (simp add: case_prod_unfold)
  from rect_text_inject [OF this] Cons.IH [of qs'] show ?case by (simp add: qs prod_eq_iff)
qed

text \<open>The dark modules in the order in which they are drawn, with the quiet zone added.\<close>

definition dark_squares :: "nat \<Rightarrow> color list \<Rightarrow> (nat \<times> nat) list" where
  "dark_squares width colors =
     concat (map (\<lambda>y. map (\<lambda>x. (x + 4, y + 4)) (filter (\<lambda>x. colors ! (y * width + x) = Dark) [0..<width]))
       [0..<width])"

lemma concat_if: "concat (map (\<lambda>x. if P x then f x else []) xs) = concat (map f (filter P xs))"
  by (induction xs) auto

lemma concat_map_concat: "concat (map g (concat xss)) = concat (map (\<lambda>xs. concat (map g xs)) xss)"
  by (induction xss) auto

lemma qr_svg_squares:
  assumes "encode data = Some (width, colors)"
  shows "qr_svg encode data =
     svg_head (width + 8) @ concat (map (\<lambda>(x, y). rect_text x y) (dark_squares width colors)) @ svg_tail"
  by (simp add: qr_svg_def assms Let_def concat_if dark_squares_def concat_map_concat comp_def)

lemma mem_dark_squares:
  "x < width \<Longrightarrow> y < width \<Longrightarrow>
     (x + 4, y + 4) \<in> set (dark_squares width colors) \<longleftrightarrow> colors ! (y * width + x) = Dark"
  by (auto simp: dark_squares_def)

lemma colors_eqI:
  assumes "length cs = w * w" and "length ds = w * w" and "dark_squares w cs = dark_squares w ds"
  shows "cs = ds"
proof (rule nth_equalityI)
  fix i assume "i < length cs"
  then have i: "i < w * w" using assms(1) by simp
  then have w: "i mod w < w" "i div w < w" by (cases w; simp add: less_mult_imp_div_less)+
  have "cs ! i = Dark \<longleftrightarrow> ds ! i = Dark"
    using mem_dark_squares [OF w, of cs] mem_dark_squares [OF w, of ds] assms(3) by simp
  then show "cs ! i = ds ! i" by (cases "cs ! i"; cases "ds ! i") auto
qed (simp add: assms)

lemma svg_head_inject:
  assumes "svg_head d @ s = svg_head d' @ s'"
  shows "d = d' \<and> s = s'"
proof -
  have "\<exists>t t'. digits d @ 32 # t = digits d' @ 32 # t'" using assms by (auto simp: svg_head_def)
  then have "d = d'" using digits_append_inject [of d 32 _ d' 32] by (auto simp: is_digit_def)
  with assms show ?thesis by simp
qed

text \<open>The picture determines the code: two texts that can be encoded and have the same picture have
  the same symbol, of the same width and with the same modules; a text that cannot be encoded has
  no picture.\<close>

theorem picture_determines_the_symbol:
  assumes "encode a = Some (w, cs)" and "encode b = Some (w', cs')"
    and "length cs = w * w" and "length cs' = w' * w'"
    and "qr_svg encode a = qr_svg encode b"
  shows "w = w' \<and> cs = cs' \<and> qr_svg encode a \<noteq> []"
proof -
  from svg_head_inject [OF assms(5) [unfolded qr_svg_squares [where encode = encode, OF assms(1)]
      qr_svg_squares [where encode = encode, OF assms(2)]]]
  have both: "w = w'" "dark_squares w cs = dark_squares w' cs'" by (auto intro: rects_inject)
  then have "cs = cs'" using assms(3,4) by (intro colors_eqI) simp_all
  with both show ?thesis unfolding qr_svg_squares [where encode = encode, OF assms(1)] by (simp add: svg_tail_def)
qed

text \<open>The demonstration encodes a text of four characters as a symbol of two by two modules.\<close>

definition demo_encode :: encoder where
  "demo_encode s = (if length s = 4 then Some (2, map (\<lambda>c. if odd c then Dark else Light) s) else None)"

theorem picture_determines_the_symbol_witness:
  "map odd [1, 2, 4, 7 :: nat] = map odd [3, 8, 6, 5 :: nat] \<and> qr_svg demo_encode [1, 2, 4, 7] \<noteq> []"
proof -
  have "demo_encode [1, 2, 4, 7] = Some (2, [Dark, Light, Light, Dark])"
    "demo_encode [3, 8, 6, 5] = Some (2, [Dark, Light, Light, Dark])" by (simp_all add: demo_encode_def)
  then show ?thesis
    using picture_determines_the_symbol [of demo_encode "[1, 2, 4, 7]" 2 "[Dark, Light, Light, Dark]"
        "[3, 8, 6, 5]" 2 "[Dark, Light, Light, Dark]"]
    by (simp add: qr_svg_def)
qed

end
