(* ===== verification/Client_App.thy ===== *)
theory Client_App
  imports Transfer_Engine Reconnect Signaling_Client Room_Link Qr_Svg
begin

text \<open>
  The page of \<open>crates/client/src/app.rs\<close>: the state that the closures of \<open>App\<close> share, the actions
  of the reconnect reducer carried out on it, and the handlers of the user's clicks. It owns the
  signaling client, the transfer engines and the list of rows of the other theories, and passes
  what one of them reports to the others.

  What leaves the page (WebRTC calls, the URL hash, the session storage) is recorded as a list of
  effects; what comes back is an event.
\<close>

section \<open>State\<close>

text \<open>What the build and the libraries provide: serde, the public origin, the QR encoder.\<close>

record 't platform =
  p_enc :: "control \<Rightarrow> 't"
  p_dec :: "'t \<Rightarrow> control option"
  p_parse :: "rstr \<Rightarrow> signal_msg option"
  p_origin :: rstr
  p_qr :: encoder

text \<open>Peer connections and transfers are numbered in the order in which they are made.\<close>

datatype effect =
    Create_Offer nat
  | Create_Answer nat rstr
  | Set_Remote_Answer nat rstr
  | Add_Candidate nat rstr
  | Close_Pc nat
  | Set_Hash rstr
  | Set_Session_Owns rstr
  | Reload
  | Set_Href rstr

text \<open>
  \<open>cl_pcs\<close> and \<open>cl_transfers\<close> are all that were made so far, \<open>cl_pc\<close> and \<open>cl_transfer\<close> the current
  ones. \<open>cl_log\<close> records what was done with which transfer; the program does not read it.
\<close>

record 't client =
  cl_status :: status
  cl_link :: rstr
  cl_code :: rstr
  cl_qr :: rstr
  cl_items :: "transfer list"
  cl_pcs :: nat
  cl_pc :: "nat option"
  cl_transfers :: "'t receiver list"
  cl_transfer :: "nat option"
  cl_sig :: "signaling option"
  cl_next_id :: u64
  cl_pending :: "(u64 \<times> js_file) list"
  cl_session :: session
  cl_last_ice :: "rstr option"
  cl_effects :: "effect list"
  cl_log :: "(nat \<times> 't engine_event) list"

text \<open>The page before its effect runs, with the hash and the session storage it was loaded with.\<close>

definition client_new :: "rstr \<Rightarrow> rstr option \<Rightarrow> 't client" where
  "client_new hash session_owns =
     \<lparr>cl_status = StIdle, cl_link = [], cl_code = [], cl_qr = [], cl_items = [], cl_pcs = 0, cl_pc = None,
      cl_transfers = [], cl_transfer = None, cl_sig = None, cl_next_id = 0, cl_pending = [],
      cl_session = \<lparr>room_in_hash = room_from_hash hash, owns = session_owns, reclaim_tried = False,
                    has_pc = False\<rparr>,
      cl_last_ice = None, cl_effects = [], cl_log = []\<rparr>"

definition emit :: "effect \<Rightarrow> 't client \<Rightarrow> 't client" where
  "emit x s = s\<lparr>cl_effects := cl_effects s @ [x]\<rparr>"

section \<open>Transfers and rows\<close>

text \<open>The handlers that a transfer calls, each a transition of the rows.\<close>

fun on_ui_call :: "ui_call \<Rightarrow> transfer list \<Rightarrow> transfer list" where
  "on_ui_call (On_Offer m) rows = incoming_offer rows m"
| "on_ui_call (On_Recv_Progress i name recv tot sp) rows = recv_progress rows i name recv tot sp"
| "on_ui_call (On_Recv_Complete i name) rows = recv_complete rows i name"
| "on_ui_call (On_Send_Progress i name snt tot) rows = send_progress rows i name snt tot"
| "on_ui_call (On_Rejected i) rows = mark_rejected rows i"
| "on_ui_call (On_Cancelled i) rows = mark_cancelled_remote rows i"
| "on_ui_call (On_Aborted i) rows = cancel rows i"

text \<open>A step of transfer \<open>k\<close>, with the calls it makes.\<close>

definition transfer_event :: "'t platform \<Rightarrow> nat \<Rightarrow> 't engine_event \<Rightarrow> 't client \<Rightarrow> 't client" where
  "transfer_event P k e s =
     (let r = cl_transfers s ! k; r' = engine_step (p_enc P) (p_dec P) r e
      in s\<lparr>cl_transfers := (cl_transfers s)[k := r'],
           cl_items := fold on_ui_call (drop (length (ui (page r))) (ui (page r'))) (cl_items s),
           cl_log := cl_log s @ [(k, e)]\<rparr>)"

text \<open>\<open>if let Some(t) = transfer.borrow().as_ref()\<close>\<close>

definition with_transfer :: "'t platform \<Rightarrow> 't page_event \<Rightarrow> 't client \<Rightarrow> 't client" where
  "with_transfer P e s =
     (case cl_transfer s of Some k \<Rightarrow> transfer_event P k (Page e) s | None \<Rightarrow> s)"

definition offer_now :: "'t platform \<Rightarrow> (u64 \<times> js_file) list \<Rightarrow> 't client \<Rightarrow> 't client" where
  "offer_now P files s =
     (let ids = map fst files; s = with_transfer P (User_Offers files) s
      in s\<lparr>cl_items := fold (\<lambda>i rows. mark_offered rows i) ids (cl_items s)\<rparr>)"

text \<open>\<open>wire_ctrl\<close>: a new transfer becomes the current one; \<open>ctrl_opens\<close> is its \<open>onopen\<close>.\<close>

definition wire_ctrl :: "'t client \<Rightarrow> 't client" where
  "wire_ctrl s =
     s\<lparr>cl_transfers := cl_transfers s @ [receiver_new], cl_transfer := Some (length (cl_transfers s))\<rparr>"

definition ctrl_opens :: "'t platform \<Rightarrow> nat \<Rightarrow> 't client \<Rightarrow> 't client" where
  "ctrl_opens P k s =
     (let s = transfer_event P k (Page (Ctrl_State True)) s;
          s = s\<lparr>cl_status := StConnected\<rparr>;
          queued = cl_pending s;
          s = s\<lparr>cl_pending := []\<rparr>
      in if queued \<noteq> [] then offer_now P queued s else s)"

section \<open>The actions of the reducer\<close>

definition sig_send :: "signal_msg \<Rightarrow> 't client \<Rightarrow> 't client" where
  "sig_send m s =
     (case cl_sig s of Some g \<Rightarrow> s\<lparr>cl_sig := Some (signaling_send m g)\<rparr> | None \<Rightarrow> s)"

text \<open>\<open>pc_err\<close> is the error of the constructor of the peer connection, if it fails.\<close>

definition build_pc :: "rstr option \<Rightarrow> 't client \<Rightarrow> nat option \<times> 't client" where
  "build_pc pc_err s =
     (case pc_err of
        Some e \<Rightarrow> (None, s\<lparr>cl_status := StError e\<rparr>)
      | None \<Rightarrow> (Some (cl_pcs s), s\<lparr>cl_pcs := cl_pcs s + 1, cl_pc := Some (cl_pcs s)\<rparr>))"

definition teardown_pc :: "'t client \<Rightarrow> 't client" where
  "teardown_pc s =
     (let s = (case cl_pc s of Some peer \<Rightarrow> emit (Close_Pc peer) (s\<lparr>cl_pc := None\<rparr>) | None \<Rightarrow> s)
      in s\<lparr>cl_transfer := None\<rparr>)"

fun execute :: "'t platform \<Rightarrow> rstr option \<Rightarrow> action \<Rightarrow> 't client \<Rightarrow> 't client" where
  "execute P pc_err SendCreate s = sig_send Create s"
| "execute P pc_err (SendJoin room) s = sig_send (Join room) s"
| "execute P pc_err (SendReclaim room) s = sig_send (Reclaim room) s"
| "execute P pc_err BuildPcAndOffer s =
     (case build_pc pc_err s of
        (None, s) \<Rightarrow> s
      | (Some peer, s) \<Rightarrow> emit (Create_Offer peer) (wire_ctrl s))"
| "execute P pc_err (BuildPcAndAnswer sdp) s =
     (case build_pc pc_err s of
        (None, s) \<Rightarrow> s
      | (Some peer, s) \<Rightarrow> emit (Create_Answer peer sdp) s)"
| "execute P pc_err (SetRemoteAnswer sdp) s =
     (case cl_pc s of Some peer \<Rightarrow> emit (Set_Remote_Answer peer sdp) s | None \<Rightarrow> s)"
| "execute P pc_err AddIce s =
     (case cl_last_ice s of
        None \<Rightarrow> s
      | Some candidate \<Rightarrow>
          (let s = s\<lparr>cl_last_ice := None\<rparr>
           in case cl_pc s of Some peer \<Rightarrow> emit (Add_Candidate peer candidate) s | None \<Rightarrow> s))"
| "execute P pc_err TeardownPc s = teardown_pc s"
| "execute P pc_err (SetStatus st) s = s\<lparr>cl_status := st\<rparr>"
| "execute P pc_err (PersistRoom room) s =
     (let link = share_link (p_origin P) room;
          s = s\<lparr>cl_qr := qr_svg (p_qr P) link, cl_link := link\<rparr>;
          s = emit (Set_Hash (room_fragment room)) s;
          s = emit (Set_Session_Owns room) s
      in s\<lparr>cl_code := room\<rparr>)"

definition react :: "'t platform \<Rightarrow> rstr option \<Rightarrow> event \<Rightarrow> 't client \<Rightarrow> 't client" where
  "react P pc_err ev s =
     (let (actions, sess) = step_session (cl_session s) ev
      in fold (execute P pc_err) actions (s\<lparr>cl_session := sess\<rparr>))"

text \<open>The translation of a message into an event of the reducer; a candidate is kept aside.\<close>

fun to_event :: "signal_msg \<Rightarrow> 't client \<Rightarrow> event option \<times> 't client" where
  "to_event (Created room) s = (Some (EvCreated room), s)"
| "to_event PeerJoined s = (Some EvPeerJoined, s)"
| "to_event (Sdp sdp kind) s = (Some (if kind = lit ''offer'' then EvOffer sdp else EvAnswer sdp), s)"
| "to_event (Ice candidate) s = (Some EvIce, s\<lparr>cl_last_ice := Some candidate\<rparr>)"
| "to_event PeerLeft s = (Some EvPeerLeft, s)"
| "to_event RoomFull s = (Some EvRoomFull, s)"
| "to_event RoomNotFound s = (Some EvRoomNotFound, s)"
| "to_event _ s = (None, s)"

definition on_message :: "'t platform \<Rightarrow> rstr option \<Rightarrow> signal_msg \<Rightarrow> 't client \<Rightarrow> 't client" where
  "on_message P pc_err m s =
     (case to_event m s of (None, s) \<Rightarrow> s | (Some ev, s) \<Rightarrow> react P pc_err ev s)"

definition on_disconnect :: "'t client \<Rightarrow> 't client" where
  "on_disconnect s =
     (let s = s\<lparr>cl_status := StReconnecting, cl_items := mark_all_active_cancelled (cl_items s)\<rparr>;
          s = teardown_pc s
      in s\<lparr>cl_session := (cl_session s)\<lparr>has_pc := False, reclaim_tried := False\<rparr>\<rparr>)"

fun on_callback :: "'t platform \<Rightarrow> rstr option \<Rightarrow> callback \<Rightarrow> 't client \<Rightarrow> 't client" where
  "on_callback P pc_err On_Open s = react P pc_err EvOpen s"
| "on_callback P pc_err On_Disconnect s = on_disconnect s"
| "on_callback P pc_err (On_Msg m) s = on_message P pc_err m s"

text \<open>The effect that runs when the page is shown; \<open>err\<close> is the error of \<open>Signaling::connect\<close>.\<close>

definition mount :: "rstr option \<Rightarrow> 't client \<Rightarrow> 't client" where
  "mount err s =
     (let s = s\<lparr>cl_status := StConnecting\<rparr>
      in case err of
           Some e \<Rightarrow> s\<lparr>cl_status := StError e\<rparr>
         | None \<Rightarrow> s\<lparr>cl_sig := Some signaling_connect\<rparr>)"

text \<open>An event of the browser for the signaling client, with the callbacks it makes.\<close>

definition sig_event :: "'t platform \<Rightarrow> rstr option \<Rightarrow> browser_event \<Rightarrow> 't client \<Rightarrow> 't client" where
  "sig_event P pc_err e s =
     (case cl_sig s of
        None \<Rightarrow> s
      | Some g \<Rightarrow>
          (let g' = signaling_step (p_parse P) g e
           in fold (on_callback P pc_err) (drop (length (calls g)) (calls g')) (s\<lparr>cl_sig := Some g'\<rparr>)))"

section \<open>The user\<close>

text \<open>Every file gets its id and its row at once.\<close>

fun add_rows :: "js_file list \<Rightarrow> 't client \<Rightarrow> (u64 \<times> js_file) list \<times> 't client" where
  "add_rows [] s = ([], s)"
| "add_rows (f # fs) s =
     (let i = cl_next_id s;
          s = s\<lparr>cl_next_id := i + 1\<rparr>;
          s = s\<lparr>cl_items := push_outgoing_pending (cl_items s) i (jf_name f) (file_size f)\<rparr>;
          (batch, s) = add_rows fs s
      in ((i, f) # batch, s))"

definition is_open :: "'t client \<Rightarrow> bool" where
  "is_open s = (case cl_transfer s of Some k \<Rightarrow> ctrl_open (page (cl_transfers s ! k)) | None \<Rightarrow> False)"

definition on_files :: "'t platform \<Rightarrow> js_file list \<Rightarrow> 't client \<Rightarrow> 't client" where
  "on_files P files s =
     (if files = [] then s
      else
        (let (batch, s) = add_rows files s
         in if is_open s then offer_now P batch s
            else s\<lparr>cl_pending := cl_pending s @ batch\<rparr>))"

definition on_accept :: "'t platform \<Rightarrow> u64 \<Rightarrow> 't client \<Rightarrow> 't client" where
  "on_accept P i s = (let s = with_transfer P (User_Accept i) s in s\<lparr>cl_items := accept (cl_items s) i\<rparr>)"

definition on_decline :: "'t platform \<Rightarrow> u64 \<Rightarrow> 't client \<Rightarrow> 't client" where
  "on_decline P i s = (let s = with_transfer P (User_Reject i) s in s\<lparr>cl_items := decline (cl_items s) i\<rparr>)"

definition on_cancel :: "'t platform \<Rightarrow> u64 \<Rightarrow> 't client \<Rightarrow> 't client" where
  "on_cancel P i s = (let s = with_transfer P (User_Cancel i) s in s\<lparr>cl_items := cancel (cl_items s) i\<rparr>)"

definition on_cancel_send :: "'t platform \<Rightarrow> u64 \<Rightarrow> 't client \<Rightarrow> 't client" where
  "on_cancel_send P i s =
     (let s = with_transfer P (User_Abort i) s in s\<lparr>cl_items := mark_cancelled_remote (cl_items s) i\<rparr>)"

definition on_accept_all :: "'t platform \<Rightarrow> 't client \<Rightarrow> 't client" where
  "on_accept_all P s =
     (let ids = pending_incoming_ids (cl_items s);
          s = fold (\<lambda>i. with_transfer P (User_Accept i)) ids s
      in s\<lparr>cl_items := accept_all (cl_items s) ids\<rparr>)"

definition on_join :: "rstr \<Rightarrow> 't client \<Rightarrow> 't client" where
  "on_join raw s =
     (let code = normalize_code raw
      in if code = [] then s else emit Reload (emit (Set_Hash (room_fragment code)) s))"

text \<open>The button of a page that has found no room.\<close>

definition on_new_room :: "'t client \<Rightarrow> 't client" where
  [simp]: "on_new_room s = emit (Set_Href (lit ''/'')) s"

section \<open>The machine\<close>

text \<open>
  \<open>Offer_Made\<close> and \<open>Answer_Made\<close> are the ends of \<open>create_offer\<close> and \<open>create_answer\<close>; when one fails
  nothing is sent and no event happens. \<open>Ctrl_Channel\<close> is an inbound channel with the label of the
  control channel; channels with other labels are routers of the transfer.
\<close>

datatype 't client_event =
    Mount "rstr option"
  | Sig_Event "rstr option" browser_event
  | Offer_Made rstr
  | Answer_Made rstr
  | Local_Candidate rstr
  | Ctrl_Channel
  | Ctrl_Opens nat
  | Transfer_Event nat "'t engine_event"
  | Add_Files "js_file list"
  | Click_Accept u64
  | Click_Decline u64
  | Click_Cancel u64
  | Click_Cancel_Send u64
  | Click_Accept_All
  | Join_Room rstr
  | Click_New_Room

fun client_step :: "'t platform \<Rightarrow> 't client \<Rightarrow> 't client_event \<Rightarrow> 't client" where
  "client_step P s (Mount err) = mount err s"
| "client_step P s (Sig_Event pc_err e) = sig_event P pc_err e s"
| "client_step P s (Offer_Made sdp) = sig_send (Sdp sdp (lit ''offer'')) s"
| "client_step P s (Answer_Made sdp) = sig_send (Sdp sdp (lit ''answer'')) s"
| "client_step P s (Local_Candidate c) = sig_send (Ice c) s"
| "client_step P s Ctrl_Channel = wire_ctrl s"
| "client_step P s (Ctrl_Opens k) = ctrl_opens P k s"
| "client_step P s (Transfer_Event k e) = transfer_event P k e s"
| "client_step P s (Add_Files files) = on_files P files s"
| "client_step P s (Click_Accept i) = on_accept P i s"
| "client_step P s (Click_Decline i) = on_decline P i s"
| "client_step P s (Click_Cancel i) = on_cancel P i s"
| "client_step P s (Click_Cancel_Send i) = on_cancel_send P i s"
| "client_step P s Click_Accept_All = on_accept_all P s"
| "client_step P s (Join_Room raw) = on_join raw s"
| "client_step P s Click_New_Room = on_new_room s"

end
