(* ===== verification/Client_Properties.thy ===== *)
theory Client_Properties
  imports Client_App
begin

text \<open>
  What the page guarantees as a whole: which files reach which transfer, that every transfer runs
  the engine of \<open>Transfer_Engine\<close> under its assumptions, and that the rows stay keyed.
\<close>

section \<open>Histories\<close>

text \<open>
  What the browser does: the signaling client gets the events its sockets can have; the control
  channel that opens is that of the current transfer (those of closed connections stay closed); a
  transfer gets messages and its running tasks are polled.
\<close>

fun net_event :: "'t engine_event \<Rightarrow> bool" where
  "net_event (Page (Channel_Msg k now dl p)) \<longleftrightarrow> True"
| "net_event (Page (Ctrl_Msg p)) \<longleftrightarrow> True"
| "net_event (Page (Ctrl_State opened)) \<longleftrightarrow> \<not> opened"
| "net_event (Poll k env) \<longleftrightarrow> True"
| "net_event _ \<longleftrightarrow> False"

fun client_ok :: "'t client \<Rightarrow> 't client_event \<Rightarrow> bool" where
  "client_ok s (Mount err) \<longleftrightarrow> cl_sig s = None"
| "client_ok s (Sig_Event pc_err e) \<longleftrightarrow> (case cl_sig s of Some g \<Rightarrow> browser_ok g e | None \<Rightarrow> False)"
| "client_ok s (Ctrl_Opens k) \<longleftrightarrow> cl_transfer s = Some k"
| "client_ok s (Transfer_Event k e) \<longleftrightarrow>
     k < length (cl_transfers s) \<and> net_event e \<and> engine_ok (cl_transfers s ! k) e"
| "client_ok s _ \<longleftrightarrow> True"

fun added_by :: "'t client_event \<Rightarrow> js_file list" where
  "added_by (Add_Files files) = files"
| "added_by _ = []"

definition files_added :: "'t client_event list \<Rightarrow> js_file list" where
  "files_added es = concat (map added_by es)"

definition client_after :: "'t platform \<Rightarrow> rstr \<Rightarrow> rstr option \<Rightarrow> 't client_event list \<Rightarrow> 't client" where
  "client_after P hash session_owns es = run (client_step P) (client_new hash session_owns) es"

text \<open>The user adds fewer than \<open>2\<^sup>6\<^sup>4\<close> files, of at most \<open>2\<^sup>5\<^sup>3\<close> bytes.\<close>

definition client_history :: "'t platform \<Rightarrow> rstr \<Rightarrow> rstr option \<Rightarrow> 't client_event list \<Rightarrow> bool" where
  "client_history P hash session_owns es \<longleftrightarrow>
     run_ok client_ok (client_step P) (client_new hash session_owns) es \<and>
     length (files_added es) < 2 ^ 64 \<and> (\<forall>f \<in> set (files_added es). length (jf_bytes f) \<le> 2 ^ 53)"

section \<open>Files\<close>

text \<open>The ids count up from 0.\<close>

definition numbered :: "js_file list \<Rightarrow> (u64 \<times> js_file) list" where
  "numbered fs = zip (map of_nat [0..<length fs]) fs"

lemma numbered_simps [simp]:
  "numbered [] = []" "map snd (numbered fs) = fs" "map fst (numbered fs) = map of_nat [0..<length fs]"
  "numbered (fs @ [f]) = numbered fs @ [(of_nat (length fs), f)]"
  by (simp_all add: numbered_def)

lemma distinct_ids: "length fs < 2 ^ 64 \<Longrightarrow> distinct (map fst (numbered fs))"
  by (auto simp: distinct_map inj_on_def dest!: arg_cong [where f = unat] simp: unat_of_nat_u64)

text \<open>The events of one transfer.\<close>

definition events_of :: "nat \<Rightarrow> (nat \<times> 't engine_event) list \<Rightarrow> 't engine_event list" where
  "events_of k lg = map snd (filter (\<lambda>(j, _). j = k) lg)"

lemma events_of_simps [simp]:
  "events_of k [] = []" "events_of k (lg @ [(j, e)]) = events_of k lg @ (if j = k then [e] else [])"
  by (simp_all add: events_of_def)

lemma all_offers_simps [simp]:
  "all_offers [] = []" "all_offers (es @ [e]) = all_offers es @ offered_by e"
  by (simp_all add: all_offers_def)

text \<open>
  Every transfer has run on what the log says was done with it, and the files that were offered so
  far, followed by those that wait, are the files of the user in order.
\<close>

definition engines_inv :: "'t platform \<Rightarrow> 't client \<Rightarrow> bool" where
  "engines_inv P s \<longleftrightarrow>
     (\<forall>k < length (cl_transfers s).
        cl_transfers s ! k = run (engine_step (p_enc P) (p_dec P)) receiver_new (events_of k (cl_log s)) \<and>
        run_ok engine_ok (engine_step (p_enc P) (p_dec P)) receiver_new (events_of k (cl_log s))) \<and>
     (\<forall>(k, e) \<in> set (cl_log s). k < length (cl_transfers s)) \<and>
     (\<forall>k. cl_transfer s = Some k \<longrightarrow> k < length (cl_transfers s))"

definition files_inv :: "js_file list \<Rightarrow> 't client \<Rightarrow> bool" where
  "files_inv fs s \<longleftrightarrow>
     all_offers (map snd (cl_log s)) @ cl_pending s = numbered fs \<and>
     cl_next_id s = of_nat (length fs) \<and> (is_open s \<longrightarrow> cl_pending s = [])"

lemma inv_cong:
  assumes "cl_transfers s' = cl_transfers s" and "cl_transfer s' = cl_transfer s" and "cl_log s' = cl_log s"
    and "cl_pending s' = cl_pending s" and "cl_next_id s' = cl_next_id s"
  shows "engines_inv P s' = engines_inv P s" and "files_inv fs s' = files_inv fs s"
  unfolding engines_inv_def files_inv_def is_open_def assms by (rule refl)+

text \<open>A transfer that is dropped.\<close>

lemma inv_no_transfer:
  assumes "cl_transfers s' = cl_transfers s" and "cl_transfer s' = None" and "cl_log s' = cl_log s"
    and "cl_pending s' = cl_pending s" and "cl_next_id s' = cl_next_id s"
  shows "engines_inv P s \<Longrightarrow> engines_inv P s'" and "files_inv fs s \<Longrightarrow> files_inv fs s'"
  using assms by (simp_all add: engines_inv_def files_inv_def is_open_def)

subsection \<open>A step of a transfer\<close>

lemma ctrl_open_frame [simp]:
  "ctrl_open (ctrl_send t s) = ctrl_open s" "ctrl_open (call_ui c s) = ctrl_open s"
  "ctrl_open (pump s) = ctrl_open s" "ctrl_open (trigger_download dl f s) = ctrl_open s"
  by (simp_all add: ctrl_send_def call_ui_def pump_def spawn_def trigger_download_def Let_def case_prod_unfold)

lemma ctrl_open_offers [simp]: "ctrl_open (offer_files enc files s) = ctrl_open s"
  by (induction enc files s rule: offer_files.induct) (simp_all add: Let_def)

lemma ctrl_open_frame2 [simp]:
  "ctrl_open (ctrl_frame c s) = ctrl_open s" "ctrl_open (start_incoming m s) = ctrl_open s"
  "ctrl_open (recv_chunk now i b s) = ctrl_open s" "ctrl_open (finalize_recv ok i s) = ctrl_open s"
  "ctrl_open (finish_sending k s) = ctrl_open s"
  by (cases c) (auto simp: start_incoming_def recv_chunk_def finalize_recv_def finish_sending_def Let_def
      case_prod_unfold split: option.split)

lemma ctrl_open_poll: "poll_sending enc env k s = Some s' \<Longrightarrow> ctrl_open s' = ctrl_open s"
  by (auto simp: poll_sending_def Let_def split: option.splits if_splits)

lemma ctrl_open_page:
  "ctrl_open (page (page_step enc dec r e)) = (case e of Ctrl_State opened \<Rightarrow> opened | _ \<Rightarrow> ctrl_open (page r))"
proof (cases e)
  case (Channel_Msg k now dl p)
  then show ?thesis
    by (auto simp: recv_router_def split: packet.split option.split control.split)
qed (auto simp: ctrl_router_def transfer_accept_def transfer_reject_def transfer_cancel_def
       transfer_abort_def Let_def split: packet.split option.split)

lemma ctrl_open_step:
  "ctrl_open (page (engine_step enc dec r e)) =
     (case e of Page (Ctrl_State opened) \<Rightarrow> opened | _ \<Rightarrow> ctrl_open (page r))"
proof (cases e)
  case (Page e')
  then show ?thesis by (auto simp: ctrl_open_page split: page_event.split)
next
  case (Poll k env)
  then show ?thesis by (simp split: option.split) (simp add: ctrl_open_poll)
qed

lemma transfer_event_simps [simp]:
  "cl_transfer (transfer_event P k e s) = cl_transfer s" "cl_pending (transfer_event P k e s) = cl_pending s"
  "cl_next_id (transfer_event P k e s) = cl_next_id s" "cl_log (transfer_event P k e s) = cl_log s @ [(k, e)]"
  "length (cl_transfers (transfer_event P k e s)) = length (cl_transfers s)"
  "cl_transfers (transfer_event P k e s) =
     (cl_transfers s)[k := engine_step (p_enc P) (p_dec P) (cl_transfers s ! k) e]"
  "cl_sig (transfer_event P k e s) = cl_sig s" "cl_session (transfer_event P k e s) = cl_session s"
  "cl_pc (transfer_event P k e s) = cl_pc s"
  by (simp_all add: transfer_event_def Let_def)

lemma engines_transfer_event:
  assumes "engines_inv P s" and "k < length (cl_transfers s)" and "engine_ok (cl_transfers s ! k) e"
  shows "engines_inv P (transfer_event P k e s)"
  using assms by (auto simp: engines_inv_def nth_list_update run_ok_append)

lemma is_open_transfer_event:
  assumes "k < length (cl_transfers s)" and "e \<noteq> Page (Ctrl_State True)"
  shows "is_open (transfer_event P k e s) \<Longrightarrow> is_open s"
  using assms
  by (auto simp: is_open_def nth_list_update ctrl_open_step
      split: option.splits engine_event.splits page_event.splits if_splits)

lemma files_transfer_event:
  assumes "files_inv fs s" and "k < length (cl_transfers s)" and "e \<noteq> Page (Ctrl_State True)" and "offered_by e = []"
  shows "files_inv fs (transfer_event P k e s)"
  using assms is_open_transfer_event [OF assms(2,3), of P] by (auto simp: files_inv_def)

text \<open>What the user does to the current transfer.\<close>

lemma inv_with_transfer:
  assumes "engines_inv P s"
  shows "engines_inv P (with_transfer P e s)"
    and "files_inv fs s \<Longrightarrow> offered_by (Page e) = [] \<Longrightarrow> e \<noteq> Ctrl_State True \<Longrightarrow> files_inv fs (with_transfer P e s)"
  using assms
  by (auto simp: with_transfer_def engines_inv_def [of P s] split: option.splits
      intro!: engines_transfer_event files_transfer_event)


subsection \<open>Steps that leave the transfers alone\<close>

definition page_inv :: "'t platform \<Rightarrow> js_file list \<Rightarrow> 't client \<Rightarrow> bool" where
  "page_inv P fs s \<longleftrightarrow> engines_inv P s \<and> files_inv fs s"

lemma page_inv_cong:
  assumes "cl_transfers s' = cl_transfers s" and "cl_transfer s' = cl_transfer s" and "cl_log s' = cl_log s"
    and "cl_pending s' = cl_pending s" and "cl_next_id s' = cl_next_id s"
  shows "page_inv P fs s' = page_inv P fs s"
  unfolding page_inv_def inv_cong [OF assms] by (rule refl)

lemma page_inv_with_transfer [inv_intros]:
  "page_inv P fs s \<Longrightarrow> offered_by (Page e) = [] \<Longrightarrow> e \<noteq> Ctrl_State True \<Longrightarrow> page_inv P fs (with_transfer P e s)"
  by (simp add: page_inv_def inv_with_transfer)

lemma page_inv_fold_transfer [inv_intros]:
  "page_inv P fs s \<Longrightarrow> page_inv P fs (fold (\<lambda>i. with_transfer P (User_Accept i)) ids s)"
  by (induction ids arbitrary: s) (simp_all add: page_inv_with_transfer)

lemma page_inv_updates [simp]:
  "page_inv P fs (s\<lparr>cl_items := rows\<rparr>) = page_inv P fs s"
  "page_inv P fs (s\<lparr>cl_status := st\<rparr>) = page_inv P fs s"
  "page_inv P fs (s\<lparr>cl_session := sess\<rparr>) = page_inv P fs s"
  "page_inv P fs (s\<lparr>cl_sig := g\<rparr>) = page_inv P fs s"
  "page_inv P fs (s\<lparr>cl_last_ice := c\<rparr>) = page_inv P fs s"
  "page_inv P fs (s\<lparr>cl_pc := p\<rparr>) = page_inv P fs s"
  "page_inv P fs (s\<lparr>cl_pcs := n\<rparr>) = page_inv P fs s"
  "page_inv P fs (s\<lparr>cl_qr := q\<rparr>) = page_inv P fs s"
  "page_inv P fs (s\<lparr>cl_link := q\<rparr>) = page_inv P fs s"
  "page_inv P fs (s\<lparr>cl_code := q\<rparr>) = page_inv P fs s"
  "page_inv P fs (emit x s) = page_inv P fs s"
  "page_inv P fs (sig_send m s) = page_inv P fs s"
  by (rule page_inv_cong; simp add: emit_def sig_send_def split: option.split)+

lemma page_inv_build [simp]: "page_inv P fs (snd (build_pc pc_err s)) = page_inv P fs s"
  by (simp add: build_pc_def split: option.split)

lemma page_inv_wire [inv_intros]:
  assumes "page_inv P fs s"
  shows "page_inv P fs (wire_ctrl s)"
proof -
  have "events_of (length (cl_transfers s)) (cl_log s) = []"
    using assms by (fastforce simp: page_inv_def engines_inv_def events_of_def filter_empty_conv)
  moreover have "\<not> is_open (wire_ctrl s)"
    by (simp add: is_open_def wire_ctrl_def receiver_new_def transfer_new_def)
  ultimately show ?thesis
    using assms by (auto simp: page_inv_def engines_inv_def files_inv_def wire_ctrl_def nth_append less_Suc_eq)
qed

lemma page_inv_teardown [inv_intros]: "page_inv P fs s \<Longrightarrow> page_inv P fs (teardown_pc s)"
  unfolding page_inv_def
  by (auto simp: teardown_pc_def emit_def Let_def split: option.split elim!: inv_no_transfer [rotated -1])

lemma page_inv_execute [inv_intros]: "page_inv P fs s \<Longrightarrow> page_inv P fs (execute P pc_err a s)"
proof (cases a)
  case BuildPcAndOffer
  assume "page_inv P fs s"
  then have "page_inv P fs (snd (build_pc pc_err s))" by simp
  then show ?thesis
    by (cases "build_pc pc_err s") (auto simp: BuildPcAndOffer intro: page_inv_wire split: option.split)
next
  case (BuildPcAndAnswer sdp)
  assume "page_inv P fs s"
  then have "page_inv P fs (snd (build_pc pc_err s))" by simp
  then show ?thesis by (cases "build_pc pc_err s") (auto simp: BuildPcAndAnswer split: option.split)
qed (auto simp: Let_def intro: page_inv_teardown split: option.split)

lemma page_inv_fold_execute [inv_intros]:
  "page_inv P fs s \<Longrightarrow> page_inv P fs (fold (execute P pc_err) actions s)"
  by (induction actions arbitrary: s) (simp_all add: page_inv_execute)

lemma page_inv_callback [inv_intros]: "page_inv P fs s \<Longrightarrow> page_inv P fs (on_callback P pc_err c s)"
proof (cases c)
  case (On_Msg m)
  assume "page_inv P fs s"
  then have "page_inv P fs (snd (to_event m s))" by (cases m) simp_all
  then show ?thesis
    by (cases "to_event m s")
       (auto simp: On_Msg on_message_def react_def case_prod_unfold Let_def intro!: page_inv_fold_execute split: option.split)
qed (auto simp: react_def on_disconnect_def Let_def case_prod_unfold intro!: page_inv_fold_execute page_inv_teardown)

lemma page_inv_fold_callback [inv_intros]:
  "page_inv P fs s \<Longrightarrow> page_inv P fs (fold (on_callback P pc_err) cs s)"
  by (induction cs arbitrary: s) (simp_all add: page_inv_callback)

lemma page_inv_sig_event [inv_intros]: "page_inv P fs s \<Longrightarrow> page_inv P fs (sig_event P pc_err e s)"
  by (auto simp: sig_event_def Let_def intro!: page_inv_fold_callback split: option.split)

subsection \<open>Steps that offer files\<close>

lemma numbered_append:
  "numbered (fs @ gs) = numbered fs @ zip (map (\<lambda>j. of_nat (length fs) + of_nat j) [0..<length gs]) gs"
proof (induction gs rule: rev_induct)
  case (snoc g gs)
  then show ?case unfolding append_assoc [symmetric] numbered_simps by (simp add: numbered_def)
qed simp

lemma zip_shift:
  "zip (map f [0..<Suc n]) (x # xs) = (f 0, x) # zip (map (f \<circ> Suc) [0..<n]) xs"
  by (simp add: upt_conv_Cons flip: map_Suc_upt del: upt_Suc)

lemma add_rows_spec:
  "fst (add_rows files s) = zip (map (\<lambda>j. cl_next_id s + of_nat j) [0..<length files]) files \<and>
   cl_transfers (snd (add_rows files s)) = cl_transfers s \<and> cl_transfer (snd (add_rows files s)) = cl_transfer s \<and>
   cl_log (snd (add_rows files s)) = cl_log s \<and> cl_pending (snd (add_rows files s)) = cl_pending s \<and>
   cl_next_id (snd (add_rows files s)) = cl_next_id s + of_nat (length files)"
proof (induction files arbitrary: s)
  case (Cons f files)
  let ?s = "s\<lparr>cl_next_id := cl_next_id s + 1,
      cl_items := push_outgoing_pending (cl_items s) (cl_next_id s) (jf_name f) (file_size f)\<rparr>"
  have "add_rows (f # files) s = ((cl_next_id s, f) # fst (add_rows files ?s), snd (add_rows files ?s))"
    by (simp add: Let_def case_prod_unfold)
  then show ?case using Cons.IH [of ?s] by (simp add: zip_shift comp_def add.assoc del: upt_Suc)
qed simp

lemmas add_rows_simps [simp] =
  add_rows_spec [THEN conjunct1] add_rows_spec [THEN conjunct2, THEN conjunct1]
  add_rows_spec [THEN conjunct2, THEN conjunct2, THEN conjunct1]
  add_rows_spec [THEN conjunct2, THEN conjunct2, THEN conjunct2, THEN conjunct1]
  add_rows_spec [THEN conjunct2, THEN conjunct2, THEN conjunct2, THEN conjunct2, THEN conjunct1]
  add_rows_spec [THEN conjunct2, THEN conjunct2, THEN conjunct2, THEN conjunct2, THEN conjunct2]

lemma is_open_cong:
  assumes "cl_transfers s' = cl_transfers s" and "cl_transfer s' = cl_transfer s"
  shows "is_open s' = is_open s"
  unfolding is_open_def assms by (rule refl)

text \<open>Files that go to the current transfer, when none waits.\<close>

lemma offer_now_inv:
  assumes eng: "engines_inv P s" and k: "cl_transfer s = Some k" and "cl_pending s = []"
    and "all_offers (map snd (cl_log s)) @ files = numbered fs" and "cl_next_id s = of_nat (length fs)"
  shows "page_inv P fs (offer_now P files s)"
proof -
  have "k < length (cl_transfers s)" using eng k by (simp add: engines_inv_def)
  then have "engines_inv P (with_transfer P (User_Offers files) s)"
    using engines_transfer_event [OF eng, of k "Page (User_Offers files)"] k by (simp add: with_transfer_def)
  moreover have "files_inv fs (with_transfer P (User_Offers files) s)"
    using assms(3-) k by (simp add: files_inv_def with_transfer_def)
  ultimately have "page_inv P fs (with_transfer P (User_Offers files) s)" by (simp add: page_inv_def)
  then show ?thesis by (simp add: offer_now_def Let_def)
qed

lemma page_inv_ctrl_opens:
  assumes inv: "page_inv P fs s" and k: "cl_transfer s = Some k"
  shows "page_inv P fs (ctrl_opens P k s)"
proof -
  let ?s = "(transfer_event P k (Page (Ctrl_State True)) s)\<lparr>cl_status := StConnected, cl_pending := []\<rparr>"
  have "k < length (cl_transfers s)" using inv k by (simp add: page_inv_def engines_inv_def)
  then have eng: "engines_inv P ?s"
    using engines_transfer_event [of P s k "Page (Ctrl_State True)"] inv by (simp add: page_inv_def engines_inv_def)
  have files: "all_offers (map snd (cl_log ?s)) @ cl_pending s = numbered fs" "cl_next_id ?s = of_nat (length fs)"
    using inv by (simp_all add: page_inv_def files_inv_def)
  show ?thesis
  proof (cases "cl_pending s = []")
    case True
    then show ?thesis using eng files by (simp add: ctrl_opens_def page_inv_def files_inv_def Let_def)
  next
    case False
    then show ?thesis using offer_now_inv [OF eng _ _ files] k by (simp add: ctrl_opens_def Let_def)
  qed
qed

lemma page_inv_on_files:
  assumes inv: "page_inv P fs s"
  shows "page_inv P (fs @ files) (on_files P files s)"
proof (cases "files = []")
  case False
  let ?s = "snd (add_rows files s)" and ?batch = "fst (add_rows files s)"
  have eng: "engines_inv P ?s" using inv by (simp add: page_inv_def engines_inv_def)
  have "open": "is_open ?s = is_open s" by (rule is_open_cong) simp_all
  have fi: "files_inv fs s" using inv by (simp add: page_inv_def)
  then have next_id: "cl_next_id ?s = of_nat (length (fs @ files))"
    and all: "all_offers (map snd (cl_log ?s)) @ cl_pending s @ ?batch = numbered (fs @ files)"
    unfolding numbered_append by (simp_all add: files_inv_def flip: append_assoc)
  show ?thesis
  proof (cases "is_open s")
    case True
    then obtain k where "cl_transfer ?s = Some k" by (auto simp: is_open_def split: option.splits)
    moreover have "cl_pending s = []" using fi True by (simp add: files_inv_def)
    ultimately have "page_inv P (fs @ files) (offer_now P ?batch ?s)"
      using all next_id by (intro offer_now_inv [OF eng]) simp_all
    then show ?thesis using False True "open" by (simp add: on_files_def case_prod_unfold Let_def)
  next
    case closed: False
    let ?s' = "?s\<lparr>cl_pending := cl_pending ?s @ ?batch\<rparr>"
    have "is_open ?s' = is_open s" by (rule is_open_cong) simp_all
    then have "page_inv P (fs @ files) ?s'"
      using eng all next_id closed by (simp add: page_inv_def engines_inv_def files_inv_def)
    then show ?thesis using False closed "open" by (simp add: on_files_def case_prod_unfold Let_def)
  qed
qed (use inv in \<open>simp add: on_files_def\<close>)

lemma page_inv_step:
  assumes inv: "page_inv P fs s" and ok: "client_ok s e"
  shows "page_inv P (fs @ added_by e) (client_step P s e)"
proof (cases e)
  case (Mount err)
  then show ?thesis using inv by (simp add: mount_def Let_def split: option.split)
next
  case (Ctrl_Opens k)
  then show ?thesis using inv ok by (simp add: page_inv_ctrl_opens)
next
  case (Transfer_Event k x)
  then have "k < length (cl_transfers s)" "engine_ok (cl_transfers s ! k) x" "x \<noteq> Page (Ctrl_State True)" "offered_by x = []"
    using ok by (auto elim: net_event.elims)
  then show ?thesis
    using inv engines_transfer_event [of P s k x] files_transfer_event [of fs s k x P]
    by (simp add: Transfer_Event page_inv_def)
next
  case (Add_Files files)
  then show ?thesis using inv by (simp add: page_inv_on_files)
next
  case (Join_Room raw)
  then show ?thesis using inv by (simp add: on_join_def Let_def)
qed (use inv in \<open>auto simp: on_accept_def on_decline_def on_cancel_def on_cancel_send_def on_accept_all_def Let_def
       intro!: inv_intros\<close>)

lemma page_inv_new: "page_inv P [] (client_new hash session_owns)"
  by (simp add: page_inv_def engines_inv_def files_inv_def client_new_def is_open_def)

lemma page_inv_run:
  "page_inv P fs s \<Longrightarrow> run_ok client_ok (client_step P) s es \<Longrightarrow>
     page_inv P (fs @ files_added es) (run (client_step P) s es)"
proof (induction es arbitrary: fs s)
  case (Cons e es)
  have "files_added (e # es) = added_by e @ files_added es" by (simp add: files_added_def)
  then show ?case using Cons page_inv_step [of P fs s e] by (simp flip: append_assoc)
qed (simp add: files_added_def)


section \<open>Every transfer runs the engine\<close>

definition files_fine :: "js_file list \<Rightarrow> bool" where
  "files_fine fs \<longleftrightarrow> length fs < 2 ^ 64 \<and> (\<forall>f \<in> set fs. length (jf_bytes f) \<le> 2 ^ 53)"

lemma offers_of_one: "subseq (all_offers (events_of k lg)) (all_offers (map snd lg))"
proof (induction lg rule: rev_induct)
  case (snoc x lg)
  obtain j e where "x = (j, e)" by fastforce
  then show ?case using snoc by (auto intro: list_emb_append_mono subseq_order.order_trans [OF _ list_emb_append_mono])
qed simp

lemma transfer_history:
  assumes inv: "page_inv P fs s" and fine: "files_fine fs" and k: "k < length (cl_transfers s)"
  shows "engine_history (p_enc P) (p_dec P) (events_of k (cl_log s))"
    and "page (cl_transfers s ! k) = engine_after (p_enc P) (p_dec P) (events_of k (cl_log s))"
    and "fst ` set (all_offers (events_of k (cl_log s))) \<subseteq> of_nat ` {..<length fs}"
proof -
  let ?os = "all_offers (events_of k (cl_log s))"
  have "subseq ?os (all_offers (map snd (cl_log s)) @ cl_pending s)"
    by (rule subseq_order.order_trans [OF offers_of_one]) (intro prefix_imp_subseq prefixI, rule refl)
  then have sub: "subseq ?os (numbered fs)" using inv by (simp add: page_inv_def files_inv_def)
  have set: "set ?os \<subseteq> set (numbered fs)" using sub by (auto simp: subseq_conv_nths dest: in_set_nthsD)
  have "subseq (map fst ?os) (map fst (numbered fs))" by (rule subseq_map [OF sub])
  then have "distinct (map fst ?os)"
    using distinct_ids [of fs] fine unfolding files_fine_def subseq_conv_nths by (auto intro: distinct_nthsI)
  moreover have "snd ` set (numbered fs) = set fs" "fst ` set (numbered fs) = of_nat ` {..<length fs}"
    unfolding set_map [symmetric] numbered_simps by (simp_all add: atLeast0LessThan)
  moreover from this(1) have "\<forall>f \<in> snd ` set ?os. length (jf_bytes f) \<le> 2 ^ 53"
    using fine set unfolding files_fine_def by blast
  ultimately show "engine_history (p_enc P) (p_dec P) (events_of k (cl_log s))" "fst ` set ?os \<subseteq> of_nat ` {..<length fs}"
    using inv k image_mono [OF set, of fst] by (simp_all add: page_inv_def engines_inv_def engine_history_def)
  show "page (cl_transfers s ! k) = engine_after (p_enc P) (p_dec P) (events_of k (cl_log s))"
    using inv k by (simp add: page_inv_def engines_inv_def engine_after_def)
qed

text \<open>A transfer sends only files that were offered on it.\<close>

lemma engine_task_ids:
  assumes "engine_inv enc used s g"
  shows "tk_id ` set (sending s) \<subseteq> used"
proof -
  have inv: "simulates s g" "sender_inv MAX_CONCURRENT g" "fst ` set (accepted g) \<subseteq> used"
    using assms by (auto simp: engine_inv_def)
  have "set (started g) \<subseteq> set (accepted g)"
    using inv(2) unfolding sender_inv_def by (auto dest: in_set_nthsD simp: subseq_conv_nths) (metis UnCI in_set_nthsD set_append)
  moreover have "tk_id ` set (sending s) = fst ` set (started g)"
    using simulates_tasks(1) [OF inv(1)] by (metis set_map)
  ultimately show ?thesis using inv(3) by auto
qed

lemma task_ids:
  assumes "page_inv P fs s" and "files_fine fs" and "k < length (cl_transfers s)"
  shows "tk_id ` set (sending (page (cl_transfers s ! k))) \<subseteq> of_nat ` {..<length fs}"
  using engine_task_ids [OF engine_after_inv(2) [OF transfer_history(1) [OF assms]]] transfer_history(2,3) [OF assms]
  by simp

section \<open>Rows\<close>

text \<open>What a transfer tells the page: calls are only added, and progress only of tasks it has.\<close>

fun progress_ok :: "u64 set \<Rightarrow> ui_call \<Rightarrow> bool" where
  "progress_ok ids (On_Send_Progress i name snt tot) \<longleftrightarrow> i \<in> ids"
| "progress_ok ids _ \<longleftrightarrow> True"

definition tells :: "u64 set \<Rightarrow> 't shared \<Rightarrow> 't shared \<Rightarrow> bool" where
  "tells ids s s' \<longleftrightarrow> (\<exists>new. ui s' = ui s @ new \<and> (\<forall>c \<in> set new. progress_ok ids c))"

lemma tells_same: "ui s' = ui s \<Longrightarrow> tells ids s s'"
  by (simp add: tells_def)

lemma tells_add: "ui s' = ui s @ new \<Longrightarrow> \<forall>c \<in> set new. progress_ok ids c \<Longrightarrow> tells ids s s'"
  by (auto simp: tells_def)

lemma tells_recv: "tells ids s (recv_chunk now i b s)" "tells ids s (finalize_recv ok i s)"
proof -
  show "tells ids s (recv_chunk now i b s)" by (rule tells_add [OF ui_recv_chunk]) (auto split: option.split)
  show "tells ids s (finalize_recv ok i s)"
    by (rule tells_add [OF finalize_recv_saves(2)]) (auto simp: saved_by_def split: option.split)
qed

lemma tells_ctrl: "tells ids s (ctrl_frame c s)"
proof (cases c)
  case (Accept i)
  then show ?thesis by (intro tells_same) simp
qed (auto simp: tells_def)

lemma tells_page: "tells ids (page r) (page (page_step enc dec r e))"
proof (cases e)
  case (Channel_Msg k now dl p)
  then show ?thesis
    by (auto simp: recv_router_def tells_recv tells_same split: packet.split option.split control.split)
next
  case (Ctrl_Msg p)
  then show ?thesis by (auto simp: ctrl_router_def tells_ctrl tells_same split: packet.split option.split)
qed (simp_all add: tells_same transfer_accept_def transfer_reject_def transfer_cancel_def transfer_abort_def Let_def)

lemma tells_poll:
  assumes "k < length (sending s)" and "poll_sending enc env k s = Some s'"
  shows "tells (tk_id ` set (sending s)) s s'"
proof -
  let ?t = "sending s ! k"
  obtain t' progress where t': "poll_send_file enc env (tk_id ?t \<in> cancelled (outgoing_files s)) ?t = Some (t', progress)"
    using assms(2) by (auto simp: poll_sending_def Let_def split: option.splits)
  let ?calls = "map (\<lambda>snt. On_Send_Progress (tk_id ?t) (jf_name (tk_file ?t)) snt (file_size (tk_file ?t))) progress"
  let ?s = "s\<lparr>sending := (sending s)[k := t'], ui := ui s @ ?calls\<rparr>"
  have s': "s' = (if tk_phase t' = Returned then finish_sending k ?s else ?s)"
    using assms(2) t' by (simp add: poll_sending_def Let_def)
  have "tk_id ?t \<in> tk_id ` set (sending s)" using assms(1) by simp
  moreover have "tk_id t' = tk_id ?t" using poll_frame [OF t'] by simp
  ultimately show ?thesis
    using assms(1) by (auto simp: s' tells_def finish_sending_def Let_def split: if_splits)
qed

lemma tells_engine:
  assumes "engine_ok r e"
  shows "tells (tk_id ` set (sending (page r))) (page r) (page (engine_step enc dec r e))"
proof (cases e)
  case (Page e')
  then show ?thesis by (simp add: tells_page)
next
  case (Poll k env)
  then show ?thesis
    using assms tells_poll [of k "page r" enc env] by (cases "poll_sending enc env k (page r)") (simp_all add: tells_same)
qed


text \<open>The rows have distinct keys, and the outgoing ones have ids of the user's files.\<close>

definition rows_keyed :: "u64 set \<Rightarrow> transfer list \<Rightarrow> bool" where
  "rows_keyed ids rows \<longleftrightarrow>
     distinct (map key_of rows) \<and> (\<forall>i. (i, False) \<in> set (map key_of rows) \<longrightarrow> i \<in> ids)"

fun row_op_ok :: "u64 set \<Rightarrow> row_op \<Rightarrow> bool" where
  "row_op_ok ids (Push_Pending i name siz) \<longleftrightarrow> False"
| "row_op_ok ids (Send_Progress i name snt tot) \<longleftrightarrow> i \<in> ids"
| "row_op_ok ids _ \<longleftrightarrow> True"

lemma rows_keyed_step: "rows_keyed ids rows \<Longrightarrow> row_op_ok ids e \<Longrightarrow> rows_keyed ids (row_step rows e)"
  unfolding rows_keyed_def keys_step by (cases e) (auto simp: row_at_None_iff)

lemma rows_keyed_push:
  assumes "rows_keyed ids rows" and "i \<notin> ids"
  shows "rows_keyed (insert i ids) (push_outgoing_pending rows i name siz)"
  using assms keys_step [of rows "Push_Pending i name siz"] by (auto simp: rows_keyed_def)

lemma rows_keyed_mono: "rows_keyed ids rows \<Longrightarrow> ids \<subseteq> ids' \<Longrightarrow> rows_keyed ids' rows"
  by (auto simp: rows_keyed_def)

lemmas rows_keyed_ops =
  rows_keyed_step [where e = "Incoming_Offer m" for m, simplified]
  rows_keyed_step [where e = "Recv_Progress i name recv tot sp" for i name recv tot sp, simplified]
  rows_keyed_step [where e = "Recv_Complete i name" for i name, simplified]
  rows_keyed_step [where e = "Send_Progress i name snt tot" for i name snt tot, simplified]
  rows_keyed_step [where e = "Mark_Offered i" for i, simplified]
  rows_keyed_step [where e = "Mark_Rejected i" for i, simplified]
  rows_keyed_step [where e = "Mark_Cancelled_Remote i" for i, simplified]
  rows_keyed_step [where e = "Mark_All_Cancelled", simplified]
  rows_keyed_step [where e = "Accept_Row i" for i, simplified]
  rows_keyed_step [where e = "Decline_Row i" for i, simplified]
  rows_keyed_step [where e = "Cancel_Row i" for i, simplified]
  rows_keyed_step [where e = "Accept_All is" for "is", simplified]

lemma rows_keyed_calls:
  "rows_keyed ids rows \<Longrightarrow> \<forall>c \<in> set cs. progress_ok ids c \<Longrightarrow> rows_keyed ids (fold on_ui_call cs rows)"
proof (induction cs arbitrary: rows)
  case (Cons c cs)
  then have "rows_keyed ids (on_ui_call c rows)" by (cases c) (auto intro: rows_keyed_ops)
  with Cons show ?case by simp
qed simp

lemma rows_keyed_offered:
  "rows_keyed ids rows \<Longrightarrow> rows_keyed ids (fold (\<lambda>i rows. mark_offered rows i) is rows)"
  by (induction "is" arbitrary: rows) (simp_all add: rows_keyed_ops)

section \<open>The invariant of the page\<close>

definition ids_of :: "js_file list \<Rightarrow> u64 set" where
  "ids_of fs = of_nat ` {..<length fs}"

definition client_inv :: "'t platform \<Rightarrow> js_file list \<Rightarrow> 't client \<Rightarrow> bool" where
  "client_inv P fs s \<longleftrightarrow> page_inv P fs s \<and> files_fine fs \<and> rows_keyed (ids_of fs) (cl_items s)"

lemma rows_transfer_event:
  assumes inv: "client_inv P fs s" and k: "k < length (cl_transfers s)" "engine_ok (cl_transfers s ! k) e"
  shows "rows_keyed (ids_of fs) (cl_items (transfer_event P k e s))"
proof -
  let ?r = "cl_transfers s ! k"
  obtain new where new: "ui (page (engine_step (p_enc P) (p_dec P) ?r e)) = ui (page ?r) @ new"
    "\<forall>c \<in> set new. progress_ok (tk_id ` set (sending (page ?r))) c"
    using tells_engine [OF k(2), of "p_enc P" "p_dec P"] by (auto simp: tells_def)
  have "tk_id ` set (sending (page ?r)) \<subseteq> ids_of fs"
    using task_ids [of P fs s k] inv k(1) by (simp add: client_inv_def ids_of_def)
  then have "progress_ok (ids_of fs) c" if "progress_ok (tk_id ` set (sending (page ?r))) c" for c
    using that by (cases c) auto
  then have "\<forall>c \<in> set new. progress_ok (ids_of fs) c" using new(2) by blast
  then show ?thesis using inv by (simp add: transfer_event_def client_inv_def new(1) rows_keyed_calls Let_def)
qed

lemma client_inv_with_transfer:
  assumes "client_inv P fs s" and "offered_by (Page e) = []" and "e \<noteq> Ctrl_State True"
  shows "client_inv P fs (with_transfer P e s)"
  using assms page_inv_with_transfer [of P fs s e] rows_transfer_event [of P fs s _ "Page e"]
  by (auto simp: client_inv_def with_transfer_def page_inv_def engines_inv_def [of P s] split: option.splits)

lemma client_inv_items:
  "client_inv P fs s \<Longrightarrow> rows_keyed (ids_of fs) rows \<Longrightarrow> client_inv P fs (s\<lparr>cl_items := rows\<rparr>)"
  by (simp add: client_inv_def)


subsection \<open>The steps\<close>

lemma client_inv_transfer_event:
  assumes "client_inv P fs s" and "k < length (cl_transfers s)" and "engine_ok (cl_transfers s ! k) e" and "net_event e"
  shows "client_inv P fs (transfer_event P k e s)"
proof -
  have "e \<noteq> Page (Ctrl_State True)" "offered_by e = []" using assms(4) by (auto elim: net_event.elims)
  then show ?thesis
    using assms rows_transfer_event [OF assms(1-3)] engines_transfer_event [of P s k e]
      files_transfer_event [of fs s k e P] by (simp add: client_inv_def page_inv_def)
qed

lemma client_inv_fold_transfer:
  "client_inv P fs s \<Longrightarrow> client_inv P fs (fold (\<lambda>i. with_transfer P (User_Accept i)) ids s)"
  by (induction ids arbitrary: s) (simp_all add: client_inv_with_transfer)

text \<open>Actions and callbacks change the rows only when the connection is lost.\<close>

lemma items_execute [simp]: "cl_items (execute P pc_err a s) = cl_items s"
  by (cases a) (auto simp: sig_send_def build_pc_def emit_def wire_ctrl_def teardown_pc_def Let_def
      split: option.split prod.splits)

lemma items_fold_execute [simp]: "cl_items (fold (execute P pc_err) as s) = cl_items s"
  by (induction "as" arbitrary: s) simp_all

lemma items_to_event [simp]: "cl_items (snd (to_event m s)) = cl_items s"
  by (cases m) simp_all

lemma items_callback:
  "cl_items (on_callback P pc_err c s) =
     (if c = On_Disconnect then mark_all_active_cancelled (cl_items s) else cl_items s)"
proof (cases c)
  case (On_Msg m)
  then show ?thesis
    using items_to_event [of m s]
    by (cases "to_event m s") (auto simp: on_message_def react_def Let_def case_prod_unfold split: option.split)
qed (auto simp: react_def on_disconnect_def teardown_pc_def emit_def Let_def case_prod_unfold split: option.split)

lemma client_inv_fold_callback:
  "client_inv P fs s \<Longrightarrow> client_inv P fs (fold (on_callback P pc_err) cs s)"
proof (induction cs arbitrary: s)
  case (Cons c cs)
  have "client_inv P fs (on_callback P pc_err c s)"
    using Cons.prems page_inv_callback [of P fs s pc_err c] by (simp add: client_inv_def items_callback rows_keyed_ops del: on_callback.simps)
  with Cons.IH show ?case by simp
qed simp

lemma items_add_rows:
  assumes "rows_keyed (ids_of fs) (cl_items s)" and "cl_next_id s = of_nat (length fs)"
    and "length (fs @ files) < 2 ^ 64"
  shows "rows_keyed (ids_of (fs @ files)) (cl_items (snd (add_rows files s)))"
  using assms
proof (induction files arbitrary: fs s)
  case (Cons f files)
  let ?s = "s\<lparr>cl_next_id := cl_next_id s + 1,
      cl_items := push_outgoing_pending (cl_items s) (cl_next_id s) (jf_name f) (file_size f)\<rparr>"
  have "cl_next_id s \<notin> ids_of fs"
    using Cons.prems(2,3) by (auto simp: ids_of_def dest!: arg_cong [where f = unat] simp: unat_of_nat_u64)
  from rows_keyed_push [OF Cons.prems(1) this]
  have "rows_keyed (ids_of (fs @ [f])) (cl_items ?s)"
    using Cons.prems(2) by (simp add: ids_of_def lessThan_Suc)
  with Cons.IH [of "fs @ [f]" ?s] Cons.prems(2,3) show ?case by (simp add: Let_def case_prod_unfold)
qed (simp add: ids_of_def)

lemma items_offer_now:
  assumes "rows_keyed ids (cl_items s)"
  shows "rows_keyed ids (cl_items (offer_now P files s))"
proof -
  have "cl_items (with_transfer P (User_Offers files) s) = cl_items s"
    by (simp add: with_transfer_def transfer_event_def Let_def split: option.split)
  then show ?thesis using assms by (simp add: offer_now_def rows_keyed_offered Let_def)
qed

lemma items_on_files:
  assumes "client_inv P fs s" and "length (fs @ files) < 2 ^ 64"
  shows "rows_keyed (ids_of (fs @ files)) (cl_items (on_files P files s))"
proof -
  have "rows_keyed (ids_of (fs @ files)) (cl_items (snd (add_rows files s)))"
    using assms by (intro items_add_rows) (simp_all add: client_inv_def page_inv_def files_inv_def)
  then show ?thesis using assms(1)
    by (auto simp: on_files_def client_inv_def Let_def case_prod_unfold intro: items_offer_now)
qed

lemma items_ctrl_opens:
  assumes "rows_keyed ids (cl_items s)"
  shows "rows_keyed ids (cl_items (ctrl_opens P k s))"
proof -
  have "cl_items (transfer_event P k (Page (Ctrl_State True)) s) = cl_items s"
    by (simp add: transfer_event_def Let_def)
  then show ?thesis using assms by (auto simp: ctrl_opens_def Let_def intro!: items_offer_now)
qed

lemma items_frame [simp]:
  "cl_items (sig_send m s) = cl_items s" "cl_items (wire_ctrl s) = cl_items s" "cl_items (emit x s) = cl_items s"
  "cl_items (mount err s) = cl_items s" "cl_items (on_join raw s) = cl_items s"
  by (auto simp: sig_send_def wire_ctrl_def emit_def mount_def on_join_def Let_def split: option.split)

lemma client_inv_step:
  assumes inv: "client_inv P fs s" and ok: "client_ok s e" and fine: "files_fine (fs @ added_by e)"
  shows "client_inv P (fs @ added_by e) (client_step P s e)"
proof -
  have pg: "page_inv P (fs @ added_by e) (client_step P s e)"
    using inv ok by (intro page_inv_step) (simp_all add: client_inv_def)
  have rows: "rows_keyed (ids_of fs) (cl_items s)" using inv by (simp add: client_inv_def)
  have "rows_keyed (ids_of (fs @ added_by e)) (cl_items (client_step P s e))"
  proof (cases e)
    case (Sig_Event pc_err b)
    have "client_inv P fs (sig_event P pc_err b s)"
      using inv client_inv_fold_callback [of P fs "s\<lparr>cl_sig := g\<rparr>" for g]
      by (auto simp: sig_event_def client_inv_def Let_def split: option.split)
    then show ?thesis by (simp add: Sig_Event client_inv_def)
  next
    case (Ctrl_Opens k)
    then show ?thesis using rows by (simp add: items_ctrl_opens)
  next
    case (Transfer_Event k x)
    then show ?thesis using ok client_inv_transfer_event [OF inv, of k x] by (simp add: client_inv_def)
  next
    case (Add_Files files)
    then show ?thesis using items_on_files [OF inv] fine by (simp add: files_fine_def)
  next
    case (Click_Accept i)
    then show ?thesis using client_inv_with_transfer [OF inv, of "User_Accept i"]
      by (simp add: on_accept_def client_inv_def rows_keyed_ops Let_def)
  next
    case (Click_Decline i)
    then show ?thesis using client_inv_with_transfer [OF inv, of "User_Reject i"]
      by (simp add: on_decline_def client_inv_def rows_keyed_ops Let_def)
  next
    case (Click_Cancel i)
    then show ?thesis using client_inv_with_transfer [OF inv, of "User_Cancel i"]
      by (simp add: on_cancel_def client_inv_def rows_keyed_ops Let_def)
  next
    case (Click_Cancel_Send i)
    then show ?thesis using client_inv_with_transfer [OF inv, of "User_Abort i"]
      by (simp add: on_cancel_send_def client_inv_def rows_keyed_ops Let_def)
  next
    case Click_Accept_All
    then show ?thesis using client_inv_fold_transfer [OF inv]
      by (simp add: on_accept_all_def client_inv_def rows_keyed_ops Let_def)
  qed (use rows in simp_all)
  with pg fine show ?thesis by (simp add: client_inv_def)
qed

lemma client_inv_new: "client_inv P [] (client_new hash session_owns)"
  using page_inv_new [of P hash session_owns] by (simp add: client_inv_def files_fine_def rows_keyed_def client_new_def)

lemma files_added_Cons: "files_added (e # es) = added_by e @ files_added es"
  by (simp add: files_added_def)

lemma client_inv_run:
  "client_inv P fs s \<Longrightarrow> run_ok client_ok (client_step P) s es \<Longrightarrow> files_fine (fs @ files_added es) \<Longrightarrow>
     client_inv P (fs @ files_added es) (run (client_step P) s es)"
proof (induction es arbitrary: fs s)
  case (Cons e es)
  have "files_fine (fs @ added_by e)" using Cons.prems(3) by (auto simp: files_fine_def files_added_Cons)
  with Cons client_inv_step [of P fs s e] show ?case by (simp add: files_added_Cons flip: append_assoc)
qed (simp add: files_added_def)

lemma client_after_inv:
  "client_history P hash session_owns es \<Longrightarrow>
     client_inv P (files_added es) (client_after P hash session_owns es)"
  using client_inv_run [OF client_inv_new [of P hash session_owns], of es]
  by (simp add: client_history_def client_after_def files_fine_def)


section \<open>A page in use\<close>

definition demo_platform :: "control platform" where
  "demo_platform =
     \<lparr>p_enc = id, p_dec = Some,
      p_parse = (\<lambda>t. if t = lit ''c'' then Some (Created (lit ''k7m4qp''))
                     else if t = lit ''j'' then Some PeerJoined else if t = lit ''l'' then Some PeerLeft else None),
      p_origin = lit ''http://a.b'', p_qr = (\<lambda>_. None)\<rparr>"

text \<open>A file is added before the peer comes; it is offered when the channel opens.\<close>

definition demo_client :: "control client_event list" where
  "demo_client =
     [Mount None, Sig_Event None (Sock_Opens 0), Sig_Event None (Sock_Text 0 (lit ''c'')),
      Add_Files [demo_file], Sig_Event None (Sock_Text 0 (lit ''j'')), Ctrl_Opens 0,
      Transfer_Event 0 (Page (Ctrl_Msg (Text (Accept 0))))]"

lemmas client_simps =
  client_new_def mount_def sig_event_def react_def on_message_def sig_send_def signaling_send_def set_state_def
  ws_onopen_def ws_onmessage_def signaling_connect_def on_files_def is_open_def build_pc_def wire_ctrl_def
  emit_def ctrl_opens_def offer_now_def with_transfer_def transfer_event_def demo_platform_def room_from_hash_def
  trim_start_def strip_prefix_def is_slash_def

lemma demo_client_history: "client_history demo_platform [] None demo_client"
  by (simp add: client_history_def demo_client_def client_simps engine_simps files_added_def demo_file_def Let_def)

section \<open>What the page guarantees\<close>

text \<open>(C5) No file is lost between the user and the peer, however often the connection is rebuilt:
  along every history of the page, the files that were offered so far, followed by those that wait
  for a connection, are exactly the files the user added, each once, in order, under the ids 0, 1,
  2, ...; none waits while the channel is open. And no two rows of the list share their key.\<close>

theorem every_file_is_offered_once_in_order:
  assumes "client_history P hash session_owns es"
  defines "s \<equiv> client_after P hash session_owns es"
  shows "all_offers (map snd (cl_log s)) @ cl_pending s = numbered (files_added es) \<and>
    (is_open s \<longrightarrow> cl_pending s = []) \<and> distinct (map key_of (cl_items s))"
  using client_after_inv [OF assms(1)] unfolding s_def
  by (simp add: client_inv_def page_inv_def files_inv_def rows_keyed_def)

theorem every_file_is_offered_once_in_order_witness:
  "all_offers (map snd (cl_log (client_after demo_platform [] None demo_client))) @
     cl_pending (client_after demo_platform [] None demo_client) = [(0, demo_file)]"
  using every_file_is_offered_once_in_order [OF demo_client_history]
  by (simp add: demo_client_def files_added_def numbered_def)

text \<open>Every transfer of the page runs the engine of \<open>Transfer_Engine\<close> under the assumptions made
  there: what the page does with it is a history in which no id is offered twice and only running
  tasks are polled. So at most four files stream at once on each connection.\<close>

theorem page_runs_the_engine:
  assumes "client_history P hash session_owns es"
  defines "s \<equiv> client_after P hash session_owns es"
  assumes "k < length (cl_transfers s)"
  shows "engine_history (p_enc P) (p_dec P) (events_of k (cl_log s)) \<and>
    page (cl_transfers s ! k) = engine_after (p_enc P) (p_dec P) (events_of k (cl_log s)) \<and>
    length (running_ids (sending (page (cl_transfers s ! k)))) \<le> 4"
proof -
  have "client_inv P (files_added es) s" unfolding s_def by (rule client_after_inv [OF assms(1)])
  then have inv: "page_inv P (files_added es) s" "files_fine (files_added es)" by (simp_all add: client_inv_def)
  note hist = transfer_history(1,2) [OF inv assms(3)]
  show ?thesis using hist running_tasks_bound [OF hist(1)] by simp
qed

theorem page_runs_the_engine_witness:
  "length (running_ids (sending (page (cl_transfers (client_after demo_platform [] None demo_client) ! 0)))) \<le> 4"
proof -
  have "0 < length (cl_transfers (client_after demo_platform [] None demo_client))"
    by (simp add: client_after_def demo_client_def client_simps engine_simps demo_file_def Let_def)
  then show ?thesis using page_runs_the_engine [OF demo_client_history, of 0] by blast
qed

end
