(* ===== verification/Client_Connection.thy ===== *)
theory Client_Connection
  imports Client_App
begin

text \<open>
  Connections of the page: the flag of the reducer and the real peer connection, what is left of a
  connection that is lost, and how a page that is loaded again gets its room back.
\<close>

section \<open>What the actions change\<close>

lemma frame_emit [simp]:
  "cl_pc (emit x s) = cl_pc s" "cl_session (emit x s) = cl_session s" "cl_transfer (emit x s) = cl_transfer s"
  "cl_items (emit x s) = cl_items s" "cl_status (emit x s) = cl_status s"
  "cl_effects (emit x s) = cl_effects s @ [x]" "cl_last_ice (emit x s) = cl_last_ice s"
  "cl_sig (emit x s) = cl_sig s" "cl_transfers (emit x s) = cl_transfers s"
  by (simp_all add: emit_def)

lemma frame_sig_send [simp]:
  "cl_pc (sig_send m s) = cl_pc s" "cl_session (sig_send m s) = cl_session s"
  "cl_transfer (sig_send m s) = cl_transfer s" "cl_items (sig_send m s) = cl_items s"
  "cl_status (sig_send m s) = cl_status s" "cl_effects (sig_send m s) = cl_effects s"
  "cl_last_ice (sig_send m s) = cl_last_ice s" "cl_transfers (sig_send m s) = cl_transfers s"
  by (simp_all add: sig_send_def split: option.split)

lemma frame_wire [simp]:
  "cl_pc (wire_ctrl s) = cl_pc s" "cl_session (wire_ctrl s) = cl_session s" "cl_items (wire_ctrl s) = cl_items s"
  "cl_effects (wire_ctrl s) = cl_effects s" "cl_sig (wire_ctrl s) = cl_sig s"
  by (simp_all add: wire_ctrl_def)

lemma teardown_simps [simp]:
  "cl_pc (teardown_pc s) = None" "cl_transfer (teardown_pc s) = None" "cl_session (teardown_pc s) = cl_session s"
  "cl_items (teardown_pc s) = cl_items s" "cl_status (teardown_pc s) = cl_status s" "cl_sig (teardown_pc s) = cl_sig s"
  "cl_effects (teardown_pc s) = cl_effects s @ (case cl_pc s of None \<Rightarrow> [] | Some p \<Rightarrow> [Close_Pc p])"
  "cl_transfers (teardown_pc s) = cl_transfers s"
  by (simp_all add: teardown_pc_def Let_def split: option.split)

lemma with_transfer_simps [simp]:
  "cl_pc (with_transfer P e s) = cl_pc s" "cl_session (with_transfer P e s) = cl_session s"
  by (simp_all add: with_transfer_def transfer_event_def Let_def split: option.split)

lemma offer_now_simps [simp]:
  "cl_pc (offer_now P files s) = cl_pc s" "cl_session (offer_now P files s) = cl_session s"
  by (simp_all add: offer_now_def Let_def)

lemma add_rows_frame [simp]:
  "cl_pc (snd (add_rows files s)) = cl_pc s \<and> cl_session (snd (add_rows files s)) = cl_session s"
  by (induction files arbitrary: s) (simp_all add: Let_def case_prod_unfold)

section \<open>The flag of the reducer\<close>

text \<open>The reducer is pure and keeps a flag for the connection that the page holds.\<close>

definition flag_true :: "'t client \<Rightarrow> bool" where
  "flag_true s \<longleftrightarrow> (has_pc (cl_session s) \<longleftrightarrow> cl_pc s \<noteq> None)"

text \<open>The constructor of the peer connection does not fail.\<close>

fun pc_made :: "'t client_event \<Rightarrow> bool" where
  "pc_made (Sig_Event pc_err e) \<longleftrightarrow> pc_err = None"
| "pc_made _ \<longleftrightarrow> True"

lemma flag_react: "flag_true s \<Longrightarrow> flag_true (react P None ev s)"
  by (cases ev) (auto simp: flag_true_def react_def build_pc_def Let_def split: option.split)

lemma flag_callback: "flag_true s \<Longrightarrow> flag_true (on_callback P None c s)"
proof (cases c)
  case (On_Msg m)
  assume "flag_true s"
  then have "flag_true (snd (to_event m s))" by (cases m) (simp_all add: flag_true_def)
  then show ?thesis
    by (cases "to_event m s") (auto simp: On_Msg on_message_def intro: flag_react split: option.split)
next
  case On_Open
  assume "flag_true s"
  then show ?thesis by (simp add: On_Open flag_react)
qed (simp add: flag_true_def on_disconnect_def Let_def)

lemma flag_fold_callback: "flag_true s \<Longrightarrow> flag_true (fold (on_callback P None) cs s)"
  by (induction cs arbitrary: s) (simp_all add: flag_callback del: on_callback.simps)

lemma flag_cong:
  "cl_pc s' = cl_pc s \<Longrightarrow> cl_session s' = cl_session s \<Longrightarrow> flag_true s \<Longrightarrow> flag_true s'"
  by (simp add: flag_true_def)

lemma fold_accept_frame [simp]:
  "cl_pc (fold (\<lambda>i. with_transfer P (User_Accept i)) ids s) = cl_pc s"
  "cl_session (fold (\<lambda>i. with_transfer P (User_Accept i)) ids s) = cl_session s"
  by (induction ids arbitrary: s) simp_all

lemma transfer_event_frame [simp]:
  "cl_pc (transfer_event P k e s) = cl_pc s" "cl_session (transfer_event P k e s) = cl_session s"
  by (simp_all add: transfer_event_def Let_def)

lemma flag_step: "flag_true s \<Longrightarrow> pc_made e \<Longrightarrow> flag_true (client_step P s e)"
proof (cases e)
  case (Sig_Event pc_err b)
  assume "flag_true s" "pc_made e"
  then show ?thesis
    using flag_fold_callback [of "s\<lparr>cl_sig := g\<rparr>" P for g]
    by (auto simp: Sig_Event sig_event_def flag_true_def Let_def split: option.split)
qed (auto elim!: flag_cong [rotated 2] simp: mount_def ctrl_opens_def on_files_def on_accept_def on_decline_def
       on_cancel_def on_cancel_send_def on_accept_all_def on_join_def Let_def case_prod_unfold split: option.split)


definition client_runs :: "'t platform \<Rightarrow> rstr \<Rightarrow> rstr option \<Rightarrow> 't client_event list \<Rightarrow> 't client" where
  "client_runs P hash session_owns es = run (client_step P) (client_new hash session_owns) es"

lemma flag_run: "flag_true s \<Longrightarrow> list_all pc_made es \<Longrightarrow> flag_true (run (client_step P) s es)"
  by (induction es arbitrary: s) (simp_all add: flag_step)

definition demo_page_platform :: "unit platform" where
  "demo_page_platform =
     \<lparr>p_enc = (\<lambda>_. ()), p_dec = (\<lambda>_. None),
      p_parse = (\<lambda>t. if t = lit ''c'' then Some (Created (lit ''k7m4qp''))
                     else if t = lit ''j'' then Some PeerJoined else if t = lit ''l'' then Some PeerLeft else None),
      p_origin = lit ''http://a.b'', p_qr = (\<lambda>_. None)\<rparr>"

lemmas connection_simps =
  client_runs_def client_new_def mount_def sig_event_def react_def on_message_def sig_send_def signaling_send_def
  set_state_def ws_onopen_def ws_onmessage_def signaling_connect_def build_pc_def wire_ctrl_def emit_def
  room_from_hash_def trim_start_def strip_prefix_def is_slash_def demo_page_platform_def

section \<open>What the page guarantees about its connection\<close>

text \<open>The reducer decides on a flag of its own, and the flag never lies: as long as the browser can
  make peer connections, in every state of every history the reducer believes that there is a
  connection exactly when the page holds one. So every answer it lets through is applied to a
  connection, whatever the order of messages, clicks, losses and reconnections.\<close>

theorem reducer_flag_is_the_connection:
  fixes P :: "'t platform" and hash and session_owns
  assumes "list_all pc_made es"
  defines "s \<equiv> client_runs P hash session_owns es"
  shows "(has_pc (cl_session s) \<longleftrightarrow> cl_pc s \<noteq> None) \<and>
    (case step_session (cl_session s) (EvAnswer sdp) of
       (actions, sess) \<Rightarrow> actions = (case cl_pc s of None \<Rightarrow> [] | Some p \<Rightarrow> [SetRemoteAnswer sdp]) \<and>
         cl_effects (react P None (EvAnswer sdp) s) =
           cl_effects s @ (case cl_pc s of None \<Rightarrow> [] | Some p \<Rightarrow> [Set_Remote_Answer p sdp]))"
proof -
  have "flag_true (client_new hash session_owns :: 't client)" by (simp add: flag_true_def client_new_def)
  then have "flag_true s" unfolding s_def client_runs_def using assms(1) by (rule flag_run)
  then show ?thesis by (auto simp: flag_true_def react_def Let_def split: option.split)
qed

theorem reducer_flag_is_the_connection_witness:
  "has_pc (cl_session (client_runs demo_page_platform [] None
      [Mount None, Sig_Event None (Sock_Opens 0), Sig_Event None (Sock_Text 0 (lit ''j''))])) \<longleftrightarrow>
   cl_pc (client_runs demo_page_platform [] None
      [Mount None, Sig_Event None (Sock_Opens 0), Sig_Event None (Sock_Text 0 (lit ''j''))]) \<noteq> None"
  by (rule reducer_flag_is_the_connection [THEN conjunct1]) simp

text \<open>(C26) A lost signaling connection is forgotten completely, whatever state the page was in: the peer
  connection is closed and dropped, no row is left in progress, answers and candidates that belong
  to it have no effect any more, and when the socket is open again the page asks to join the room
  of its hash, so the partner's next offer starts from nothing.\<close>

theorem lost_connection_is_forgotten:
  fixes P :: "'t platform" and pc_err
  assumes "room_in_hash (cl_session s) = Some room"
  defines "s' \<equiv> on_callback P pc_err On_Disconnect s"
  shows "cl_status s' = StReconnecting \<and> cl_pc s' = None \<and> cl_transfer s' = None \<and>
    (\<forall>p. cl_pc s = Some p \<longrightarrow> cl_effects s' = cl_effects s @ [Close_Pc p]) \<and>
    Active \<notin> t_state ` set (cl_items s') \<and>
    cl_effects (on_message P pc_err (Sdp sdp (lit ''answer'')) s') = cl_effects s' \<and>
    cl_effects (on_message P pc_err (Ice candidate) s') = cl_effects s' \<and>
    on_callback P pc_err On_Open s' = sig_send (Join room) s'"
  using assms(1)
  by (auto simp: s'_def on_disconnect_def on_message_def react_def mark_all_active_cancelled_def Let_def split: if_splits)

theorem lost_connection_is_forgotten_witness:
  "cl_effects (on_callback demo_page_platform None On_Disconnect
      ((client_new (lit ''#/room/k7m4qp'') None)\<lparr>cl_pc := Some 3\<rparr>)) = [Close_Pc 3]"
proof -
  have "room_in_hash (cl_session ((client_new (lit ''#/room/k7m4qp'') None :: unit client)\<lparr>cl_pc := Some 3\<rparr>)) =
      Some (lit ''k7m4qp'')"
    by (simp add: client_new_def room_from_hash_def trim_start_def strip_prefix_def is_slash_def)
  from lost_connection_is_forgotten [OF this, of demo_page_platform None]
  show ?thesis by (simp add: client_new_def)
qed

text \<open>When the partner leaves, the page does not do the same: the transfer is dropped but no row is
  touched. A download in progress stays in progress for good, and an offer that waits can still be
  accepted: nothing is sent, no engine hears of it, and its row shows a running transfer.\<close>

theorem departed_peer_leaves_the_rows:
  fixes P :: "'t platform" and pc_err
  assumes "row_at (cl_items s) (i, True) = Some r" and "t_state r = Offered"
  defines "s' \<equiv> on_message P pc_err PeerLeft s"
  defines "s'' \<equiv> on_accept P i s'"
  shows "cl_status s' = StPeerLeft \<and> cl_items s' = cl_items s \<and> cl_transfer s' = None \<and>
    cl_transfers s'' = cl_transfers s \<and>
    map_option t_state (row_at (cl_items s'') (i, True)) = Some Active"
  using assms(1)
  by (simp add: s'_def s''_def on_message_def react_def on_accept_def with_transfer_def accept_def key_tests
      row_at_update_first Let_def)

theorem departed_peer_leaves_the_rows_witness:
  "map_option t_state (row_at (cl_items (on_accept demo_page_platform 4 (on_message demo_page_platform None PeerLeft
      ((client_new [] None)\<lparr>cl_items := [blank_row (4, True) [] [] (f_int 9)\<lparr>t_state := Offered\<rparr>]\<rparr>)))) (4, True)) = Some Active"
  using departed_peer_leaves_the_rows [where s = "(client_new [] None)\<lparr>cl_items := [blank_row (4, True) [] [] (f_int 9)\<lparr>t_state := Offered\<rparr>]\<rparr>"
      and i = 4 and P = demo_page_platform and pc_err = None]
  by (simp add: blank_row_def key_of_def)

text \<open>(C25) A tab that made a room gets it back after a reload. When the server names the new room, the
  page writes its code to the URL hash and to the session storage; a page loaded with what was
  written asks to join that room, and if the server has forgotten it, reclaims it, once; a second
  refusal is shown to the user.\<close>

theorem reloaded_page_reclaims_its_room:
  fixes P :: "'t platform" and s and pc_err
  assumes "set room \<subseteq> set ROOM_ALPHABET" and "room \<noteq> []"
  defines "s1 \<equiv> on_message P pc_err (Created room) s"
  shows "\<exists>fragment. cl_effects s1 = cl_effects s @ [Set_Hash fragment, Set_Session_Owns room] \<and>
    (\<forall>g. let s2 = (client_new (lit ''#'' @ fragment) (Some room) :: 't client)\<lparr>cl_sig := Some g\<rparr>;
          s3 = on_callback P pc_err On_Open s2;
          s4 = on_message P pc_err RoomNotFound s3;
          s5 = on_message P pc_err RoomNotFound s4
      in s3 = sig_send (Join room) s2 \<and> cl_sig s4 = Some (signaling_send (Reclaim room) (signaling_send (Join room) g)) \<and>
         cl_sig s5 = cl_sig s4 \<and> cl_status s5 = StRoomNotFound)"
proof (intro exI conjI)
  show "cl_effects s1 = cl_effects s @ [Set_Hash (room_fragment room), Set_Session_Owns room]"
    by (simp add: s1_def on_message_def react_def Let_def)
  have "room_from_hash (lit ''#'' @ room_fragment room) = Some room" by (rule hash_of_room [OF assms(1,2)])
  then show "\<forall>g. let s2 = (client_new (lit ''#'' @ room_fragment room) (Some room) :: 't client)\<lparr>cl_sig := Some g\<rparr>;
          s3 = on_callback P pc_err On_Open s2;
          s4 = on_message P pc_err RoomNotFound s3;
          s5 = on_message P pc_err RoomNotFound s4
      in s3 = sig_send (Join room) s2 \<and> cl_sig s4 = Some (signaling_send (Reclaim room) (signaling_send (Join room) g)) \<and>
         cl_sig s5 = cl_sig s4 \<and> cl_status s5 = StRoomNotFound"
    by (simp add: client_new_def on_message_def react_def sig_send_def Let_def)
qed

theorem reloaded_page_reclaims_its_room_witness:
  "\<exists>fragment. cl_effects (on_message demo_page_platform None (Created (lit ''k7m4qp'')) (client_new [] None)) =
     [Set_Hash fragment, Set_Session_Owns (lit ''k7m4qp'')]"
proof -
  have "set (lit ''k7m4qp'') \<subseteq> set ROOM_ALPHABET" "lit ''k7m4qp'' \<noteq> []" by (simp_all add: ROOM_ALPHABET_def)
  from reloaded_page_reclaims_its_room [OF this, of demo_page_platform None "client_new [] None"]
  show ?thesis by (auto simp: client_new_def)
qed

end
