(* ===== verification/World.thy ===== *)
theory World
  imports Client_Connection Server_Properties
begin

text \<open>
  Pages and server together. A page keeps a socket and replaces it when it is lost; each socket
  that opens is a connection of the server. What a page hands to a socket reaches the server in
  order, as the text that serde makes of it; what the server writes reaches the socket in order; a
  loss is noticed at either end at its own time. The two serde functions are parameters; what is used of
  them is that reading a written message yields it back.
\<close>

section \<open>The whole system\<close>

text \<open>
  \<open>w_conn\<close> says to which socket of which page a connection belongs, \<open>w_taken\<close> how many messages
  of that socket the server has read.
\<close>

record 't world =
  w_server :: server
  w_pages :: "'t client list"
  w_conn :: "peer_id \<rightharpoonup> nat \<times> nat"
  w_taken :: "peer_id \<Rightarrow> nat"

definition world_new :: "'t world" where
  "world_new = \<lparr>w_server = server_new, w_pages = [], w_conn = (\<lambda>_. None), w_taken = (\<lambda>_. 0)\<rparr>"

text \<open>
  A page is loaded with a hash and a session storage; its socket opens; a message of a socket is
  read; a message of the server is written to a socket; the server notices that a connection is lost;
  anything else happens in a page. \<open>Opens\<close> and \<open>Downward\<close> come with the error of the constructor of a
  peer connection, if the page makes one and it fails, \<open>Upward\<close> with the clock and a random code.
\<close>

datatype 't world_event =
    Load rstr "rstr option"
  | Opens nat ip_addr "rstr option"
  | Upward peer_id u64 rstr
  | Downward peer_id "rstr option"
  | Lost peer_id
  | Local nat "'t client_event"

definition sent_on :: "nat \<Rightarrow> 't client \<Rightarrow> signal_msg list" where
  "sent_on j tab =
     (case cl_sig tab of Some g \<Rightarrow> map snd (filter (\<lambda>(i, _). i = j) (sent g)) | None \<Rightarrow> [])"

text \<open>The next message of a connection, with its page and its socket.\<close>

definition waiting_up :: "'t world \<Rightarrow> peer_id \<Rightarrow> signal_msg list" where
  "waiting_up w p =
     (case w_conn w p of Some (pg, j) \<Rightarrow> drop (w_taken w p) (sent_on j (w_pages w ! pg)) | None \<Rightarrow> [])"

definition sig_of :: "'t world \<Rightarrow> nat \<Rightarrow> signaling" where
  "sig_of w pg = the (cl_sig (w_pages w ! pg))"

definition in_page :: "'t platform \<Rightarrow> nat \<Rightarrow> 't client_event \<Rightarrow> 't world \<Rightarrow> 't world" where
  "in_page P pg e w = w\<lparr>w_pages := (w_pages w)[pg := client_step P (w_pages w ! pg) e]\<rparr>"

text \<open>What an event of the world is for the server.\<close>

fun server_events :: "(signal_msg \<Rightarrow> rstr) \<Rightarrow> 't world \<Rightarrow> 't world_event \<Rightarrow> server_event list" where
  "server_events ser w (Opens pg ip pc_err) = [Connect ip]"
| "server_events ser w (Upward p now fresh) =
     (case waiting_up w p of m # _ \<Rightarrow> [Inbound p (TextFrame (ser m)) now fresh] | [] \<Rightarrow> [])"
| "server_events ser w (Downward p pc_err) =
     (case senders (app (w_server w)) p of Some (m # _) \<Rightarrow> [Drain p True] | _ \<Rightarrow> [])"
| "server_events ser w (Lost p) = [StreamEnd p]"
| "server_events ser w _ = []"

text \<open>And what it is for the pages: a text for a socket that is not open any more is dropped.\<close>

fun page_part :: "'t platform \<Rightarrow> (signal_msg \<Rightarrow> rstr) \<Rightarrow> 't world \<Rightarrow> 't world_event \<Rightarrow> 't world" where
  "page_part P ser w (Load hash session_owns) =
     w\<lparr>w_pages := w_pages w @ [client_step P (client_new hash session_owns) (Mount None)]\<rparr>"
| "page_part P ser w (Opens pg ip pc_err) =
     (let p = next_id (app (w_server w)); j = cur (sig_of w pg)
      in in_page P pg (Sig_Event pc_err (Sock_Opens j))
           (w\<lparr>w_conn := (w_conn w)(p \<mapsto> (pg, j)), w_taken := (w_taken w)(p := 0)\<rparr>))"
| "page_part P ser w (Upward p now fresh) =
     (if waiting_up w p = [] then w else w\<lparr>w_taken := (w_taken w)(p := w_taken w p + 1)\<rparr>)"
| "page_part P ser w (Downward p pc_err) =
     (case (w_conn w p, senders (app (w_server w)) p) of
        (Some (pg, j), Some (m # _)) \<Rightarrow>
          if socks (sig_of w pg) ! j = OPEN then in_page P pg (Sig_Event pc_err (Sock_Text j (ser m))) w else w
      | _ \<Rightarrow> w)"
| "page_part P ser w (Lost p) = w"
| "page_part P ser w (Local pg e) = in_page P pg e w"

definition world_step :: "'t platform \<Rightarrow> (signal_msg \<Rightarrow> rstr) \<Rightarrow> 't world \<Rightarrow> 't world_event \<Rightarrow> 't world" where
  "world_step P ser w e =
     (let w' = page_part P ser w e
      in w'\<lparr>w_server := run (server_step (p_parse P)) (w_server w) (server_events ser w e)\<rparr>)"

text \<open>
  Pages exist and have a signaling client; a socket opens once; what happens in a page by itself is
  what the browser can do there; the server has not used up its ids, and a random code is not in use.
\<close>

fun by_itself :: "'t client_event \<Rightarrow> bool" where
  "by_itself (Mount err) \<longleftrightarrow> False"
| "by_itself (Sig_Event pc_err (Sock_Opens i)) \<longleftrightarrow> False"
| "by_itself (Sig_Event pc_err (Sock_Text i text)) \<longleftrightarrow> False"
| "by_itself _ \<longleftrightarrow> True"

fun world_ok :: "'t world \<Rightarrow> 't world_event \<Rightarrow> bool" where
  "world_ok w (Load hash session_owns) \<longleftrightarrow> True"
| "world_ok w (Opens pg ip pc_err) \<longleftrightarrow>
     pg < length (w_pages w) \<and> socks (sig_of w pg) ! cur (sig_of w pg) = CONNECTING \<and>
     w_conn w (next_id (app (w_server w))) = None"
| "world_ok w (Upward p now fresh) \<longleftrightarrow> \<not> contains fresh (registry (app (w_server w)))"
| "world_ok w (Downward p pc_err) \<longleftrightarrow> True"
| "world_ok w (Lost p) \<longleftrightarrow> True"
| "world_ok w (Local pg e) \<longleftrightarrow>
     pg < length (w_pages w) \<and> by_itself e \<and>
     (case e of Sig_Event pc_err b \<Rightarrow> browser_ok (sig_of w pg) b | _ \<Rightarrow> True)"

definition world_history :: "'t platform \<Rightarrow> (signal_msg \<Rightarrow> rstr) \<Rightarrow> 't world_event list \<Rightarrow> bool" where
  "world_history P ser es \<longleftrightarrow> run_ok world_ok (world_step P ser) world_new es"

definition world_after :: "'t platform \<Rightarrow> (signal_msg \<Rightarrow> rstr) \<Rightarrow> 't world_event list \<Rightarrow> 't world" where
  "world_after P ser es = run (world_step P ser) world_new es"

definition server_trace :: "'t platform \<Rightarrow> (signal_msg \<Rightarrow> rstr) \<Rightarrow> 't world_event list \<Rightarrow> server_event list" where
  "server_trace P ser es = trace_of (server_events ser) (world_step P ser) world_new es"

interpretation world_server: machine_component "world_step P ser" w_server "server_step (p_parse P)" "server_events ser"
  by unfold_locales (simp add: world_step_def Let_def)

section \<open>What a page says to the server\<close>

text \<open>The messages that ask for a room.\<close>

fun asks :: "signal_msg \<Rightarrow> bool" where
  "asks Create \<longleftrightarrow> True"
| "asks (Join room) \<longleftrightarrow> True"
| "asks (Reclaim room) \<longleftrightarrow> True"
| "asks _ \<longleftrightarrow> False"

definition all_sent :: "'t client \<Rightarrow> (nat \<times> signal_msg) list" where
  "all_sent s = (case cl_sig s of Some g \<Rightarrow> sent g | None \<Rightarrow> [])"

text \<open>
  \<open>s'\<close> is \<open>s\<close> after at most \<open>n\<close> requests and any other messages of a client, all on the current socket, if
  it is open.
\<close>

definition says :: "nat \<Rightarrow> 't client \<Rightarrow> 't client \<Rightarrow> bool" where
  "says n s s' \<longleftrightarrow>
     (case cl_sig s of
        None \<Rightarrow> cl_sig s' = None
      | Some g \<Rightarrow>
          (\<exists>ms. cl_sig s' = Some (g\<lparr>sent := sent g @ map (Pair (cur g)) ms\<rparr>) \<and>
             length (filter asks ms) \<le> n \<and> list_all client_originated ms \<and>
             (ms \<noteq> [] \<longrightarrow> socks g ! cur g = OPEN)))"

lemma says_refl: "cl_sig s' = cl_sig s \<Longrightarrow> says n s s'"
  by (auto simp: says_def split: option.split intro: exI [of _ "[]"])

lemma says_trans:
  assumes "says m s s'" and "says n s' s''"
  shows "says (m + n) s s''"
proof (cases "cl_sig s")
  case (Some g)
  then obtain ms where ms: "cl_sig s' = Some (g\<lparr>sent := sent g @ map (Pair (cur g)) ms\<rparr>)"
    "length (filter asks ms) \<le> m" "list_all client_originated ms" "ms \<noteq> [] \<longrightarrow> socks g ! cur g = OPEN"
    using assms(1) by (auto simp: says_def)
  then obtain ns where "cl_sig s'' = Some (g\<lparr>sent := (sent g @ map (Pair (cur g)) ms) @ map (Pair (cur g)) ns\<rparr>)"
    "length (filter asks ns) \<le> n" "list_all client_originated ns" "ns \<noteq> [] \<longrightarrow> socks g ! cur g = OPEN"
    using assms(2) by (auto simp: says_def)
  with ms show ?thesis unfolding says_def Some option.case by (intro exI [of _ "ms @ ns"]) auto
qed (use assms in \<open>simp add: says_def\<close>)

lemma says_mono: "says m s s' \<Longrightarrow> m \<le> n \<Longrightarrow> says n s s'"
  by (auto simp: says_def split: option.splits)

lemma says_send: "client_originated m \<Longrightarrow> says (if asks m then 1 else 0) s (sig_send m s)"
  by (auto simp: says_def sig_send_def signaling_send_def split: option.split
      intro: exI [of _ "[m]"] exI [of _ "[]"])

lemma says_cong:
  assumes "cl_sig s' = cl_sig s" and "cl_sig t' = cl_sig t"
  shows "says n s' t' = says n s t"
  unfolding says_def assms by (rule refl)

fun requests :: "action \<Rightarrow> nat" where
  "requests SendCreate = 1"
| "requests (SendJoin room) = 1"
| "requests (SendReclaim room) = 1"
| "requests _ = 0"

lemma built_sig: "build_pc e s = (r, s') \<Longrightarrow> cl_sig s' = cl_sig s"
  by (auto simp: build_pc_def split: option.splits)

lemma says_execute: "says (requests a) s (execute P pc_err a s)"
proof (cases a)
  case SendCreate
  show ?thesis using says_send [of Create s] by (simp add: SendCreate client_originated_def)
next
  case (SendJoin room)
  show ?thesis using says_send [of "Join room" s] by (simp add: SendJoin client_originated_def)
next
  case (SendReclaim room)
  show ?thesis using says_send [of "Reclaim room" s] by (simp add: SendReclaim client_originated_def)
qed (auto intro!: says_refl simp: Let_def dest: built_sig split: option.split prod.split)

lemma says_fold_execute: "says (sum_list (map requests as)) s (fold (execute P pc_err) as s)"
proof (induction as arbitrary: s)
  case (Cons a as)
  from says_trans [OF says_execute Cons.IH] show ?case by simp
qed (simp add: says_refl)

text \<open>Only an open socket and the answer \<open>RoomNotFound\<close> make a page ask.\<close>

lemma says_react:
  "says (if ev = EvOpen \<or> ev = EvRoomNotFound then 1 else 0) s (react P pc_err ev s)"
proof -
  let ?s = "s\<lparr>cl_session := snd (step_session (cl_session s) ev)\<rparr>"
  have react: "react P pc_err ev s = fold (execute P pc_err) (fst (step_session (cl_session s) ev)) ?s"
    unfolding react_def Let_def case_prod_unfold by (rule refl)
  have "sum_list (map requests (fst (step_session (cl_session s) ev))) \<le>
      (if ev = EvOpen \<or> ev = EvRoomNotFound then 1 else 0)"
    by (cases ev) (auto simp: Let_def split: option.split)
  moreover have "says n ?s t = says n s t" for n t by (rule says_cong) simp_all
  ultimately show ?thesis unfolding react using says_mono [OF says_fold_execute [of _ ?s]] by blast
qed

fun callback_requests :: "callback \<Rightarrow> nat" where
  "callback_requests On_Open = 1"
| "callback_requests (On_Msg RoomNotFound) = 1"
| "callback_requests _ = 0"

lemma says_callback: "says (callback_requests c) s (on_callback P pc_err c s)"
proof (cases c)
  case On_Open
  show ?thesis using says_react [of EvOpen s] by (simp add: On_Open)
next
  case On_Disconnect
  show ?thesis by (rule says_refl) (simp add: On_Disconnect on_disconnect_def Let_def)
next
  case (On_Msg m)
  have "cl_sig (snd (to_event m s)) = cl_sig s" by (cases m) simp_all
  then have "says n (snd (to_event m s)) t = says n s t" for n t by (rule says_cong) simp
  moreover have "says 0 s (on_message P pc_err m s)" if "fst (to_event m s) = None"
    using that \<open>cl_sig (snd (to_event m s)) = cl_sig s\<close>
    by (cases "to_event m s") (auto simp: on_message_def intro: says_refl)
  moreover have "says (if ev = EvOpen \<or> ev = EvRoomNotFound then 1 else 0) (snd (to_event m s)) (on_message P pc_err m s)"
    if "fst (to_event m s) = Some ev" for ev
    using that says_react [of ev "snd (to_event m s)" P pc_err] by (cases "to_event m s") (simp add: on_message_def)
  moreover have "callback_requests c = (if fst (to_event m s) = Some EvRoomNotFound then 1 else 0)"
    "fst (to_event m s) \<noteq> Some EvOpen"
    by (cases m; simp add: On_Msg)+
  ultimately show ?thesis
    by (cases "fst (to_event m s)") (simp_all add: On_Msg)
qed

lemma says_fold_callback: "says (sum_list (map callback_requests cs)) s (fold (on_callback P pc_err) cs s)"
proof (induction cs arbitrary: s)
  case (Cons c cs)
  from says_trans [OF says_callback Cons.IH] show ?case by simp
qed (simp add: says_refl)

text \<open>Everything a page does by itself: it may send, but it does not ask for a room.\<close>

lemma sig_transfer [simp]: "cl_sig (transfer_event P k e s) = cl_sig s" "cl_sig (with_transfer P pe s) = cl_sig s"
  by (simp_all add: transfer_event_def with_transfer_def Let_def split: option.split)

lemma sig_offer_now [simp]: "cl_sig (offer_now P files s) = cl_sig s"
  by (simp add: offer_now_def Let_def)

lemma sig_add_rows [simp]: "cl_sig (snd (add_rows files s)) = cl_sig s"
  by (induction files arbitrary: s) (simp_all add: Let_def case_prod_unfold)

lemma sig_accept_all [simp]: "cl_sig (fold (\<lambda>i. with_transfer P (User_Accept i)) ids s) = cl_sig s"
  by (induction ids arbitrary: s) simp_all

lemma says_other:
  assumes "by_itself e" and "\<And>pc_err b. e \<noteq> Sig_Event pc_err b"
  shows "says 0 s (client_step P s e)"
proof (cases e)
  case (Offer_Made sdp)
  show ?thesis using says_send [of "Sdp sdp (lit ''offer'')" s] by (simp add: Offer_Made client_originated_def)
next
  case (Answer_Made sdp)
  show ?thesis using says_send [of "Sdp sdp (lit ''answer'')" s] by (simp add: Answer_Made client_originated_def)
next
  case (Local_Candidate c)
  show ?thesis using says_send [of "Ice c" s] by (simp add: Local_Candidate client_originated_def)
qed (use assms in \<open>auto intro!: says_refl simp: wire_ctrl_def ctrl_opens_def on_files_def on_accept_def on_decline_def
       on_cancel_def on_cancel_send_def on_accept_all_def on_join_def Let_def case_prod_unfold\<close>)

text \<open>What the signaling client does first, when something happens to a socket.\<close>

lemma sig_event_sends:
  assumes "cl_sig s = Some g"
  shows "\<exists>ms. cl_sig (client_step P s (Sig_Event pc_err b)) =
      Some (signaling_step (p_parse P) g b\<lparr>sent := sent g @ map (Pair (cur (signaling_step (p_parse P) g b))) ms\<rparr>) \<and>
    length (filter asks ms) \<le>
      sum_list (map callback_requests (drop (length (calls g)) (calls (signaling_step (p_parse P) g b)))) \<and>
    list_all client_originated ms \<and>
    (ms \<noteq> [] \<longrightarrow> socks (signaling_step (p_parse P) g b) ! cur (signaling_step (p_parse P) g b) = OPEN)"
proof -
  let ?g = "signaling_step (p_parse P) g b"
  have "sent ?g = sent g"
    by (cases b) (auto simp: set_state_def ws_onopen_def ws_onclose_def ws_onmessage_def schedule_reconnect_def
        reconnect_now_def on_online_def Let_def split: option.split)
  moreover have "cl_sig (s\<lparr>cl_sig := Some ?g\<rparr>) = Some ?g" by simp
  moreover note says_fold_callback [of "drop (length (calls g)) (calls ?g)" "s\<lparr>cl_sig := Some ?g\<rparr>" P pc_err]
  ultimately show ?thesis
    using assms by (simp add: sig_event_def says_def Let_def)
qed

section \<open>What the server answers\<close>

text \<open>What the server may write to a page.\<close>

definition server_originated :: "signal_msg \<Rightarrow> bool" where
  "server_originated m \<longleftrightarrow>
     (case m of Create \<Rightarrow> False | Join _ \<Rightarrow> False | Reclaim _ \<Rightarrow> False | _ \<Rightarrow> True)"

definition senders_typed :: "app_state \<Rightarrow> bool" where
  "senders_typed st \<longleftrightarrow> (\<forall>p q. senders st p = Some q \<longrightarrow> list_all server_originated q)"

lemma typed_send: "senders_typed st \<Longrightarrow> server_originated m \<Longrightarrow> senders_typed (send_to p m st)"
  by (auto simp: senders_typed_def send_to_def split: option.splits if_splits)

lemma typed_frame [simp]:
  "senders_typed (st\<lparr>registry := r\<rparr>) = senders_typed st" "senders_typed (st\<lparr>limiter := l\<rparr>) = senders_typed st"
  by (simp_all add: senders_typed_def)

lemma typed_handle: "senders_typed st \<Longrightarrow> senders_typed (handle_message st peer ip now fresh m)"
  by (cases m)
     (auto simp: handler_defs Let_def case_prod_unfold server_originated_def intro!: typed_send
        split: join_outcome.split option.split)

lemma typed_cleanup:
  assumes "senders_typed st"
  shows "senders_typed (cleanup peer st)"
proof (cases "fst (remove peer (registry st))")
  case None
  with assms show ?thesis by (simp add: cleanup_def senders_typed_def Let_def case_prod_unfold)
next
  case (Some q)
  have "senders_typed (send_to q PeerLeft (st\<lparr>registry := snd (remove peer (registry st))\<rparr>))"
    using assms by (intro typed_send) (simp_all add: server_originated_def)
  with Some show ?thesis by (simp add: cleanup_def senders_typed_def Let_def case_prod_unfold)
qed

text \<open>What a connection has used up of its one request: its place, or refusals on their way to it.\<close>

definition refusals :: "app_state \<Rightarrow> peer_id \<Rightarrow> nat" where
  "refusals st p = (case senders st p of None \<Rightarrow> 0 | Some q \<Rightarrow> length (filter ((=) RoomNotFound) q))"

definition used_up :: "app_state \<Rightarrow> peer_id \<Rightarrow> nat" where
  "used_up st p = (if peer_room (registry st) p = None then 0 else 1) + refusals st p"

lemma refusals_send [simp]:
  "refusals (send_to q m st) p = refusals st p + (if p = q \<and> m = RoomNotFound \<and> senders st q \<noteq> None then 1 else 0)"
  by (auto simp: refusals_def senders_send_to split: option.splits)

lemma refusals_frame [simp]:
  "refusals (st\<lparr>registry := r\<rparr>) p = refusals st p" "refusals (st\<lparr>limiter := l\<rparr>) p = refusals st p"
  by (simp_all add: refusals_def)

lemma peer_room_other:
  "q \<noteq> p \<Longrightarrow> peer_room (snd (create p i t r)) q = peer_room r q"
  "q \<noteq> p \<Longrightarrow> peer_room (snd (join p i t r)) q = peer_room r q"
  "q \<noteq> p \<Longrightarrow> peer_room (snd (remove p r)) q = peer_room r q"
  "fst (join p i t r) \<noteq> RoomJoined \<Longrightarrow> peer_room (snd (join p i t r)) q = peer_room r q"
  by (auto simp: create_def join_def remove_def Let_def split: option.splits)

lemma used_up_handle:
  assumes "client_originated m" and "asks m \<Longrightarrow> peer_room (registry st) p = None"
  shows "used_up (handle_message st p ip now fresh m) p \<le> used_up st p + (if asks m then 1 else 0)"
    and "q \<noteq> p \<Longrightarrow> used_up (handle_message st p ip now fresh m) q = used_up st q"
  using assms
  by (cases m; auto simp: used_up_def handler_defs client_originated_def peer_room_other Let_def case_prod_unfold
      split: join_outcome.split option.split)+

lemma used_up_cleanup: "q \<noteq> p \<Longrightarrow> used_up (cleanup p st) q = used_up st q"
proof -
  assume "q \<noteq> p"
  moreover have "refusals (st'\<lparr>senders := (senders st')(p := None)\<rparr>) q = refusals st' q" if "q \<noteq> p" for st'
    using that by (simp add: refusals_def)
  ultimately show ?thesis
    by (auto simp: used_up_def cleanup_def peer_room_other Let_def case_prod_unfold split: option.split)
qed

section \<open>The invariant\<close>

definition page_ok :: "'t client \<Rightarrow> bool" where
  "page_ok tab \<longleftrightarrow>
     (case cl_sig tab of
        None \<Rightarrow> False
      | Some g \<Rightarrow> signaling_inv g \<and>
          (\<forall>(i, m) \<in> set (sent g). i < length (socks g) \<and> socks g ! i \<noteq> CONNECTING \<and> client_originated m))"

definition conns_ok :: "'t world \<Rightarrow> bool" where
  "conns_ok w \<longleftrightarrow>
     (\<forall>p pg j. w_conn w p = Some (pg, j) \<longrightarrow>
        pg < length (w_pages w) \<and> j < length (socks (sig_of w pg)) \<and> socks (sig_of w pg) ! j \<noteq> CONNECTING \<and>
        w_taken w p \<le> length (sent_on j (w_pages w ! pg))) \<and>
     (\<forall>p q. w_conn w p = w_conn w q \<longrightarrow> w_conn w p \<noteq> None \<longrightarrow> p = q)"

text \<open>A connection asks at most once, counting what it has asked, what it is about to ask and what it was refused.\<close>

definition asks_once :: "'t world \<Rightarrow> bool" where
  "asks_once w \<longleftrightarrow>
     (\<forall>p. conns (w_server w) p \<noteq> None \<longrightarrow>
        used_up (app (w_server w)) p + length (filter asks (waiting_up w p)) \<le> 1)"

definition world_inv :: "'t world \<Rightarrow> bool" where
  "world_inv w \<longleftrightarrow>
     list_all page_ok (w_pages w) \<and> conns_ok w \<and> asks_once w \<and> server_inv (w_server w) \<and>
     dom (conns (w_server w)) \<subseteq> dom (w_conn w) \<and> senders_typed (app (w_server w))"

lemma world_inv_new: "world_inv world_new"
  using server_inv_new
  by (simp add: world_inv_def world_new_def conns_ok_def asks_once_def server_new_def senders_typed_def app_new_def)

lemma page_sig: "list_all page_ok tabs \<Longrightarrow> pg < length tabs \<Longrightarrow> \<exists>g. cl_sig (tabs ! pg) = Some g"
  by (auto simp: list_all_length page_ok_def split: option.splits)

section \<open>What an event does to a page\<close>

text \<open>
  \<open>t\<close> is the page \<open>s\<close> after an event in which it sent \<open>ms\<close> on its current socket, at most \<open>n\<close> of them
  requests.
\<close>

definition moves :: "nat \<Rightarrow> signal_msg list \<Rightarrow> 't client \<Rightarrow> 't client \<Rightarrow> bool" where
  "moves n ms s t \<longleftrightarrow>
     (case (cl_sig s, cl_sig t) of
        (Some g, Some g') \<Rightarrow>
          page_ok t \<and> sent g' = sent g @ map (Pair (cur g')) ms \<and> length (filter asks ms) \<le> n \<and>
          length (socks g) \<le> length (socks g') \<and>
          (\<forall>j < length (socks g). socks g ! j \<noteq> CONNECTING \<longrightarrow> socks g' ! j \<noteq> CONNECTING)
      | _ \<Rightarrow> False)"

lemma moves_other:
  assumes "page_ok s" and "by_itself e" and "\<And>pc_err b. e \<noteq> Sig_Event pc_err b"
  shows "\<exists>ms. moves 0 ms s (client_step P s e)"
proof -
  obtain g where g: "cl_sig s = Some g" using assms(1) by (auto simp: page_ok_def split: option.splits)
  obtain ms where ms: "cl_sig (client_step P s e) = Some (g\<lparr>sent := sent g @ map (Pair (cur g)) ms\<rparr>)"
    "length (filter asks ms) \<le> 0" "list_all client_originated ms" "ms \<noteq> [] \<longrightarrow> socks g ! cur g = OPEN"
    using says_other [OF assms(2,3), of s P] unfolding says_def g option.case by blast
  have "page_ok (client_step P s e)"
    using assms(1) ms by (auto simp: page_ok_def g signaling_inv_def list_all_iff)
  with g ms show ?thesis by (intro exI [of _ ms]) (simp add: moves_def)
qed

lemma nth_set: "j < length xs \<Longrightarrow> xs[i := x] ! j = (if i = j then x else xs ! j)"
  by (cases "i = j") simp_all

lemma step_keeps_sockets:
  "length (socks g) \<le> length (socks (signaling_step parse g b)) \<and>
   (\<forall>j < length (socks g). socks g ! j \<noteq> CONNECTING \<longrightarrow> socks (signaling_step parse g b) ! j \<noteq> CONNECTING)"
  by (cases b) (auto simp: set_state_def ws_onopen_def ws_onclose_def ws_onmessage_def schedule_reconnect_def
      reconnect_now_def on_online_def Let_def nth_set nth_append split: option.split)

lemma step_sends_nothing: "sent (signaling_step parse g b) = sent g"
  by (cases b) (auto simp: set_state_def ws_onopen_def ws_onclose_def ws_onmessage_def schedule_reconnect_def
      reconnect_now_def on_online_def Let_def split: option.split)

lemma moves_sig:
  assumes "page_ok s" and g: "cl_sig s = Some g" and "browser_ok g b"
  shows "\<exists>ms. moves (sum_list (map callback_requests (drop (length (calls g)) (calls (signaling_step (p_parse P) g b)))))
      ms s (client_step P s (Sig_Event pc_err b)) \<and>
    (\<exists>xs. cl_sig (client_step P s (Sig_Event pc_err b)) = Some (signaling_step (p_parse P) g b\<lparr>sent := xs\<rparr>))"
proof -
  let ?g = "signaling_step (p_parse P) g b"
  obtain ms where ms: "cl_sig (client_step P s (Sig_Event pc_err b)) = Some (?g\<lparr>sent := sent g @ map (Pair (cur ?g)) ms\<rparr>)"
    "length (filter asks ms) \<le> sum_list (map callback_requests (drop (length (calls g)) (calls ?g)))"
    "list_all client_originated ms" "ms \<noteq> [] \<longrightarrow> socks ?g ! cur ?g = OPEN"
    using sig_event_sends [OF g, of P pc_err b] by blast
  have inv: "signaling_inv ?g"
    using assms by (intro signaling_step_inv) (auto simp: page_ok_def)
  have "\<forall>(i, m) \<in> set (sent g). i < length (socks ?g) \<and> socks ?g ! i \<noteq> CONNECTING \<and> client_originated m"
    using assms(1) step_keeps_sockets [of g "p_parse P" b] by (fastforce simp: page_ok_def g)
  moreover have "cur ?g < length (socks ?g)" using inv by (simp add: signaling_inv_def)
  moreover have "signaling_inv (?g\<lparr>sent := xs\<rparr>)" for xs using inv by (simp add: signaling_inv_def)
  ultimately have "page_ok (client_step P s (Sig_Event pc_err b))"
    using ms by (auto simp: page_ok_def list_all_iff)
  then show ?thesis
    using ms g step_keeps_sockets [of g "p_parse P" b] by (intro exI [of _ ms] conjI) (auto simp: moves_def)
qed

text \<open>The requests that the events of a socket can lead to.\<close>

lemma requests_of_event:
  assumes "by_itself (Sig_Event pc_err b)"
  shows "sum_list (map callback_requests (drop (length (calls g)) (calls (signaling_step parse g b)))) = 0"
  using assms
  by (cases b) (auto simp: set_state_def ws_onopen_def ws_onclose_def ws_onmessage_def schedule_reconnect_def
      reconnect_now_def on_online_def Let_def split: option.split)

section \<open>What it does to the world\<close>

lemma sent_on_moves:
  assumes "moves n ms s t"
  shows "sent_on j t = sent_on j s @ (if j = cur (the (cl_sig t)) then ms else [])"
  using assms by (auto simp: moves_def sent_on_def filter_map o_def split: option.splits)

definition replaced :: "nat \<Rightarrow> 't client \<Rightarrow> 't world \<Rightarrow> 't world" where
  "replaced pg t w = w\<lparr>w_pages := (w_pages w)[pg := t]\<rparr>"

lemma replaced_pages:
  assumes "list_all page_ok (w_pages w)" and "pg < length (w_pages w)" and "moves n ms (w_pages w ! pg) t"
  shows "list_all page_ok (w_pages (replaced pg t w))"
  using assms by (auto simp: replaced_def list_all_length nth_list_update moves_def split: option.splits)

lemma replaced_conns:
  assumes "conns_ok w" and "pg < length (w_pages w)" and "moves n ms (w_pages w ! pg) t"
  shows "conns_ok (replaced pg t w)"
  unfolding conns_ok_def
proof (intro conjI allI impI)
  fix p pg' j assume "w_conn (replaced pg t w) p = Some (pg', j)"
  then have "w_conn w p = Some (pg', j)" by (simp add: replaced_def)
  with assms(1) have p: "pg' < length (w_pages w)" "j < length (socks (sig_of w pg'))"
    "socks (sig_of w pg') ! j \<noteq> CONNECTING" "w_taken w p \<le> length (sent_on j (w_pages w ! pg'))"
    by (auto simp: conns_ok_def)
  then show "pg' < length (w_pages (replaced pg t w))" by (simp add: replaced_def)
  show "j < length (socks (sig_of (replaced pg t w) pg'))" "socks (sig_of (replaced pg t w) pg') ! j \<noteq> CONNECTING"
    using p assms(2,3) by (auto simp: replaced_def sig_of_def moves_def nth_list_update split: option.splits)
  show "w_taken (replaced pg t w) p \<le> length (sent_on j (w_pages (replaced pg t w) ! pg'))"
    using p assms(2) sent_on_moves [OF assms(3), of j] by (auto simp: replaced_def nth_list_update)
qed (use assms(1) in \<open>auto simp: conns_ok_def replaced_def\<close>)

lemma replaced_waiting:
  assumes "conns_ok w" and "pg < length (w_pages w)" and "moves n ms (w_pages w ! pg) t"
  shows "waiting_up (replaced pg t w) p =
    waiting_up w p @ (if w_conn w p = Some (pg, cur (the (cl_sig t))) then ms else [])"
proof (cases "w_conn w p")
  case (Some c)
  then obtain pg' j where c: "w_conn w p = Some (pg', j)" by (cases c) simp
  with assms(1) have "w_taken w p \<le> length (sent_on j (w_pages w ! pg'))" by (auto simp: conns_ok_def)
  with c assms(2) sent_on_moves [OF assms(3), of j] show ?thesis
    by (auto simp: waiting_up_def replaced_def nth_list_update)
qed (simp add: waiting_up_def replaced_def)

section \<open>The invariant is kept\<close>

lemma world_invD:
  assumes "world_inv w"
  shows "list_all page_ok (w_pages w)" and "conns_ok w" and "server_inv (w_server w)"
    and "dom (conns (w_server w)) \<subseteq> dom (w_conn w)" and "senders_typed (app (w_server w))"
    and "conns (w_server w) p \<noteq> None \<Longrightarrow>
      used_up (app (w_server w)) p + length (filter asks (waiting_up w p)) \<le> 1"
  using assms unfolding world_inv_def asks_once_def by blast+

lemma with_server [simp]:
  "conns_ok (w\<lparr>w_server := s\<rparr>) = conns_ok w" "waiting_up (w\<lparr>w_server := s\<rparr>) p = waiting_up w p"
  by (simp_all add: conns_ok_def waiting_up_def sig_of_def split: option.split prod.split)

lemma world_invI:
  assumes "list_all page_ok (w_pages w)" and "conns_ok w" and "server_inv s"
    and "dom (conns s) \<subseteq> dom (w_conn w)" and "senders_typed (app s)"
    and "\<And>p. conns s p \<noteq> None \<Longrightarrow> used_up (app s) p + length (filter asks (waiting_up w p)) \<le> 1"
  shows "world_inv (w\<lparr>w_server := s\<rparr>)"
  using assms by (simp add: world_inv_def asks_once_def)

lemma page_of_world:
  assumes "world_inv w" and "pg < length (w_pages w)"
  shows "page_ok (w_pages w ! pg)" and "cl_sig (w_pages w ! pg) = Some (sig_of w pg)"
proof -
  show ok: "page_ok (w_pages w ! pg)" using world_invD(1) [OF assms(1)] assms(2) by (simp add: list_all_length)
  then show "cl_sig (w_pages w ! pg) = Some (sig_of w pg)"
    by (auto simp: page_ok_def sig_of_def split: option.splits)
qed

text \<open>An event of a page in which it asks for nothing.\<close>

lemma quiet_event:
  assumes "world_inv w" and "pg < length (w_pages w)" and "moves 0 ms (w_pages w ! pg) t"
  shows "world_inv (replaced pg t w)"
proof -
  note D = world_invD [OF assms(1)]
  have "length (filter asks ms) = 0" using assms(3) by (simp add: moves_def split: option.splits)
  then have "length (filter asks (waiting_up (replaced pg t w) p)) = length (filter asks (waiting_up w p))" for p
    by (simp add: replaced_waiting [OF D(2) assms(2,3)])
  then have "world_inv ((replaced pg t w)\<lparr>w_server := w_server w\<rparr>)"
    using D by (intro world_invI replaced_pages [OF D(1) assms(2,3)] replaced_conns [OF D(2) assms(2,3)])
      (simp_all add: replaced_def)
  then show ?thesis by (simp add: replaced_def)
qed

lemma inv_local:
  assumes "world_inv w" and "world_ok w (Local pg e)"
  shows "world_inv (world_step P ser w (Local pg e))"
proof -
  have pg: "pg < length (w_pages w)" and e: "by_itself e" using assms(2) by simp_all
  obtain ms where "moves 0 ms (w_pages w ! pg) (client_step P (w_pages w ! pg) e)"
  proof (cases "\<exists>pc_err b. e = Sig_Event pc_err b")
    case True
    then obtain pc_err b where b: "e = Sig_Event pc_err b" by blast
    then have "browser_ok (sig_of w pg) b" using assms(2) by simp
    from moves_sig [OF page_of_world [OF assms(1) pg] this, of P pc_err]
    obtain ms where "moves 0 ms (w_pages w ! pg) (client_step P (w_pages w ! pg) (Sig_Event pc_err b))"
      unfolding requests_of_event [OF e [unfolded b]] by blast
    then show ?thesis using that by (simp only: b)
  next
    case False
    then show ?thesis using that moves_other [OF page_of_world(1) [OF assms(1) pg] e, of P] by blast
  qed
  then have "world_inv (replaced pg (client_step P (w_pages w ! pg) e) w)" by (rule quiet_event [OF assms(1) pg])
  then show ?thesis by (simp add: world_step_def in_page_def replaced_def)
qed

lemma inv_load:
  assumes "world_inv w"
  shows "world_inv (world_step P ser w (Load hash session_owns))"
proof -
  let ?t = "client_step P (client_new hash session_owns) (Mount None)"
  let ?w = "w\<lparr>w_pages := w_pages w @ [?t]\<rparr>"
  note D = world_invD [OF assms]
  have t: "page_ok ?t"
    using signaling_inv_connect by (simp add: page_ok_def mount_def signaling_connect_def)
  have old: "w_conn w p = Some (pg, j) \<Longrightarrow> pg < length (w_pages w)" for p pg j
    using D(2) by (auto simp: conns_ok_def)
  then have conns: "conns_ok ?w"
    using D(2) unfolding conns_ok_def by (auto simp: sig_of_def nth_append less_Suc_eq)
  have waiting: "waiting_up ?w p = waiting_up w p" for p
    using old [of p] by (auto simp: waiting_up_def nth_append split: option.split)
  have "world_inv (?w\<lparr>w_server := w_server w\<rparr>)"
    using D t by (intro world_invI conns) (simp_all add: waiting del: client_step.simps)
  then show ?thesis by (simp add: world_step_def)
qed

lemma inv_lost:
  assumes "world_inv w"
  shows "world_inv (world_step P ser w (Lost p))"
proof -
  note D = world_invD [OF assms]
  let ?s = "server_step (p_parse P) (w_server w) (StreamEnd p)"
  have "server_inv ?s" using D(3) by (rule server_inv_step)
  moreover have "senders_typed (app ?s)" using D(5) by (simp add: disconnect_def typed_cleanup)
  moreover have "dom (conns ?s) \<subseteq> dom (w_conn w)" using D(4) by (auto simp: disconnect_def)
  moreover have "used_up (app ?s) q + length (filter asks (waiting_up w q)) \<le> 1" if "conns ?s q \<noteq> None" for q
    using that D(6) [of q] used_up_cleanup [of q p "app (w_server w)"]
    by (auto simp: disconnect_def split: if_splits)
  ultimately have "world_inv (w\<lparr>w_server := ?s\<rparr>)" using D by (intro world_invI)
  then show ?thesis by (simp add: world_step_def)
qed

text \<open>A message of a connection is one that its page sent, and the next one is not yet used up.\<close>

lemma waiting_originated:
  assumes "world_inv w" and "m \<in> set (waiting_up w p)"
  shows "client_originated m"
proof -
  from assms(2) obtain pg j where c: "w_conn w p = Some (pg, j)"
    and m: "m \<in> set (sent_on j (w_pages w ! pg))"
    by (cases "w_conn w p") (auto simp: waiting_up_def dest: in_set_dropD)
  have pg: "pg < length (w_pages w)" using world_invD(2) [OF assms(1)] c by (auto simp: conns_ok_def)
  from page_of_world [OF assms(1) pg] m show ?thesis by (auto simp: page_ok_def sent_on_def)
qed

lemma waiting_taken:
  assumes "world_inv w" and "waiting_up w p = m # ms"
  defines "w' \<equiv> w\<lparr>w_taken := (w_taken w)(p := w_taken w p + 1)\<rparr>"
  shows "waiting_up w' p = ms" and "q \<noteq> p \<Longrightarrow> waiting_up w' q = waiting_up w q" and "conns_ok w'"
proof -
  from assms(2) obtain pg j where c: "w_conn w p = Some (pg, j)"
    and d: "drop (w_taken w p) (sent_on j (w_pages w ! pg)) = m # ms"
    by (auto simp: waiting_up_def split: option.splits)
  then show "waiting_up w' p = ms" by (simp add: waiting_up_def w'_def drop_Suc drop_tl)
  show "q \<noteq> p \<Longrightarrow> waiting_up w' q = waiting_up w q"
    by (simp add: waiting_up_def w'_def split: option.split prod.split)
  have "w_taken w p < length (sent_on j (w_pages w ! pg))"
    using d by (metis drop_all linorder_not_le list.distinct(1))
  with c show "conns_ok w'"
    using world_invD(2) [OF assms(1)] by (auto simp: conns_ok_def w'_def sig_of_def)
qed

lemma next_request:
  assumes "world_inv w" and "waiting_up w p = m # ms" and "conns (w_server w) p \<noteq> None" and "asks m"
  shows "peer_room (registry (app (w_server w))) p = None"
  using world_invD(6) [OF assms(1,3)] assms(2,4) by (simp add: used_up_def split: if_splits)

lemma inv_upward:
  assumes "world_inv w" and serde: "\<And>m. p_parse P (ser m) = Some m"
  shows "world_inv (world_step P ser w (Upward p now fresh))"
proof (cases "waiting_up w p")
  case Nil
  then show ?thesis using assms(1) by (simp add: world_step_def)
next
  case (Cons m ms)
  note D = world_invD [OF assms(1)] and taken = waiting_taken [OF assms(1) Cons]
  let ?w = "w\<lparr>w_taken := (w_taken w)(p := w_taken w p + 1)\<rparr>"
  let ?s = "server_step (p_parse P) (w_server w) (Inbound p (TextFrame (ser m)) now fresh)"
  have m: "client_originated m" using waiting_originated [OF assms(1), of m p] Cons by simp
  have budget: "used_up (app ?s) q + length (filter asks (waiting_up ?w q)) \<le> 1" if "conns ?s q \<noteq> None" for q
  proof (cases "conns (w_server w) p")
    case None
    with that have "q \<noteq> p" by auto
    with None that show ?thesis using D(6) [of q] taken(2) by simp
  next
    case (Some ip)
    have q: "conns (w_server w) q \<noteq> None" using that Some by (simp add: serde)
    have free: "asks m \<Longrightarrow> peer_room (registry (app (w_server w))) p = None"
      using next_request [OF assms(1) Cons] Some by simp
    note used = used_up_handle [OF m free]
    show ?thesis
    proof (cases "q = p")
      case True
      have "used_up (app ?s) p \<le> used_up (app (w_server w)) p + (if asks m then 1 else 0)"
        using used(1) [of ip now fresh] Some by (simp add: serde)
      with True show ?thesis using D(6) [OF q] Cons taken(1) by (simp split: if_splits)
    next
      case False
      with used(2) [of q ip now fresh] show ?thesis using D(6) [OF q] taken(2) [of q] Some by (simp add: serde)
    qed
  qed
  have typed: "senders_typed (app ?s)" using D(5) by (simp add: serde typed_handle split: option.split)
  have dom: "dom (conns ?s) \<subseteq> dom (w_conn ?w)" using D(4) by (simp add: serde split: option.split)
  have "world_inv (?w\<lparr>w_server := ?s\<rparr>)"
    by (rule world_invI [OF _ taken(3) server_inv_step [OF D(3)] dom typed budget]) (use D(1) in simp)
  then show ?thesis using Cons by (simp add: world_step_def)
qed

text \<open>Writing a message uses up one refusal, if it is one.\<close>

lemma used_up_drained:
  assumes "senders st p = Some (m # ms)"
  shows "used_up (st\<lparr>senders := (senders st)(p \<mapsto> ms)\<rparr>) p + (if m = RoomNotFound then 1 else 0) = used_up st p"
    and "q \<noteq> p \<Longrightarrow> used_up (st\<lparr>senders := (senders st)(p \<mapsto> ms)\<rparr>) q = used_up st q"
  using assms by (auto simp: used_up_def refusals_def)

lemma requests_of_text:
  assumes "parse str = Some m"
  shows "sum_list (map callback_requests (drop (length (calls g)) (calls (signaling_step parse g (Sock_Text j str)))))
    \<le> (if j = cur g \<and> m = RoomNotFound then 1 else 0)"
  using assms by (cases m) (auto simp: ws_onmessage_def)

lemma text_moves:
  assumes "world_inv w" and "w_conn w p = Some (pg, j)" and "socks (sig_of w pg) ! j = OPEN" and "p_parse P str = Some m"
  obtains n ms where "moves n ms (w_pages w ! pg) (client_step P (w_pages w ! pg) (Sig_Event pc_err (Sock_Text j str)))"
    and "n \<le> (if m = RoomNotFound then 1 else 0)"
    and "\<And>q. q \<noteq> p \<Longrightarrow>
      w_conn w q = Some (pg, cur (the (cl_sig (client_step P (w_pages w ! pg) (Sig_Event pc_err (Sock_Text j str)))))) \<Longrightarrow> n = 0"
proof -
  have c: "pg < length (w_pages w)" "j < length (socks (sig_of w pg))"
    using world_invD(2) [OF assms(1)] assms(2) by (auto simp: conns_ok_def)
  have "browser_ok (sig_of w pg) (Sock_Text j str)" using c(2) assms(3) by simp
  from moves_sig [OF page_of_world [OF assms(1) c(1)] this, of P pc_err]
  obtain ms where ms: "moves (sum_list (map callback_requests (drop (length (calls (sig_of w pg)))
        (calls (signaling_step (p_parse P) (sig_of w pg) (Sock_Text j str))))))
      ms (w_pages w ! pg) (client_step P (w_pages w ! pg) (Sig_Event pc_err (Sock_Text j str)))"
    and cur: "cur (the (cl_sig (client_step P (w_pages w ! pg) (Sig_Event pc_err (Sock_Text j str))))) = cur (sig_of w pg)"
    by (auto simp: ws_onmessage_def simp del: client_step.simps split: option.splits if_splits)
  note n = requests_of_text [of "p_parse P" str m "sig_of w pg" j, OF assms(4)]
  show thesis
  proof (rule that [OF ms])
    fix q assume "q \<noteq> p" "w_conn w q = Some (pg, cur (the (cl_sig (client_step P (w_pages w ! pg) (Sig_Event pc_err (Sock_Text j str))))))"
    then have "j \<noteq> cur (sig_of w pg)"
      using world_invD(2) [OF assms(1)] assms(2) by (auto simp: conns_ok_def cur simp del: client_step.simps)
    with n show "sum_list (map callback_requests (drop (length (calls (sig_of w pg)))
        (calls (signaling_step (p_parse P) (sig_of w pg) (Sock_Text j str))))) = 0" by simp
  qed (use n in \<open>auto split: if_splits\<close>)
qed

lemma inv_downward:
  assumes "world_inv w" and serde: "\<And>m. p_parse P (ser m) = Some m"
  shows "world_inv (world_step P ser w (Downward p pc_err))"
proof (cases "\<exists>m ms. senders (app (w_server w)) p = Some (m # ms)")
  case False
  then have "server_events ser w (Downward p pc_err) = []" "page_part P ser w (Downward p pc_err) = w"
    by (auto split: option.split list.split)
  then show ?thesis using assms(1) by (simp add: world_step_def)
next
  case True
  then obtain m ms where q: "senders (app (w_server w)) p = Some (m # ms)" by blast
  note D = world_invD [OF assms(1)]
  let ?st = "(app (w_server w))\<lparr>senders := (senders (app (w_server w)))(p \<mapsto> ms)\<rparr>"
  let ?s = "server_step (p_parse P) (w_server w) (Drain p True)"
  let ?w = "page_part P ser w (Downward p pc_err)"
  have p: "conns (w_server w) p \<noteq> None" using D(3) q unfolding server_inv_def by (metis domIff option.distinct(1))
  then have app: "app ?s = ?st" "conns ?s = conns (w_server w)" using q by (auto simp: drain_def)
  obtain pg j where c: "w_conn w p = Some (pg, j)" using D(4) p by fastforce
  have "list_all page_ok (w_pages ?w) \<and> conns_ok ?w \<and> w_conn ?w = w_conn w \<and>
      (\<forall>q. length (filter asks (waiting_up ?w q)) \<le>
        length (filter asks (waiting_up w q)) + (if q = p \<and> m = RoomNotFound then 1 else 0))"
  proof (cases "socks (sig_of w pg) ! j = OPEN")
    case False
    then show ?thesis using D q c by simp
  next
    case True
    have pg: "pg < length (w_pages w)" using D(2) c by (auto simp: conns_ok_def)
    let ?t = "client_step P (w_pages w ! pg) (Sig_Event pc_err (Sock_Text j (ser m)))"
    obtain n ns where n: "moves n ns (w_pages w ! pg) ?t" "n \<le> (if m = RoomNotFound then 1 else 0)"
      "\<And>q. q \<noteq> p \<Longrightarrow> w_conn w q = Some (pg, cur (the (cl_sig ?t))) \<Longrightarrow> n = 0"
      using text_moves [OF assms(1) c True serde] by blast
    have w: "?w = replaced pg ?t w" using True q c by (simp add: in_page_def replaced_def)
    have ns: "length (filter asks ns) \<le> n" using n(1) by (simp add: moves_def split: option.splits)
    have "length (filter asks (waiting_up ?w q)) \<le>
        length (filter asks (waiting_up w q)) + (if q = p \<and> m = RoomNotFound then 1 else 0)" for q
      using n(2) n(3) [of q] ns unfolding w replaced_waiting [OF D(2) pg n(1)]
      by (cases "q = p") (auto simp del: client_step.simps split: if_splits)
    then show ?thesis
      unfolding w using replaced_pages [OF D(1) pg n(1)] replaced_conns [OF D(2) pg n(1)]
      by (simp add: replaced_def del: client_step.simps)
  qed
  note W = this
  have "used_up (app ?s) r + length (filter asks (waiting_up ?w r)) \<le> 1" if "conns ?s r \<noteq> None" for r
  proof -
    have "used_up (app ?s) r + (if r = p \<and> m = RoomNotFound then 1 else 0) = used_up (app (w_server w)) r"
      using used_up_drained [of "app (w_server w)" p m ms] q unfolding app by (cases "r = p") simp_all
    moreover have "length (filter asks (waiting_up ?w r)) \<le>
        length (filter asks (waiting_up w r)) + (if r = p \<and> m = RoomNotFound then 1 else 0)"
      using W by blast
    moreover have "used_up (app (w_server w)) r + length (filter asks (waiting_up w r)) \<le> 1"
      using D(6) [of r] that app(2) by simp
    ultimately show ?thesis by linarith
  qed
  moreover have "senders_typed (app ?s)"
    using D(5) q unfolding app senders_typed_def by (metis (no_types, lifting) app_state.select_convs(2)
      app_state.surjective app_state.update_convs(2) fun_upd_apply list.pred_inject(2) option.inject)
  ultimately have "world_inv (?w\<lparr>w_server := ?s\<rparr>)"
    using W D(4) app(2) by (intro world_invI server_inv_step [OF D(3)]) simp_all
  then show ?thesis using q by (simp add: world_step_def Let_def del: page_part.simps)
qed

lemma inv_opens:
  assumes "world_inv w" and "world_ok w (Opens pg ip pc_err)"
  shows "world_inv (world_step P ser w (Opens pg ip pc_err))"
proof -
  note D = world_invD [OF assms(1)]
  let ?p = "next_id (app (w_server w))"
  let ?g = "sig_of w pg"
  let ?j = "cur ?g"
  let ?t = "client_step P (w_pages w ! pg) (Sig_Event pc_err (Sock_Opens ?j))"
  let ?s = "server_step (p_parse P) (w_server w) (Connect ip)"
  let ?w = "(replaced pg ?t w)\<lparr>w_conn := (w_conn w)(?p \<mapsto> (pg, ?j)), w_taken := (w_taken w)(?p := 0)\<rparr>"
  have pg: "pg < length (w_pages w)" and j: "socks ?g ! ?j = CONNECTING" and p: "w_conn w ?p = None"
    using assms(2) by simp_all
  note page = page_of_world [OF assms(1) pg]
  have len: "?j < length (socks ?g)" using page by (simp add: page_ok_def signaling_inv_def)
  have "sum_list (map callback_requests (drop (length (calls ?g)) (calls (signaling_step (p_parse P) ?g (Sock_Opens ?j))))) = 1"
    by (simp add: ws_onopen_def set_state_def)
  moreover have "browser_ok ?g (Sock_Opens ?j)" using j len by simp
  ultimately obtain ms xs where ms: "moves 1 ms (w_pages w ! pg) ?t"
    and t: "cl_sig ?t = Some (signaling_step (p_parse P) ?g (Sock_Opens ?j)\<lparr>sent := xs\<rparr>)"
    using moves_sig [OF page, of "Sock_Opens ?j" P pc_err] by auto
  have cur: "cur (the (cl_sig ?t)) = ?j" and opened: "socks (the (cl_sig ?t)) = (socks ?g)[?j := OPEN]"
    unfolding t by (simp_all add: ws_onopen_def set_state_def)
  have "sent_on ?j (w_pages w ! pg) = []"
    using page j by (auto simp: page_ok_def sent_on_def filter_empty_conv)
  then have sent: "sent_on ?j ?t = ms" using sent_on_moves [OF ms, of ?j] cur by simp
  have unused: "w_conn w q \<noteq> Some (pg, ?j)" for q using D(2) j by (auto simp: conns_ok_def)
  have pages: "list_all page_ok (w_pages ?w)" using replaced_pages [OF D(1) pg ms] by simp
  have conns: "conns_ok ?w"
    unfolding conns_ok_def
  proof (intro conjI allI impI)
    fix q pg' j' assume q: "w_conn ?w q = Some (pg', j')"
    show "pg' < length (w_pages ?w)" "j' < length (socks (sig_of ?w pg'))" "socks (sig_of ?w pg') ! j' \<noteq> CONNECTING"
        "w_taken ?w q \<le> length (sent_on j' (w_pages ?w ! pg'))"
      using q pg len opened replaced_conns [OF D(2) pg ms]
      by (auto simp: conns_ok_def sig_of_def replaced_def split: if_splits)
  qed (use D(2) unused in \<open>auto simp: conns_ok_def split: if_splits\<close>)
  have "conns (w_server w) ?p = None" using D(4) p by (meson domIff subsetD)
  then have "peer_room (registry (app (w_server w))) ?p = None" by (rule unconnected(2) [OF D(3)])
  moreover have "used_up (app ?s) q = (if q = ?p then (if peer_room (registry (app (w_server w))) ?p = None then 0 else 1)
      else used_up (app (w_server w)) q)" for q
    by (simp add: connect_socket_def used_up_def refusals_def Let_def)
  moreover have "waiting_up ?w ?p = ms" using pg sent by (simp add: waiting_up_def replaced_def del: client_step.simps)
  moreover have "length (filter asks ms) \<le> 1" using ms by (simp add: moves_def split: option.splits)
  moreover have "waiting_up ?w q = waiting_up w q" if "q \<noteq> ?p" for q
    using that replaced_waiting [OF D(2) pg ms, of q] unused [of q]
    by (auto simp: waiting_up_def replaced_def cur simp del: client_step.simps split: option.split)
  ultimately have budget: "used_up (app ?s) q + length (filter asks (waiting_up ?w q)) \<le> 1" if "conns ?s q \<noteq> None" for q
    using that D(6) [of q] by (cases "q = ?p") (simp_all add: connect_socket_def Let_def)
  have typed: "senders_typed (app ?s)" using D(5) by (simp add: senders_typed_def connect_socket_def Let_def)
  have dom: "dom (conns ?s) \<subseteq> dom (w_conn ?w)" using D(4) by (auto simp: connect_socket_def Let_def)
  have "world_inv (?w\<lparr>w_server := ?s\<rparr>)"
    by (rule world_invI [OF pages conns server_inv_step [OF D(3)] dom typed budget])
  moreover have "world_step P ser w (Opens pg ip pc_err) = ?w\<lparr>w_server := ?s\<rparr>"
    by (rule world.equality) (simp_all add: world_step_def in_page_def replaced_def Let_def del: client_step.simps)
  ultimately show ?thesis by simp
qed

lemma world_inv_step:
  assumes "world_inv w" and "world_ok w e" and serde: "\<And>m. p_parse P (ser m) = Some m"
  shows "world_inv (world_step P ser w e)"
proof (cases e)
  case (Load hash session_owns)
  then show ?thesis using inv_load [OF assms(1)] by simp
next
  case (Opens pg ip pc_err)
  then show ?thesis using inv_opens [OF assms(1)] assms(2) by simp
next
  case (Upward p now fresh)
  then show ?thesis using inv_upward [OF assms(1) serde] by simp
next
  case (Downward p pc_err)
  then show ?thesis using inv_downward [OF assms(1) serde] by simp
next
  case (Lost p)
  then show ?thesis using inv_lost [OF assms(1)] by simp
next
  case (Local pg e')
  then show ?thesis using inv_local [OF assms(1)] assms(2) by simp
qed

text \<open>The guard with what is used of serde.\<close>

definition serde_ok :: "'t platform \<Rightarrow> (signal_msg \<Rightarrow> rstr) \<Rightarrow> bool" where
  "serde_ok P ser \<longleftrightarrow> (\<forall>m. p_parse P (ser m) = Some m)"

interpretation the_world: invariant_machine "world_step P ser" "\<lambda>w e. world_ok w e \<and> serde_ok P ser" world_inv
  for P ser
  by unfold_locales (auto simp: serde_ok_def intro: world_inv_step)

lemma world_history_inv:
  assumes "\<And>m. p_parse P (ser m) = Some m" and "world_history P ser es"
  shows "run_ok (\<lambda>w e. (world_ok w e \<and> serde_ok P ser) \<and> world_inv w) (world_step P ser) world_new es"
    and "world_inv (world_after P ser es)"
proof -
  have "run_ok (\<lambda>w e. world_ok w e \<and> serde_ok P ser) (world_step P ser) world_new es"
    using assms by (auto simp: serde_ok_def world_history_def elim: run_ok_mono)
  then show "run_ok (\<lambda>w e. (world_ok w e \<and> serde_ok P ser) \<and> world_inv w) (world_step P ser) world_new es"
    and "world_inv (world_after P ser es)"
    unfolding world_after_def using the_world.run_ok_inv the_world.run_inv world_inv_new by blast+
qed

text \<open>What the pages make the server do keeps its promise.\<close>

lemma pages_disciplined:
  assumes "world_inv w" and "world_ok w e" and "serde_ok P ser"
  shows "run_ok (disciplined (p_parse P)) (server_step (p_parse P)) (w_server w) (server_events ser w e)"
proof (cases e)
  case (Upward p now fresh)
  show ?thesis
  proof (cases "waiting_up w p")
    case (Cons m ms)
    have "disciplined_msg (app (w_server w)) p fresh m" if "conns (w_server w) p \<noteq> None"
      using next_request [OF assms(1) Cons that] assms(2) by (cases m) (simp_all add: Upward)
    then show ?thesis
      using Cons assms(3) by (auto simp: Upward disciplined_def serde_ok_def split: option.split)
  qed (simp add: Upward)
qed (simp_all add: disciplined_def split: option.split list.split)

lemma pages_keep_the_promise:
  assumes "\<And>m. p_parse P (ser m) = Some m" and "world_history P ser es"
  shows "well_behaved (p_parse P) (server_trace P ser es)"
    and "w_server (world_after P ser es) = server_run (p_parse P) (server_trace P ser es)"
proof -
  show "well_behaved (p_parse P) (server_trace P ser es)"
    using world_server.run_component_ok [OF _ world_history_inv(1) [OF assms]] pages_disciplined
    unfolding server_trace_def by (fastforce simp: world_new_def)
  show "w_server (world_after P ser es) = server_run (p_parse P) (server_trace P ser es)"
    unfolding world_after_def server_trace_def world_server.run_proj by (simp add: world_new_def)
qed

section \<open>What the pages guarantee to the server\<close>

text \<open>A serde for the demonstration: a tag and, with lengths in front, the strings.\<close>

fun demo_ser :: "signal_msg \<Rightarrow> rstr" where
  "demo_ser Create = [0]"
| "demo_ser (Reclaim r) = 1 # r"
| "demo_ser (Created r) = 2 # r"
| "demo_ser (Join r) = 3 # r"
| "demo_ser PeerJoined = [4]"
| "demo_ser PeerLeft = [5]"
| "demo_ser RoomFull = [6]"
| "demo_ser RoomNotFound = [7]"
| "demo_ser (Sdp a b) = 8 # length a # a @ b"
| "demo_ser (Ice c) = 9 # c"

fun demo_de :: "rstr \<Rightarrow> signal_msg option" where
  "demo_de [] = None"
| "demo_de (t # s) =
     (if t = 0 then Some Create else if t = 1 then Some (Reclaim s) else if t = 2 then Some (Created s)
      else if t = 3 then Some (Join s) else if t = 4 then Some PeerJoined else if t = 5 then Some PeerLeft
      else if t = 6 then Some RoomFull else if t = 7 then Some RoomNotFound
      else if t = 8 then Some (Sdp (take (hd s) (tl s)) (drop (hd s) (tl s)))
      else if t = 9 then Some (Ice s) else None)"

definition demo_serde :: "unit platform" where
  "demo_serde =
     \<lparr>p_enc = (\<lambda>_. ()), p_dec = (\<lambda>_. None), p_parse = demo_de, p_origin = lit ''http://a.b'', p_qr = (\<lambda>_. None)\<rparr>"

lemma demo_serde: "p_parse demo_serde (demo_ser m) = Some m"
  by (cases m) (simp_all add: demo_serde_def)

lemmas page_simps =
  client_new_def mount_def sig_event_def react_def on_message_def sig_send_def signaling_send_def
  set_state_def ws_onopen_def ws_onmessage_def signaling_connect_def build_pc_def wire_ctrl_def
  emit_def Let_def

lemmas world_simps =
  world_step_def in_page_def waiting_up_def sent_on_def sig_of_def world_new_def server_new_def app_new_def
  connect_socket_def drain_def

text \<open>A page is loaded and makes a room.\<close>

definition demo_world :: "unit world_event list" where
  "demo_world = [Load [] None, Opens 0 (V4 1) None, Upward 1 10 (lit ''k7m4qp''), Downward 1 None]"

lemma demo_world_history: "world_history demo_serde demo_ser demo_world"
  by (simp add: world_history_def demo_world_def world_simps page_simps demo_serde registry_defs handler_defs
      send_to_def room_from_hash_def trim_start_def strip_prefix_def)

text \<open>(C3) The promise on which the guarantees of the server rest is kept by the pages of this repository,
  whatever their users do, however connections are lost and replaced, and however slow the network
  is: everything that the server of a world of pages goes through is a well-behaved history. A page
  asks for a room when a socket opens and once more after a refusal, and never while its connection
  is in a room. So the registry of that server is well-formed.\<close>

theorem pages_are_well_behaved:
  fixes P :: "'t platform" and ser :: "signal_msg \<Rightarrow> rstr"
  assumes "\<And>m. p_parse P (ser m) = Some m" and "world_history P ser es"
  defines "es' \<equiv> server_trace P ser es"
  shows "well_behaved (p_parse P) es' \<and> w_server (world_after P ser es) = server_run (p_parse P) es' \<and>
    registry_wf (registry (app (w_server (world_after P ser es))))"
proof -
  note promise = pages_keep_the_promise [OF assms(1,2), folded es'_def]
  from disciplined_run_registry [OF promise(1)] promise show ?thesis by simp
qed

theorem pages_are_well_behaved_witness:
  "registry_wf (registry (app (w_server (world_after demo_serde demo_ser demo_world))))"
  by (rule pages_are_well_behaved [OF demo_serde demo_world_history, THEN conjunct2, THEN conjunct2])

text \<open>(C23) The type \<open>SignalMsg\<close> is shared by both directions, and what travels in each direction is of its
  half of the type: every message on its way from a page to the server is one that a client
  originates, every message on its way from the server to a page is one that the page translates
  into an event. So neither of the two catch-all branches, the server's and the page's, is ever
  taken.\<close>

theorem each_direction_has_its_type:
  fixes P :: "'t platform" and ser :: "signal_msg \<Rightarrow> rstr" and tab :: "'t client"
  assumes "\<And>m. p_parse P (ser m) = Some m" and "world_history P ser es"
  defines "w \<equiv> world_after P ser es"
  shows "list_all client_originated (waiting_up w p) \<and>
    list_all (\<lambda>m. fst (to_event m tab) \<noteq> None) (case senders (app (w_server w)) p of Some q \<Rightarrow> q | None \<Rightarrow> [])"
proof -
  have inv: "world_inv w" unfolding w_def by (rule world_history_inv(2) [OF assms(1,2)])
  have "fst (to_event m tab) \<noteq> None" if "server_originated m" for m
    using that by (cases m) (simp_all add: server_originated_def)
  then show ?thesis
    using waiting_originated [OF inv] world_invD(5) [OF inv]
    by (cases "senders (app (w_server w)) p") (auto simp: list_all_iff senders_typed_def)
qed

theorem each_direction_has_its_type_witness:
  "list_all client_originated (waiting_up (world_after demo_serde demo_ser (take 2 demo_world)) 1) \<and>
   waiting_up (world_after demo_serde demo_ser (take 2 demo_world)) 1 = [Create]"
proof -
  have "world_history demo_serde demo_ser (take 2 demo_world)"
    by (simp add: world_history_def demo_world_def world_simps page_simps)
  moreover have "waiting_up (world_after demo_serde demo_ser (take 2 demo_world)) 1 = [Create]"
    by (simp add: world_after_def demo_world_def world_simps page_simps room_from_hash_def trim_start_def strip_prefix_def)
  ultimately show ?thesis
    using each_direction_has_its_type [of demo_serde demo_ser "take 2 demo_world" 1, OF demo_serde] by simp
qed

end
