(* ===== verification/Handshake.thy ===== *)
theory Handshake
  imports World
begin

text \<open>
  Two runs of pages and server together, for whatever the server, the browsers and the users
  contribute: a page that makes a room and a page that is opened from its link meet, and an answer
  arrives for an offer that was given up.
\<close>

section \<open>The handshake\<close>

text \<open>
  One page makes a room, another is loaded from the link, and both negotiate. The offer and the
  answer are what the browser makes when it is asked to.
\<close>

definition meeting :: "ip_addr \<Rightarrow> ip_addr \<Rightarrow> u64 \<Rightarrow> u64 \<Rightarrow> rstr \<Rightarrow> rstr \<Rightarrow> rstr \<Rightarrow> 't world_event list" where
  "meeting ip1 ip2 t1 t2 room offer answer =
     [Load [] None, Opens 0 ip1 None, Upward 1 t1 room, Downward 1 None,
      Load (lit ''#'' @ room_fragment room) None, Opens 1 ip2 None, Upward 2 t2 [], Downward 1 None,
      Local 0 (Offer_Made offer), Upward 1 t2 [], Downward 2 None,
      Local 1 (Answer_Made answer), Upward 2 t2 [], Downward 1 None]"

text \<open>The pages and the server on the way, as far as the steps change them.\<close>

definition tab_sig :: "callback list \<Rightarrow> signal_msg list \<Rightarrow> signaling" where
  "tab_sig cs ms =
     \<lparr>socks = [OPEN], cur = 0, attempt = 0, closed = False, timers = [], calls = cs, sent = map (Pair 0) ms\<rparr>"

definition owner_tab ::
  "'t platform \<Rightarrow> rstr \<Rightarrow> nat \<Rightarrow> callback list \<Rightarrow> signal_msg list \<Rightarrow> effect list \<Rightarrow> 't client" where
  "owner_tab P room pcs cs ms effs =
     \<lparr>cl_status = StWaitingForPeer, cl_link = share_link (p_origin P) room, cl_code = room,
      cl_qr = qr_svg (p_qr P) (share_link (p_origin P) room), cl_items = [],
      cl_pcs = pcs, cl_pc = (if pcs = 0 then None else Some (pcs - 1)),
      cl_transfers = replicate pcs receiver_new, cl_transfer = (if pcs = 0 then None else Some (pcs - 1)),
      cl_sig = Some (tab_sig cs ms), cl_next_id = 0, cl_pending = [],
      cl_session = \<lparr>room_in_hash = Some room, owns = Some room, reclaim_tried = False, has_pc = (pcs \<noteq> 0)\<rparr>,
      cl_last_ice = None, cl_effects = effs, cl_log = []\<rparr>"

definition guest_tab :: "rstr \<Rightarrow> bool \<Rightarrow> callback list \<Rightarrow> signal_msg list \<Rightarrow> effect list \<Rightarrow> 't client" where
  "guest_tab room pc cs ms effs =
     \<lparr>cl_status = StConnecting, cl_link = [], cl_code = [], cl_qr = [], cl_items = [],
      cl_pcs = (if pc then 1 else 0), cl_pc = (if pc then Some 0 else None), cl_transfers = [],
      cl_transfer = None, cl_sig = Some (tab_sig cs ms), cl_next_id = 0, cl_pending = [],
      cl_session = \<lparr>room_in_hash = Some room, owns = None, reclaim_tried = False, has_pc = pc\<rparr>,
      cl_last_ice = None, cl_effects = effs, cl_log = []\<rparr>"

definition server_with ::
  "rstr \<Rightarrow> peer_id list \<Rightarrow> u64 \<Rightarrow> (peer_id \<rightharpoonup> rstr) \<Rightarrow> (peer_id \<rightharpoonup> signal_msg list) \<Rightarrow> u64 \<Rightarrow> (peer_id \<rightharpoonup> ip_addr) \<Rightarrow>
     (peer_id \<times> signal_msg) list \<Rightarrow> server" where
  "server_with room ps t index queues nxt cs wir =
     \<lparr>app = \<lparr>registry = \<lparr>rooms = [room \<mapsto> \<lparr>peers = ps, last_activity_ms = t\<rparr>], peer_room = index\<rparr>,
             senders = queues, next_id = nxt, limiter = limiter_new JOIN_WINDOW_MS JOIN_MAX_FAILURES\<rparr>,
      conns = cs, wire = wir\<rparr>"

definition alone :: "'t platform \<Rightarrow> ip_addr \<Rightarrow> u64 \<Rightarrow> rstr \<Rightarrow> 't world" where
  "alone P ip1 t1 room =
     \<lparr>w_server = server_with room [1] t1 [1 \<mapsto> room] [1 \<mapsto> []] 2 [1 \<mapsto> ip1] [(1, Created room)],
      w_pages = [owner_tab P room 0 [On_Open, On_Msg (Created room)] [Create]
                   [Set_Hash (room_fragment room), Set_Session_Owns room]],
      w_conn = [1 \<mapsto> (0, 0)], w_taken = (\<lambda>_. 0)(1 := 1)\<rparr>"

definition paired ::
  "ip_addr \<Rightarrow> ip_addr \<Rightarrow> u64 \<Rightarrow> rstr \<Rightarrow> signal_msg list \<Rightarrow> signal_msg list \<Rightarrow> (peer_id \<times> signal_msg) list \<Rightarrow>
     't client \<Rightarrow> nat \<Rightarrow> 't client \<Rightarrow> nat \<Rightarrow> 't world" where
  "paired ip1 ip2 t2 room q1 q2 wir tab1 k1 tab2 k2 =
     \<lparr>w_server = server_with room [1, 2] t2 [1 \<mapsto> room, 2 \<mapsto> room] [1 \<mapsto> q1, 2 \<mapsto> q2] 3 [1 \<mapsto> ip1, 2 \<mapsto> ip2] wir,
      w_pages = [tab1, tab2], w_conn = [1 \<mapsto> (0, 0), 2 \<mapsto> (1, 0)], w_taken = (\<lambda>_. 0)(1 := k1, 2 := k2)\<rparr>"

lemma allowed_new [simp]: "allowed ip t (limiter_new W M) = (0 < M, limiter_new W M)"
  by (simp add: limiter_defs)

lemma swap:
  "(f :: peer_id \<Rightarrow> 'b)(2 := a, 1 := b) = f(1 := b, 2 := a)"
  "(f :: peer_id \<Rightarrow> 'b)(3 := a, 1 := b) = f(1 := b, 3 := a)"
  "(f :: peer_id \<Rightarrow> 'b)(3 := a, 2 := b) = f(2 := b, 3 := a)"
  by (rule fun_upd_twist, simp)+

text \<open>The events can happen one after the other, and lead from one world to the other.\<close>

definition leads :: "'t platform \<Rightarrow> (signal_msg \<Rightarrow> rstr) \<Rightarrow> 't world \<Rightarrow> 't world_event list \<Rightarrow> 't world \<Rightarrow> bool" where
  "leads P ser w es w' \<longleftrightarrow> run_ok world_ok (world_step P ser) w es \<and> run (world_step P ser) w es = w'"

lemma leads_append: "leads P ser w es w' \<Longrightarrow> leads P ser w' es' w'' \<Longrightarrow> leads P ser w (es @ es') w''"
  by (simp add: leads_def run_ok_append)

lemmas run_simps =
  leads_def contains_def
  world_simps page_simps handler_defs send_to_def server_with_def tab_sig_def swap numeral_2_eq_2

lemma room_made:
  assumes "\<And>m. p_parse P (ser m) = Some m"
  shows "leads P ser world_new [Load [] None, Opens 0 ip1 None, Upward 1 t1 room, Downward 1 None] (alone P ip1 t1 room)"
  by (simp add: run_simps registry_defs assms room_from_hash_def trim_start_def strip_prefix_def alone_def owner_tab_def)

lemma guest_joins:
  assumes "\<And>m. p_parse P (ser m) = Some m" and "room_from_hash (lit ''#'' @ room_fragment room) = Some room"
    and "room \<noteq> []"
  shows "leads P ser (alone P ip1 t1 room)
      [Load (lit ''#'' @ room_fragment room) None, Opens 1 ip2 None, Upward 2 t2 []]
    (paired ip1 ip2 t2 room [PeerJoined] [] [(1, Created room)]
      (owner_tab P room 0 [On_Open, On_Msg (Created room)] [Create]
         [Set_Hash (room_fragment room), Set_Session_Owns room]) 1
      (guest_tab room False [On_Open] [Join room] []) 1)"
  using assms(2,3)
  by (simp add: run_simps assms(1) join_def partner_def alone_def paired_def guest_tab_def JOIN_MAX_FAILURES_def)

lemma owner_offers:
  assumes "\<And>m. p_parse P (ser m) = Some m"
  shows "leads P ser
      (paired ip1 ip2 t2 room [PeerJoined] [] wir (owner_tab P room 0 cs [m] effs) 1 tab2 k2)
      [Downward 1 None]
    (paired ip1 ip2 t2 room [] [] (wir @ [(1, PeerJoined)])
      (owner_tab P room 1 (cs @ [On_Msg PeerJoined]) [m] (effs @ [Create_Offer 0])) 1 tab2 k2)"
  by (simp add: run_simps assms paired_def owner_tab_def)

lemma offer_sent:
  assumes "\<And>m. p_parse P (ser m) = Some m" and "room \<noteq> []"
  shows "leads P ser (paired ip1 ip2 t2 room [] [] wir (owner_tab P room 1 cs [m] effs) 1 tab2 k2)
      [Local 0 (Offer_Made offer), Upward 1 t3 []]
    (paired ip1 ip2 t2 room [] [Sdp offer (lit ''offer'')] wir
      (owner_tab P room 1 cs [m, Sdp offer (lit ''offer'')] effs) 2 tab2 k2)"
  using not_sym [OF assms(2)] by (simp add: run_simps assms partner_def paired_def owner_tab_def)

lemma guest_answers:
  assumes "\<And>m. p_parse P (ser m) = Some m" and "room \<noteq> []"
  shows "leads P ser
      (paired ip1 ip2 t2 room [] [Sdp offer (lit ''offer'')] wir tab1 k1 (guest_tab room False cs [m] []) 1)
      [Downward 2 None, Local 1 (Answer_Made answer), Upward 2 t2 []]
    (paired ip1 ip2 t2 room [Sdp answer (lit ''answer'')] [] (wir @ [(2, Sdp offer (lit ''offer''))]) tab1 k1
      (guest_tab room True (cs @ [On_Msg (Sdp offer (lit ''offer''))]) [m, Sdp answer (lit ''answer'')]
         [Create_Answer 0 offer]) 2)"
  using not_sym [OF assms(2)] by (simp add: run_simps assms partner_def paired_def guest_tab_def)

lemma owner_accepts:
  assumes "\<And>m. p_parse P (ser m) = Some m"
  shows "leads P ser
      (paired ip1 ip2 t2 room [Sdp answer (lit ''answer'')] [] wir (owner_tab P room 1 cs ms effs) k1 tab2 k2)
      [Downward 1 None]
    (paired ip1 ip2 t2 room [] [] (wir @ [(1, Sdp answer (lit ''answer''))])
      (owner_tab P room 1 (cs @ [On_Msg (Sdp answer (lit ''answer''))]) ms (effs @ [Set_Remote_Answer 0 answer]))
      k1 tab2 k2)"
  by (simp add: run_simps assms paired_def owner_tab_def)

lemma guest_in:
  assumes "\<And>m. p_parse P (ser m) = Some m" and "set room \<subseteq> set ROOM_ALPHABET" and "room \<noteq> []"
  shows "leads P ser world_new
      (([Load [] None, Opens 0 ip1 None, Upward 1 t1 room, Downward 1 None] @
        [Load (lit ''#'' @ room_fragment room) None, Opens 1 ip2 None, Upward 2 t2 []]) @ [Downward 1 None])
    (paired ip1 ip2 t2 room [] [] [(1, Created room), (1, PeerJoined)]
      (owner_tab P room 1 [On_Open, On_Msg (Created room), On_Msg PeerJoined] [Create]
         [Set_Hash (room_fragment room), Set_Session_Owns room, Create_Offer 0]) 1
      (guest_tab room False [On_Open] [Join room] []) 1)"
  using leads_append [OF leads_append [OF room_made [OF assms(1)]
    guest_joins [OF assms(1) hash_of_room [OF assms(2,3)] assms(3)]] owner_offers [OF assms(1)]]
  by (simp only: append.simps)

text \<open>(C21) A page that is opened without a room and a page that is opened from its link meet. Whatever code
  the server generated, the first becomes the owner of the room, the second joins exactly that room,
  the owner alone makes an offer, the guest answers that offer, and the owner applies that answer,
  each once; the server has nothing left to deliver.\<close>

theorem owner_and_guest_meet:
  fixes P :: "'t platform" and ser :: "signal_msg \<Rightarrow> rstr" and ip1 ip2 t1 t2 offer answer
  assumes "\<And>m. p_parse P (ser m) = Some m"
    and "set room \<subseteq> set ROOM_ALPHABET" and "room \<noteq> []"
  defines "es \<equiv> meeting ip1 ip2 t1 t2 room offer answer"
  defines "w \<equiv> world_after P ser es"
  shows "world_history P ser es \<and>
    members (registry (app (w_server w))) room = [1, 2] \<and>
    senders (app (w_server w)) = [1 \<mapsto> [], 2 \<mapsto> []] \<and>
    map cl_code (w_pages w) = [room, []] \<and>
    map cl_effects (w_pages w) =
      [[Set_Hash (room_fragment room), Set_Session_Owns room, Create_Offer 0, Set_Remote_Answer 0 answer],
       [Create_Answer 0 offer]]"
proof -
  note met = leads_append [OF leads_append [OF leads_append [OF guest_in [of P ser, OF assms(1-3)]
    offer_sent [OF assms(1,3)]] guest_answers [OF assms(1,3)]] owner_accepts [OF assms(1)]]
  have "es = (((([Load [] None, Opens 0 ip1 None, Upward 1 t1 room, Downward 1 None] @
        [Load (lit ''#'' @ room_fragment room) None, Opens 1 ip2 None, Upward 2 t2 []]) @ [Downward 1 None]) @
      [Local 0 (Offer_Made offer), Upward 1 t2 []]) @
      [Downward 2 None, Local 1 (Answer_Made answer), Upward 2 t2 []]) @ [Downward 1 None]"
    by (simp add: es_def meeting_def)
  with met [of ip1 t1 ip2 t2 offer t2 answer] show ?thesis
    unfolding w_def world_after_def world_history_def leads_def
    by (simp add: paired_def server_with_def members_def owner_tab_def guest_tab_def del: run.simps run_ok.simps)
qed

theorem owner_and_guest_meet_witness:
  "map cl_effects (w_pages (world_after demo_serde demo_ser
     (meeting (V4 1) (V4 2) 10 20 (lit ''k7m4qp'') (lit ''v=0'') (lit ''v=1'')))) ! 1 = [Create_Answer 0 (lit ''v=0'')]"
proof -
  have "set (lit ''k7m4qp'') \<subseteq> set ROOM_ALPHABET" "lit ''k7m4qp'' \<noteq> []" by (simp_all add: ROOM_ALPHABET_def)
  from owner_and_guest_meet [OF demo_serde this, of "V4 1" "V4 2" 10 20 "lit ''v=0''" "lit ''v=1''"]
  show ?thesis by simp
qed

section \<open>An answer to an offer that was given up\<close>

text \<open>
  The guest leaves while the owner's browser still makes the offer for it, and another guest joins;
  the offer is sent before the owner has read of either. The new guest answers what it receives.
\<close>

definition overtaking ::
  "ip_addr \<Rightarrow> ip_addr \<Rightarrow> ip_addr \<Rightarrow> u64 \<Rightarrow> u64 \<Rightarrow> u64 \<Rightarrow> rstr \<Rightarrow> rstr \<Rightarrow> rstr \<Rightarrow> 't world_event list" where
  "overtaking ip1 ip2 ip3 t1 t2 t3 room offer answer =
     [Load [] None, Opens 0 ip1 None, Upward 1 t1 room, Downward 1 None,
      Load (lit ''#'' @ room_fragment room) None, Opens 1 ip2 None, Upward 2 t2 [], Downward 1 None,
      Lost 2, Load (lit ''#'' @ room_fragment room) None, Opens 2 ip3 None, Upward 3 t3 [],
      Local 0 (Offer_Made offer), Upward 1 t3 [], Downward 1 None, Downward 1 None,
      Downward 3 None, Local 2 (Answer_Made answer), Upward 3 t3 [], Downward 1 None]"

definition replaced_guest ::
  "ip_addr \<Rightarrow> ip_addr \<Rightarrow> u64 \<Rightarrow> rstr \<Rightarrow> signal_msg list \<Rightarrow> signal_msg list \<Rightarrow> (peer_id \<times> signal_msg) list \<Rightarrow>
     't client \<Rightarrow> nat \<Rightarrow> 't client \<Rightarrow> nat \<Rightarrow> 't client \<Rightarrow> nat \<Rightarrow> 't world" where
  "replaced_guest ip1 ip3 t3 room q1 q3 wir tab1 k1 tab2 k2 tab3 k3 =
     \<lparr>w_server = server_with room [1, 3] t3 [1 \<mapsto> room, 3 \<mapsto> room] [1 \<mapsto> q1, 3 \<mapsto> q3] 4 [1 \<mapsto> ip1, 3 \<mapsto> ip3] wir,
      w_pages = [tab1, tab2, tab3], w_conn = [1 \<mapsto> (0, 0), 2 \<mapsto> (1, 0), 3 \<mapsto> (2, 0)],
      w_taken = (\<lambda>_. 0)(1 := k1, 2 := k2, 3 := k3)\<rparr>"

lemma forget_2 [simp]: "[1 \<mapsto> (a :: 'b)](2 := None) = [1 :: peer_id \<mapsto> a]"
  by (rule fun_upd_idem) simp

lemma guest_replaced:
  assumes "\<And>m. p_parse P (ser m) = Some m" and "room_from_hash (lit ''#'' @ room_fragment room) = Some room"
    and "room \<noteq> []"
  shows "leads P ser (paired ip1 ip2 t2 room [] [] wir tab1 k1 tab2 k2)
      [Lost 2, Load (lit ''#'' @ room_fragment room) None, Opens 2 ip3 None, Upward 3 t3 []]
    (replaced_guest ip1 ip3 t3 room [PeerLeft, PeerJoined] [] wir tab1 k1 tab2 k2
      (guest_tab room False [On_Open] [Join room] []) 1)"
  using assms(2,3)
  by (simp add: run_simps assms(1) disconnect_def cleanup_def remove_def join_def partner_def paired_def
      replaced_guest_def guest_tab_def JOIN_MAX_FAILURES_def)

lemma late_offer:
  assumes "\<And>m. p_parse P (ser m) = Some m" and "room \<noteq> []"
  shows "leads P ser
      (replaced_guest ip1 ip3 t3 room q [] wir (owner_tab P room 1 cs [m] effs) 1 tab2 k2 tab3 k3)
      [Local 0 (Offer_Made offer), Upward 1 t3 []]
    (replaced_guest ip1 ip3 t3 room q [Sdp offer (lit ''offer'')] wir
      (owner_tab P room 1 cs [m, Sdp offer (lit ''offer'')] effs) 2 tab2 k2 tab3 k3)"
  using not_sym [OF assms(2)] by (simp add: run_simps assms partner_def replaced_guest_def owner_tab_def)

lemma owner_starts_over:
  assumes "\<And>m. p_parse P (ser m) = Some m"
  shows "leads P ser
      (replaced_guest ip1 ip3 t3 room [PeerLeft, PeerJoined] q wir (owner_tab P room 1 cs ms effs) k1 tab2 k2 tab3 k3)
      [Downward 1 None, Downward 1 None]
    (replaced_guest ip1 ip3 t3 room [] q (wir @ [(1, PeerLeft), (1, PeerJoined)])
      ((owner_tab P room 2 (cs @ [On_Msg PeerLeft, On_Msg PeerJoined]) ms (effs @ [Close_Pc 0, Create_Offer 1]))\<lparr>cl_status := StPeerLeft\<rparr>)
      k1 tab2 k2 tab3 k3)"
  by (simp add: run_simps assms teardown_pc_def replaced_guest_def owner_tab_def)

lemma new_guest_answers:
  assumes "\<And>m. p_parse P (ser m) = Some m" and "room \<noteq> []"
  shows "leads P ser
      (replaced_guest ip1 ip3 t3 room [] [Sdp offer (lit ''offer'')] wir tab1 k1 tab2 k2 (guest_tab room False cs [m] []) 1)
      [Downward 3 None, Local 2 (Answer_Made answer), Upward 3 t3 []]
    (replaced_guest ip1 ip3 t3 room [Sdp answer (lit ''answer'')] [] (wir @ [(3, Sdp offer (lit ''offer''))]) tab1 k1
      tab2 k2 (guest_tab room True (cs @ [On_Msg (Sdp offer (lit ''offer''))]) [m, Sdp answer (lit ''answer'')]
         [Create_Answer 0 offer]) 2)"
  using not_sym [OF assms(2)] by (simp add: run_simps assms partner_def replaced_guest_def guest_tab_def)

lemma answer_applied:
  assumes "\<And>m. p_parse P (ser m) = Some m"
  shows "leads P ser
      (replaced_guest ip1 ip3 t3 room [Sdp answer (lit ''answer'')] [] wir
        ((owner_tab P room 2 cs ms effs)\<lparr>cl_status := StPeerLeft\<rparr>) k1 tab2 k2 tab3 k3)
      [Downward 1 None]
    (replaced_guest ip1 ip3 t3 room [] [] (wir @ [(1, Sdp answer (lit ''answer''))])
      ((owner_tab P room 2 (cs @ [On_Msg (Sdp answer (lit ''answer''))]) ms (effs @ [Set_Remote_Answer 1 answer]))
        \<lparr>cl_status := StPeerLeft\<rparr>) k1 tab2 k2 tab3 k3)"
  by (simp add: run_simps assms replaced_guest_def owner_tab_def)

text \<open>(C22) An answer is not matched to the offer it answers. There is a history of three pages, in which no
  connection of the owner is lost, where the offer that the owner made for a guest that has left
  reaches the next guest; by the time the answer arrives, the owner has closed the connection of
  that offer and made another one, on which it applies the answer. Whatever the offer, the answer
  and the code of the room are.\<close>

theorem answer_reaches_the_wrong_connection:
  fixes P :: "'t platform" and ser :: "signal_msg \<Rightarrow> rstr" and ip1 ip2 ip3 t1 t2 t3 offer answer
  assumes "\<And>m. p_parse P (ser m) = Some m"
    and "set room \<subseteq> set ROOM_ALPHABET" and "room \<noteq> []"
  defines "es \<equiv> overtaking ip1 ip2 ip3 t1 t2 t3 room offer answer"
  shows "world_history P ser es \<and>
    (\<exists>owner guest1 guest2. w_pages (world_after P ser es) = [owner, guest1, guest2] \<and>
      cl_effects owner =
        [Set_Hash (room_fragment room), Set_Session_Owns room, Create_Offer 0, Close_Pc 0, Create_Offer 1,
         Set_Remote_Answer 1 answer] \<and>
      map snd (sent (the (cl_sig owner))) = [Create, Sdp offer (lit ''offer'')] \<and>
      cl_effects guest2 = [Create_Answer 0 offer])"
proof -
  note overtaken = leads_append [OF leads_append [OF leads_append [OF leads_append [OF leads_append [OF
    guest_in [of P ser, OF assms(1-3)] guest_replaced [OF assms(1) hash_of_room [OF assms(2,3)] assms(3)]]
    late_offer [OF assms(1,3)]] owner_starts_over [OF assms(1)]] new_guest_answers [OF assms(1,3)]]
    answer_applied [OF assms(1)]]
  have "es = ((((([Load [] None, Opens 0 ip1 None, Upward 1 t1 room, Downward 1 None] @
        [Load (lit ''#'' @ room_fragment room) None, Opens 1 ip2 None, Upward 2 t2 []]) @ [Downward 1 None]) @
      [Lost 2, Load (lit ''#'' @ room_fragment room) None, Opens 2 ip3 None, Upward 3 t3 []]) @
      [Local 0 (Offer_Made offer), Upward 1 t3 []]) @ [Downward 1 None, Downward 1 None]) @
      [Downward 3 None, Local 2 (Answer_Made answer), Upward 3 t3 []] @ [Downward 1 None]"
    by (simp add: es_def overtaking_def)
  with overtaken [of ip1 t1 ip2 t2 ip3 t3 offer answer] show ?thesis
    unfolding world_after_def world_history_def leads_def append_assoc
    by (simp add: replaced_guest_def owner_tab_def guest_tab_def tab_sig_def del: run.simps run_ok.simps)
qed

theorem answer_reaches_the_wrong_connection_witness:
  "\<exists>owner guest1 guest2. w_pages (world_after demo_serde demo_ser
      (overtaking (V4 1) (V4 2) (V4 3) 10 20 30 (lit ''k7m4qp'') (lit ''v=0'') (lit ''v=1''))) = [owner, guest1, guest2] \<and>
    Set_Remote_Answer 1 (lit ''v=1'') \<in> set (cl_effects owner)"
proof -
  have "set (lit ''k7m4qp'') \<subseteq> set ROOM_ALPHABET" "lit ''k7m4qp'' \<noteq> []" by (simp_all add: ROOM_ALPHABET_def)
  from answer_reaches_the_wrong_connection [OF demo_serde this, of "V4 1" "V4 2" "V4 3" 10 20 30 "lit ''v=0''" "lit ''v=1''"]
  show ?thesis by auto
qed

end
