(* ===== verification/Transfer_View.thy ===== *)
theory Transfer_View
  imports Client_App Text_Format
begin

text \<open>
  What the user sees of the transfers and can press (\<open>crates/client/src/ui.rs\<close>): the list of rows as
  data, and the buttons of a row with the handlers they call. The framework that keeps the page in step
  with the signals is a library; what the source relies on is that a row of \<open><For>\<close> is built once for
  its key and stays as long as the key does.
\<close>

section \<open>A row\<close>

datatype button = Accept_Button u64 | Decline_Button u64 | Cancel_Button u64 | Cancel_Send_Button u64

record row_view =
  rv_class :: rstr
  rv_arrow :: rstr
  rv_name :: rstr
  rv_tag :: rstr
  rv_size :: "rstr option"
  rv_speed :: "rstr option"
  rv_pct :: "rstr option"
  rv_bar :: "rstr option"
  rv_buttons :: "(rstr \<times> button) list"

text \<open>
  \<open>transfer_row\<close>: \<open>t\<close> is the transfer the row was built for, \<open>items\<close> the current list. A running or
  finished row reads its fraction and its speed from the list, the others show what they captured.
  The arrows, the ellipsis, the tick and the cross are given by their code points.
\<close>

definition live_fraction :: "transfer \<Rightarrow> transfer list \<Rightarrow> f64" where
  "live_fraction t items =
     (case List.find (\<lambda>r. t_id r = t_id t \<and> t_incoming r = t_incoming t) items of
        Some r \<Rightarrow> t_fraction r
      | None \<Rightarrow> if t_state t = Done then f_int 1 else f_int 0)"

definition live_speed :: "transfer \<Rightarrow> transfer list \<Rightarrow> f64" where
  "live_speed t items =
     (case List.find (\<lambda>r. t_id r = t_id t \<and> t_incoming r = t_incoming t) items of
        Some r \<Rightarrow> t_speed r
      | None \<Rightarrow> f_int 0)"

definition plain_row :: "transfer \<Rightarrow> rstr \<Rightarrow> row_view" where
  "plain_row t cls =
     \<lparr>rv_class = cls, rv_arrow = [if t_incoming t then 8595 else 8593], rv_name = t_name t,
      rv_tag = t_kind t, rv_size = None, rv_speed = None, rv_pct = None, rv_bar = None, rv_buttons = []\<rparr>"

definition running_row :: "transfer \<Rightarrow> transfer list \<Rightarrow> row_view" where
  "running_row t items =
     (let finished = t_state t = Done;
          show_speed = t_incoming t \<and> \<not> finished \<and> f_less (f_int 0) (live_speed t items)
      in (plain_row t (if finished then lit ''row done'' else lit ''row''))
           \<lparr>rv_speed := if show_speed then Some (fmt_speed (live_speed t items)) else None,
            rv_pct := Some (if finished then [10003] @ lit '' DONE''
                            else percent (live_fraction t items) @ lit ''%''),
            rv_bar := Some (lit ''width:'' @ percent (live_fraction t items) @ lit ''%''),
            rv_buttons := if finished then []
              else [(lit ''Cancel'',
                     if t_incoming t then Cancel_Button (t_id t) else Cancel_Send_Button (t_id t))]\<rparr>)"

definition transfer_row :: "transfer \<Rightarrow> transfer list \<Rightarrow> row_view" where
  "transfer_row t items =
     (case t_state t of
        Pending \<Rightarrow> (plain_row t (lit ''row waiting''))\<lparr>rv_pct := Some (lit ''PENDING'' @ [8230])\<rparr>
      | Offered \<Rightarrow>
          if t_incoming t then
            (plain_row t (lit ''row offer''))
              \<lparr>rv_size := Some (fmt_size (t_size t)),
               rv_buttons := [(lit ''Accept'', Accept_Button (t_id t)), (lit ''Decline'', Decline_Button (t_id t))]\<rparr>
          else (plain_row t (lit ''row waiting''))\<lparr>rv_pct := Some (lit ''WAITING'' @ [8230])\<rparr>
      | Declined \<Rightarrow> (plain_row t (lit ''row declined''))\<lparr>rv_pct := Some ([10007] @ lit '' DECLINED'')\<rparr>
      | Cancelled \<Rightarrow> (plain_row t (lit ''row declined''))\<lparr>rv_pct := Some ([10007] @ lit '' CANCELLED'')\<rparr>
      | Active \<Rightarrow> running_row t items
      | Done \<Rightarrow> running_row t items)"

text \<open>The key of a row in \<open><For>\<close>, and the whole list.\<close>

definition for_key :: "transfer \<Rightarrow> u64 \<times> bool \<times> transfer_state" where
  "for_key t = (t_id t, t_incoming t, t_state t)"

definition progress_list :: "transfer list \<Rightarrow> bool \<times> row_view list" where
  "progress_list items = (show_accept_all items, map (\<lambda>t. transfer_row t items) items)"

text \<open>The handlers that the page passes for the buttons.\<close>

fun click :: "button \<Rightarrow> 't client_event" where
  "click (Accept_Button i) = Click_Accept i"
| "click (Decline_Button i) = Click_Decline i"
| "click (Cancel_Button i) = Click_Cancel i"
| "click (Cancel_Send_Button i) = Click_Cancel_Send i"

section \<open>The buttons\<close>

text \<open>The rows only change by the handler's own transition: what the transfer does on a click reports
  nothing back.\<close>

lemma quiet_clicks [simp]:
  "ui (ctrl_send x s) = ui s" "ui (transfer_accept enc i s) = ui s" "ui (transfer_reject enc i s) = ui s"
  "ui (transfer_cancel enc i s) = ui s" "ui (transfer_abort enc i s) = ui s"
  by (simp_all add: ctrl_send_def transfer_accept_def transfer_reject_def transfer_cancel_def
      transfer_abort_def Let_def)

lemma items_click:
  "cl_items (with_transfer P (User_Accept i) s) = cl_items s"
  "cl_items (with_transfer P (User_Reject i) s) = cl_items s"
  "cl_items (with_transfer P (User_Cancel i) s) = cl_items s"
  "cl_items (with_transfer P (User_Abort i) s) = cl_items s"
  by (simp_all add: with_transfer_def transfer_event_def Let_def split: option.split)

lemma row_at_member: "rows_wf rows \<Longrightarrow> t \<in> set rows \<Longrightarrow> row_at rows (key_of t) = Some t"
  by (induction rows) (auto simp: rows_wf_def image_iff)

lemma row_at_handlers:
  "row_at (accept rows i) = modify (i, True) (\<lambda>r. r\<lparr>t_state := Active\<rparr>) (row_at rows)"
  "row_at (decline rows i) = (row_at rows)((i, True) := None)"
  "row_at (cancel rows i) = modify (i, True) (\<lambda>r. r\<lparr>t_state := Cancelled\<rparr>) (row_at rows)"
  "row_at (mark_cancelled_remote rows i) =
     modify (i, False) (\<lambda>r. if t_state r = Done then r else r\<lparr>t_state := Cancelled\<rparr>) (row_at rows)"
  using row_at_step [of rows "Accept_Row i"] row_at_step [of rows "Decline_Row i"]
    row_at_step [of rows "Cancel_Row i"] row_at_step [of rows "Mark_Cancelled_Remote i"] by simp_all

text \<open>(C39) Every button that is shown does what it says, to its own row and to no other: Accept makes an
  incoming offer active, Decline removes it, Cancel ends a running transfer of either direction.
  No other button is shown, so nothing that has ended can be changed by the user.\<close>

theorem buttons_do_what_they_say:
  fixes P :: "'t platform" and s :: "'t client"
  assumes "rows_wf (cl_items s)" and "t \<in> set (cl_items s)"
    and "(label, b) \<in> set (rv_buttons (transfer_row t (cl_items s)))"
  defines "rows' \<equiv> cl_items (client_step P s (click b))"
  shows "(label = lit ''Accept'' \<and> t_incoming t \<and> t_state t = Offered \<and>
       row_at rows' = (row_at (cl_items s))(key_of t \<mapsto> t\<lparr>t_state := Active\<rparr>)) \<or>
    (label = lit ''Decline'' \<and> t_incoming t \<and> t_state t = Offered \<and>
       row_at rows' = (row_at (cl_items s))(key_of t := None)) \<or>
    (label = lit ''Cancel'' \<and> t_state t = Active \<and>
       row_at rows' = (row_at (cl_items s))(key_of t \<mapsto> t\<lparr>t_state := Cancelled\<rparr>))"
proof -
  have t: "row_at (cl_items s) (t_id t, t_incoming t) = Some t"
    using row_at_member [OF assms(1,2)] by (simp add: key_of_def)
  show ?thesis
    using assms(3) t
    by (cases "t_state t"; cases "t_incoming t")
       (auto simp: rows'_def transfer_row_def plain_row_def running_row_def Let_def on_accept_def
         on_decline_def on_cancel_def on_cancel_send_def items_click row_at_handlers modify_def key_of_def)
qed

text \<open>A page that has been offered one file.\<close>

definition demo_view_platform :: "control platform" where
  "demo_view_platform =
     \<lparr>p_enc = id, p_dec = Some, p_parse = (\<lambda>_. None), p_origin = [], p_qr = (\<lambda>_. None)\<rparr>"

definition demo_offer_row :: transfer where
  "demo_offer_row =
     \<lparr>t_id = 2, t_name = lit ''c'', t_size = f_int 9, t_kind = [], t_incoming = True,
      t_fraction = f_int 0, t_speed = f_int 0, t_state = Offered\<rparr>"

definition demo_offered :: "control client" where
  "demo_offered = (client_new [] None)\<lparr>cl_items := [demo_offer_row]\<rparr>"

theorem buttons_do_what_they_say_witness:
  "row_at (cl_items (client_step demo_view_platform demo_offered (click (Accept_Button 2)))) =
     [(2, True) \<mapsto> demo_offer_row\<lparr>t_state := Active\<rparr>]"
proof -
  have "rows_wf (cl_items demo_offered)" "demo_offer_row \<in> set (cl_items demo_offered)"
    "(lit ''Accept'', Accept_Button 2) \<in> set (rv_buttons (transfer_row demo_offer_row (cl_items demo_offered)))"
    by (simp_all add: rows_wf_def demo_offered_def demo_offer_row_def transfer_row_def)
  from buttons_do_what_they_say [OF this, of demo_view_platform] show ?thesis
    by (auto simp: demo_offered_def demo_offer_row_def key_of_def fun_eq_iff)
qed

section \<open>Rows that stay\<close>

text \<open>What a row captures when it is built and does not read again.\<close>

definition same_file :: "transfer \<Rightarrow> transfer \<Rightarrow> bool" where
  "same_file t t' \<longleftrightarrow>
     key_of t = key_of t' \<and> t_name t = t_name t' \<and> t_kind t = t_kind t' \<and> t_size t = t_size t'"

lemma same_file_refl [simp]: "same_file t t"
  by (simp add: same_file_def)

lemma same_file_update [simp]:
  "same_file r (r\<lparr>t_state := st\<rparr>)" "same_file r (r\<lparr>t_fraction := f, t_state := st\<rparr>)"
  "same_file r (r\<lparr>t_fraction := f, t_speed := sp, t_state := st\<rparr>)"
  by (simp_all add: same_file_def key_of_def)

lemma same_file_trans: "same_file a b \<Longrightarrow> same_file b c \<Longrightarrow> same_file a c"
  by (simp add: same_file_def)

lemma transfer_row_cong:
  "same_file t t' \<Longrightarrow> t_state t = t_state t' \<Longrightarrow> transfer_row t items = transfer_row t' items"
  by (cases "t_state t'")
     (simp_all add: transfer_row_def running_row_def plain_row_def live_fraction_def live_speed_def
       same_file_def key_of_def)

lemma row_step_keeps_file:
  assumes "row_ok rows e" and "row_at rows k = Some r" and "snd k \<Longrightarrow> e \<noteq> Decline_Row (fst k)"
  shows "\<exists>r'. row_at (row_step rows e) k = Some r' \<and> same_file r r'"
  using assms
  unfolding row_at_step [OF assms(1)]
  by (cases e; cases k)
     (auto simp: modify_def insert_or_modify_def Let_def simp flip: row_at_None_iff simp del: map_option_eq_Some)

lemma rows_keep_file:
  assumes "run_ok row_ok row_step rows es" and "row_at rows k = Some r"
    and "snd k \<Longrightarrow> Decline_Row (fst k) \<notin> set es"
  shows "\<exists>r'. row_at (run row_step rows es) k = Some r' \<and> same_file r r'"
  using assms
proof (induction es arbitrary: rows r)
  case (Cons e es)
  then obtain r1 where "row_at (row_step rows e) k = Some r1" "same_file r r1"
    using row_step_keeps_file [of rows e k r] by auto
  moreover from this(1) Cons.prems(1,3) obtain r2
    where "row_at (run row_step (row_step rows e) es) k = Some r2" "same_file r1 r2"
    using Cons.IH [of "row_step rows e" r1] by auto
  ultimately show ?case by (auto intro: same_file_trans)
qed auto

text \<open>A row that \<open><For>\<close> keeps never shows anything stale: as long as its key, the identity and the
  state of a transfer, is the same and the user has not declined the offer in between, what the row
  shows is what a row built for the current transfer would show, whatever happened to the list.\<close>

theorem kept_rows_are_up_to_date:
  assumes "run_ok row_ok row_step [] (es @ es')"
    and "t \<in> set (run row_step [] es)" and "t' \<in> set (run row_step [] (es @ es'))"
    and "for_key t = for_key t'" and "Decline_Row (t_id t) \<notin> set es'"
  shows "transfer_row t (run row_step [] (es @ es')) = transfer_row t' (run row_step [] (es @ es'))"
proof -
  have wf: "rows_wf (run row_step [] us)" if "run_ok row_ok row_step [] us" for us
    using that by (rule rows.run_inv [rotated]) (simp add: rows_wf_def)
  have ok: "run_ok row_ok row_step [] es" "run_ok row_ok row_step (run row_step [] es) es'"
    using assms(1) by (simp_all add: run_ok_append)
  have "row_at (run row_step [] es) (key_of t) = Some t"
    using wf [OF ok(1)] assms(2) by (rule row_at_member)
  from rows_keep_file [OF ok(2) this] assms(5)
  obtain r where r: "row_at (run row_step [] (es @ es')) (key_of t) = Some r" "same_file t r"
    by (auto simp: key_of_def)
  have "row_at (run row_step [] (es @ es')) (key_of t') = Some t'"
    using wf [OF assms(1)] assms(3) by (rule row_at_member)
  moreover have "key_of t' = key_of t" using assms(4) by (simp add: for_key_def key_of_def)
  ultimately have "r = t'" using r(1) by simp
  with r(2) assms(4) show ?thesis by (intro transfer_row_cong) (simp_all add: for_key_def)
qed

text \<open>A download at its first and at its last chunk, with an upload of the same id in between.\<close>

definition demo_download :: "int \<Rightarrow> int \<Rightarrow> transfer" where
  "demo_download f sp =
     \<lparr>t_id = 7, t_name = lit ''a.zip'', t_size = f_int 10, t_kind = file_kind (lit ''a.zip'') [],
      t_incoming = True, t_fraction = f_int f, t_speed = f_int sp, t_state = Active\<rparr>"

definition demo_early :: "row_op list" where
  "demo_early = [Recv_Progress 7 (lit ''a.zip'') (f_int 0) (f_int 10) (f_int 0)]"

definition demo_later :: "row_op list" where
  "demo_later = [Push_Pending 7 (lit ''b'') (f_int 1), Recv_Progress 7 (lit ''a.zip'') (f_int 10) (f_int 10) (f_int 3)]"

theorem kept_rows_are_up_to_date_witness:
  "transfer_row (demo_download 0 0) (run row_step [] (demo_early @ demo_later)) =
   transfer_row (demo_download 1 3) (run row_step [] (demo_early @ demo_later))"
proof (rule kept_rows_are_up_to_date)
  have "frac (f_int 0) (f_int 10) = f_int 0" by (simp add: frac_def f_less_def f_int_def round_f64_def)
  moreover have "frac (f_int 10) (f_int 10) = f_int 1" by (simp add: frac_def)
  ultimately show "demo_download 0 0 \<in> set (run row_step [] demo_early)"
    "demo_download 1 3 \<in> set (run row_step [] (demo_early @ demo_later))"
    "run_ok row_ok row_step [] (demo_early @ demo_later)"
    by (simp_all add: demo_early_def demo_later_def demo_download_def row_defs Let_def upsert_def key_of_def)
qed (simp_all add: demo_download_def for_key_def demo_later_def)

end
