(* ===== verification/Page_View.thy ===== *)
theory Page_View
  imports Transfer_View Client_Connection
begin

text \<open>
  The page as the user meets it: the \<open>view!\<close> of \<open>App\<close> in \<open>crates/client/src/app.rs\<close> with the components of
  \<open>crates/client/src/ui.rs\<close> in it, as data, and what the user does with the drop zone, the file
  dialog and the box for a room code. What is shown depends on the state of the page alone, plus two
  things that only the view keeps.
\<close>

section \<open>What is shown\<close>

record view_state =
  drag_depth :: "32 word"   \<comment> \<open>an \<open>i32\<close>\<close>
  join_value :: rstr

definition view_new :: view_state where
  "view_new = \<lparr>drag_depth = 0, join_value = []\<rparr>"

text \<open>The components of the page that have no list: the status, the share block and the box for a code.\<close>

definition StatusBar :: "status \<Rightarrow> rstr" where
  "StatusBar st = status_label st"

record share_block =
  sh_code :: rstr
  sh_link :: rstr
  sh_qr :: rstr

definition ShareLink :: "rstr \<Rightarrow> rstr \<Rightarrow> rstr \<Rightarrow> share_block" where
  "ShareLink code link qr = \<lparr>sh_code = code, sh_link = link, sh_qr = qr\<rparr>"

text \<open>The box keeps its value and hands it to \<open>on_join\<close>.\<close>

datatype join_event = Input rstr | Keydown rstr | Join_Clicked

fun JoinBox :: "rstr \<Rightarrow> join_event \<Rightarrow> rstr \<times> rstr list" where
  "JoinBox v (Input s) = (s, [])"
| "JoinBox v (Keydown k) = (v, if k = lit ''Enter'' then [v] else [])"
| "JoinBox v Join_Clicked = (v, [v])"

record page_view =
  pv_status :: rstr
  pv_new_room :: bool
  pv_share :: "share_block option"
  pv_join :: "rstr option"
  pv_drop :: rstr
  pv_accept_all :: bool
  pv_rows :: "row_view list"

definition page_view :: "'t client \<Rightarrow> view_state \<Rightarrow> page_view" where
  "page_view s v =
     \<lparr>pv_status = StatusBar (cl_status s),
      pv_new_room = (cl_status s = StRoomNotFound),
      pv_share = (if cl_link s \<noteq> [] then Some (ShareLink (cl_code s) (cl_link s) (cl_qr s)) else None),
      pv_join = (if cl_status s \<noteq> StConnected then Some (join_value v) else None),
      pv_drop = (if 0 <s drag_depth v then lit ''drop active'' else lit ''drop''),
      pv_accept_all = fst (progress_list (cl_items s)),
      pv_rows = snd (progress_list (cl_items s))\<rparr>"

section \<open>What the user does\<close>

text \<open>\<open>Drop None\<close> is a drop without files; the dialog always has a list.\<close>

datatype view_event =
    Drag_Enter
  | Drag_Leave
  | Drop "js_file list option"
  | Pick "js_file list"
  | In_Join_Box join_event
  | Press button
  | Press_Accept_All
  | Press_New_Room

fun view_step :: "view_state \<Rightarrow> view_event \<Rightarrow> view_state \<times> 't client_event list" where
  "view_step v Drag_Enter = (v\<lparr>drag_depth := drag_depth v + 1\<rparr>, [])"
| "view_step v Drag_Leave = (if 0 <s drag_depth v then v\<lparr>drag_depth := drag_depth v - 1\<rparr> else v, [])"
| "view_step v (Drop files) =
     (v\<lparr>drag_depth := 0\<rparr>, [Add_Files (case files of Some fs \<Rightarrow> fs | None \<Rightarrow> [])])"
| "view_step v (Pick files) = (v, [Add_Files files])"
| "view_step v (In_Join_Box e) =
     (let (s, joined) = JoinBox (join_value v) e in (v\<lparr>join_value := s\<rparr>, map Join_Room joined))"
| "view_step v (Press b) = (v, [click b])"
| "view_step v Press_Accept_All = (v, [Click_Accept_All])"
| "view_step v Press_New_Room = (v, [Click_New_Room])"

definition use_page :: "'t platform \<Rightarrow> 't client \<times> view_state \<Rightarrow> view_event \<Rightarrow> 't client \<times> view_state" where
  "use_page P sv e =
     (let (v, es) = view_step (snd sv) e in (run (client_step P) (fst sv) es, v))"

section \<open>The share block\<close>

text \<open>What a page knows about a room of its own.\<close>

definition own_room :: "'t client \<Rightarrow> rstr \<times> rstr \<times> rstr \<times> rstr option \<times> rstr option" where
  "own_room s =
     (cl_link s, cl_code s, cl_qr s, room_in_hash (cl_session s), owns (cl_session s))"

definition share_ok :: "'t platform \<Rightarrow> 't client \<Rightarrow> bool" where
  "share_ok P s \<longleftrightarrow>
     (cl_link s = [] \<and> cl_code s = [] \<and> cl_qr s = []) \<or>
     (cl_link s = share_link (p_origin P) (cl_code s) \<and> cl_qr s = qr_svg (p_qr P) (cl_link s) \<and>
      room_in_hash (cl_session s) = Some (cl_code s) \<and> owns (cl_session s) = Some (cl_code s))"

lemma share_ok_cong: "own_room s' = own_room s \<Longrightarrow> share_ok P s \<Longrightarrow> share_ok P s'"
  by (simp add: share_ok_def own_room_def)

lemma own_room_frame [simp]:
  "own_room (emit x s) = own_room s" "own_room (sig_send m s) = own_room s" "own_room (wire_ctrl s) = own_room s"
  "own_room (teardown_pc s) = own_room s" "own_room (snd (build_pc e s)) = own_room s"
  "own_room (transfer_event P k te s) = own_room s" "own_room (with_transfer P pe s) = own_room s"
  "own_room (s\<lparr>cl_status := st\<rparr>) = own_room s" "own_room (s\<lparr>cl_items := rows\<rparr>) = own_room s"
  "own_room (s\<lparr>cl_sig := g\<rparr>) = own_room s" "own_room (s\<lparr>cl_last_ice := i\<rparr>) = own_room s"
  "own_room (s\<lparr>cl_pending := pd\<rparr>) = own_room s" "own_room (s\<lparr>cl_next_id := n\<rparr>) = own_room s"
  by (simp_all add: own_room_def emit_def sig_send_def wire_ctrl_def teardown_pc_def build_pc_def
      with_transfer_def transfer_event_def Let_def split: option.split)

lemma own_room_built: "build_pc e s = (r, s') \<Longrightarrow> own_room s' = own_room s"
  using own_room_frame(5) [of e s] by simp

lemma own_room_execute: "\<nexists>room. a = PersistRoom room \<Longrightarrow> own_room (execute P pc_err a s) = own_room s"
  by (cases a) (auto simp: Let_def dest: own_room_built split: option.split prod.split)

lemma own_room_fold_execute:
  "\<forall>room. PersistRoom room \<notin> set as \<Longrightarrow> own_room (fold (execute P pc_err) as s) = own_room s"
proof (induction as arbitrary: s)
  case (Cons a as)
  then have "own_room (execute P pc_err a s) = own_room s" by (intro own_room_execute) auto
  with Cons show ?case by simp
qed simp

lemma share_ok_react: "share_ok P s \<Longrightarrow> share_ok P (react P pc_err ev s)"
proof (cases "\<exists>room. ev = EvCreated room")
  case True
  then show ?thesis by (auto simp: react_def share_ok_def emit_def Let_def)
next
  case False
  assume ok: "share_ok P s"
  have "\<forall>room. PersistRoom room \<notin> set (fst (step_session (cl_session s) ev))"
    "room_in_hash (snd (step_session (cl_session s) ev)) = room_in_hash (cl_session s)"
    "owns (snd (step_session (cl_session s) ev)) = owns (cl_session s)"
    using False by (cases ev; auto simp: Let_def split: option.splits if_splits)+
  then have "own_room (react P pc_err ev s) = own_room s"
    by (simp add: react_def case_prod_unfold Let_def own_room_fold_execute) (simp add: own_room_def)
  with ok show ?thesis by (rule share_ok_cong [rotated])
qed

lemma share_ok_callback: "share_ok P s \<Longrightarrow> share_ok P (on_callback P pc_err c s)"
proof (cases c)
  case (On_Msg m)
  assume ok: "share_ok P s"
  have "own_room (snd (to_event m s)) = own_room s" by (cases m) simp_all
  from share_ok_cong [OF this ok] show ?thesis
    by (cases "to_event m s") (auto simp: On_Msg on_message_def intro: share_ok_react split: option.split)
next
  case On_Disconnect
  assume "share_ok P s"
  moreover have "own_room (on_disconnect s) = own_room s"
    by (simp add: on_disconnect_def Let_def) (simp add: own_room_def teardown_pc_def emit_def Let_def split: option.split)
  ultimately show ?thesis by (auto simp: On_Disconnect intro: share_ok_cong)
qed (simp add: share_ok_react)

lemma share_ok_fold_callback: "share_ok P s \<Longrightarrow> share_ok P (fold (on_callback P pc_err) cs s)"
  by (induction cs arbitrary: s) (simp_all add: share_ok_callback del: on_callback.simps)

lemma own_room_add_rows [simp]: "own_room (snd (add_rows files s)) = own_room s"
  by (induction files arbitrary: s) (simp_all add: Let_def case_prod_unfold)

lemma own_room_fold [simp]: "own_room (fold (\<lambda>i. with_transfer P (User_Accept i)) ids s) = own_room s"
  by (induction ids arbitrary: s) simp_all

lemma own_room_offer_now [simp]: "own_room (offer_now P files s) = own_room s"
  by (simp add: offer_now_def Let_def)

lemma share_ok_step: "share_ok P s \<Longrightarrow> share_ok P (client_step P s e)"
proof (cases e)
  case (Sig_Event pc_err b)
  assume ok: "share_ok P s"
  have "share_ok P (s\<lparr>cl_sig := g\<rparr>)" for g using ok by (rule share_ok_cong [rotated]) simp
  then show ?thesis
    using ok by (auto simp: Sig_Event sig_event_def Let_def intro: share_ok_fold_callback split: option.split)
qed (auto elim!: share_ok_cong [rotated] simp: mount_def ctrl_opens_def on_files_def on_accept_def on_decline_def
       on_cancel_def on_cancel_send_def on_accept_all_def on_join_def Let_def case_prod_unfold split: option.split)

interpretation share: invariant_machine "client_step P" "\<lambda>_ _. True" "share_ok P" for P
  by unfold_locales (rule share_ok_step)

text \<open>(C40) What the share block shows belongs together and to this page, in every state of every history:
  the link leads to the code beside it under the public origin, the picture is that of the link, and
  the code is that of the room which the page owns and will join again after a reload. A page that owns no
  room shows none.\<close>

theorem share_block_is_consistent:
  "case pv_share (page_view (client_runs P hash session_owns es) v) of
     None \<Rightarrow> cl_code (client_runs P hash session_owns es) = []
   | Some sh \<Rightarrow>
       sh_link sh = share_link (p_origin P) (sh_code sh) \<and> sh_qr sh = qr_svg (p_qr P) (sh_link sh) \<and>
       room_in_hash (cl_session (client_runs P hash session_owns es)) = Some (sh_code sh) \<and>
       owns (cl_session (client_runs P hash session_owns es)) = Some (sh_code sh)"
proof -
  have "share_ok P (client_new hash session_owns)" by (simp add: share_ok_def client_new_def)
  then have "share_ok P (client_runs P hash session_owns es)"
    unfolding client_runs_def by (rule share.run_inv) simp
  then show ?thesis by (auto simp: share_ok_def page_view_def ShareLink_def share_link_def)
qed

section \<open>A typed code\<close>

text \<open>A code that is typed into the box is joined. In whatever mixture of capitals it is typed, with
  blanks around it or not, after the Enter key it is in the hash and the page reloads; and the page
  that is loaded with that hash asks for that room as soon as its socket is open.\<close>

theorem typed_code_is_joined:
  fixes P :: "'t platform" and s :: "'t client" and v g pc_err
  assumes "set room \<subseteq> set ROOM_ALPHABET" and "room \<noteq> []"
    and "\<forall>c \<in> set us \<union> set vs. is_whitespace c" and "to_ascii_lowercase typed = room"
  defines "s' \<equiv> fst (run (use_page P) (s, v) [In_Join_Box (Input (us @ typed @ vs)), In_Join_Box (Keydown (lit ''Enter''))])"
    and "loaded \<equiv> (client_new (lit ''#'' @ room_fragment room) None)\<lparr>cl_sig := Some g\<rparr>"
  shows "s' = emit Reload (emit (Set_Hash (room_fragment room)) s) \<and>
    on_callback P pc_err On_Open loaded = sig_send (Join room) loaded"
proof -
  have "normalize_code (us @ typed @ vs) = room"
    using normalize_typed [OF assms(1,2,4)] assms(3) by blast
  then show ?thesis
    using hash_of_room [OF assms(1,2)] assms(2)
    by (simp add: s'_def loaded_def use_page_def on_join_def react_def client_new_def Let_def)
qed

theorem typed_code_is_joined_witness:
  "cl_effects (fst (run (use_page demo_page_platform) (client_new [] None, view_new)
     [In_Join_Box (Input (lit '' K7m4Qp '')), In_Join_Box (Keydown (lit ''Enter''))])) = [Set_Hash (lit ''/room/k7m4qp''), Reload]"
proof -
  have "set (lit ''k7m4qp'') \<subseteq> set ROOM_ALPHABET" "lit ''k7m4qp'' \<noteq> []"
    "\<forall>c \<in> set (lit '' '') \<union> set (lit '' ''). is_whitespace c"
    "to_ascii_lowercase (lit ''K7m4Qp'') = lit ''k7m4qp''"
    by (simp_all add: ROOM_ALPHABET_def is_whitespace_def to_ascii_lowercase_def)
  from typed_code_is_joined [OF this, where P = demo_page_platform and s = "client_new [] None"
      and v = view_new and g = signaling_connect and pc_err = None]
  show ?thesis by (simp add: client_new_def room_fragment_def)
qed

end
