(* ===== verification/File_Exchange.thy ===== *)
theory File_Exchange
  imports Transfer_Engine "HOL-Library.Sublist"
begin

text \<open>
  Two transfer engines joined by one peer connection: what one page sends on the control channel
  and on the channels of its files reaches the other page in order, channel by channel, at any
  speed and with any of it still on the way. Nothing is assumed of the users, of the executor and
  of the browser beyond what the engine assumes.
\<close>

section \<open>Two ends\<close>

text \<open>
  The two ends are \<open>True\<close> and \<open>False\<close>. \<open>ctrl_in w b\<close> counts the control frames that have reached the
  end \<open>b\<close>, \<open>file_in w b k\<close> the packets of the \<open>k\<close>-th file channel that the other end opened.
\<close>

record 't link =
  ends :: "bool \<Rightarrow> 't receiver"
  ctrl_in :: "bool \<Rightarrow> nat"
  file_in :: "bool \<Rightarrow> nat \<Rightarrow> nat"

definition link_new :: "'t link" where
  "link_new = \<lparr>ends = (\<lambda>_. receiver_new), ctrl_in = (\<lambda>_. 0), file_in = (\<lambda>_ _. 0)\<rparr>"

text \<open>Something happens at an end by itself, or the next frame or packet arrives there.\<close>

datatype 't link_event =
    At bool "'t engine_event"
  | Ctrl_Arrives bool
  | Packet_Arrives bool nat f64 download

abbreviation engine_at :: "bool \<Rightarrow> 't link \<Rightarrow> 't shared" where
  "engine_at b w \<equiv> page (ends w b)"

text \<open>The event of an engine that an event of the link is.\<close>

fun arriving :: "'t link \<Rightarrow> 't link_event \<Rightarrow> (bool \<times> 't engine_event) option" where
  "arriving w (At b e) = Some (b, e)"
| "arriving w (Ctrl_Arrives b) =
     (let frames = ctrl_sent (engine_at (\<not> b) w) in
      if ctrl_in w b < length frames then Some (b, Page (Ctrl_Msg (Text (frames ! ctrl_in w b)))) else None)"
| "arriving w (Packet_Arrives b k now dl) =
     (let ts = sending (engine_at (\<not> b) w) in
      if k < length ts \<and> file_in w b k < length (tk_wire (ts ! k))
      then Some (b, Page (Channel_Msg k now dl (tk_wire (ts ! k) ! file_in w b k))) else None)"

fun count_in :: "'t link_event \<Rightarrow> 't link \<Rightarrow> 't link" where
  "count_in (At b e) w = w"
| "count_in (Ctrl_Arrives b) w = w\<lparr>ctrl_in := (ctrl_in w)(b := ctrl_in w b + 1)\<rparr>"
| "count_in (Packet_Arrives b k now dl) w =
     w\<lparr>file_in := (file_in w)(b := (file_in w b)(k := file_in w b k + 1))\<rparr>"

definition link_step ::
  "(control \<Rightarrow> 't) \<Rightarrow> ('t \<Rightarrow> control option) \<Rightarrow> 't link \<Rightarrow> 't link_event \<Rightarrow> 't link" where
  "link_step enc dec w e =
     (case arriving w e of
        None \<Rightarrow> w
      | Some (b, e') \<Rightarrow> count_in e (w\<lparr>ends := (ends w)(b := engine_step enc dec (ends w b) e')\<rparr>))"

text \<open>What happens at an end by itself: clicks, the control channel opens or closes, a task is polled.\<close>

fun local_event :: "'t engine_event \<Rightarrow> bool" where
  "local_event (Page (Channel_Msg k now dl p)) \<longleftrightarrow> False"
| "local_event (Page (Ctrl_Msg p)) \<longleftrightarrow> False"
| "local_event _ \<longleftrightarrow> True"

fun link_ok :: "'t link \<Rightarrow> 't link_event \<Rightarrow> bool" where
  "link_ok w (At b e) \<longleftrightarrow> local_event e \<and> engine_ok (ends w b) e"
| "link_ok w _ \<longleftrightarrow> True"

fun offers_at :: "bool \<Rightarrow> 't link_event \<Rightarrow> (u64 \<times> js_file) list" where
  "offers_at b (At c e) = (if c = b then offered_by e else [])"
| "offers_at b _ = []"

text \<open>The files that the page at the end \<open>b\<close> offers, with their ids.\<close>

definition link_offers :: "bool \<Rightarrow> 't link_event list \<Rightarrow> (u64 \<times> js_file) list" where
  "link_offers b es = concat (map (offers_at b) es)"

text \<open>Each page gives every file it offers an id of its own, see \<open>Client_Properties\<close>.\<close>

definition link_history ::
  "(control \<Rightarrow> 't) \<Rightarrow> ('t \<Rightarrow> control option) \<Rightarrow> 't link_event list \<Rightarrow> bool" where
  "link_history enc dec es \<longleftrightarrow>
     run_ok link_ok (link_step enc dec) link_new es \<and>
     (\<forall>b. distinct (map fst (link_offers b es)) \<and>
          (\<forall>f \<in> snd ` set (link_offers b es). length (jf_bytes f) \<le> 2 ^ 53))"

definition link_after ::
  "(control \<Rightarrow> 't) \<Rightarrow> ('t \<Rightarrow> control option) \<Rightarrow> 't link_event list \<Rightarrow> 't link" where
  "link_after enc dec es = run (link_step enc dec) link_new es"

text \<open>
  What is asked of serde: a frame that the program can send is read back. A size is a whole number
  of bytes there, so that the text of a number is not an issue.
\<close>

fun frame_sendable :: "control \<Rightarrow> bool" where
  "frame_sendable (Offer m) \<longleftrightarrow> fs_size m \<in> f_int ` {0..2 ^ 53}"
| "frame_sendable (Start m) \<longleftrightarrow> fs_size m \<in> f_int ` {0..2 ^ 53}"
| "frame_sendable _ \<longleftrightarrow> True"

definition reads_back :: "(control \<Rightarrow> 't) \<Rightarrow> ('t \<Rightarrow> control option) \<Rightarrow> bool" where
  "reads_back enc dec \<longleftrightarrow> (\<forall>c. frame_sendable c \<longrightarrow> dec (enc c) = Some c)"

section \<open>Each end runs its engine\<close>

definition events_at :: "bool \<Rightarrow> 't link \<Rightarrow> 't link_event \<Rightarrow> 't engine_event list" where
  "events_at b w e = (case arriving w e of Some (c, e') \<Rightarrow> if c = b then [e'] else [] | None \<Rightarrow> [])"

lemma count_in_ends [simp]: "ends (count_in e w) = ends w"
  by (cases e) simp_all

interpretation end_engine: machine_component "link_step enc dec" "\<lambda>w. ends w b" "engine_step enc dec" "events_at b"
  by unfold_locales (auto simp: link_step_def events_at_def split: option.split)

definition link_trace ::
  "(control \<Rightarrow> 't) \<Rightarrow> ('t \<Rightarrow> control option) \<Rightarrow> bool \<Rightarrow> 't link_event list \<Rightarrow> 't engine_event list" where
  "link_trace enc dec b es = trace_of (events_at b) (link_step enc dec) link_new es"

lemma link_trace_snoc:
  "link_trace enc dec b (es @ [e]) = link_trace enc dec b es @ events_at b (link_after enc dec es) e"
  by (simp add: link_trace_def link_after_def trace_of_append)

lemma link_after_snoc: "link_after enc dec (es @ [e]) = link_step enc dec (link_after enc dec es) e"
  by (simp add: link_after_def)

lemma link_offers_snoc: "link_offers b (es @ [e]) = link_offers b es @ offers_at b e"
  by (simp add: link_offers_def)

lemma link_history_snoc:
  "link_history enc dec (es @ [e]) \<Longrightarrow> link_history enc dec es \<and> link_ok (link_after enc dec es) e"
  by (auto simp: link_history_def run_ok_append link_offers_snoc link_after_def)

lemma events_ok: "link_ok w e \<Longrightarrow> run_ok engine_ok (engine_step enc dec) (ends w b) (events_at b w e)"
  by (cases e) (auto simp: events_at_def Let_def)

lemma offered_by_events: "all_offers (events_at b w e) = offers_at b e"
  by (cases e) (auto simp: events_at_def all_offers_def Let_def)

lemma all_offers_append: "all_offers (es @ es') = all_offers es @ all_offers es'"
  by (simp add: all_offers_def)

lemma link_trace_offers: "all_offers (link_trace enc dec b es) = link_offers b es"
proof (induction es rule: rev_induct)
  case Nil
  then show ?case by (simp add: link_trace_def link_offers_def all_offers_def)
next
  case (snoc e es)
  then show ?case by (simp add: link_trace_snoc link_offers_snoc all_offers_append offered_by_events)
qed

lemma link_engine:
  assumes "link_history enc dec es"
  shows "engine_history enc dec (link_trace enc dec b es)"
    and "engine_at b (link_after enc dec es) = engine_after enc dec (link_trace enc dec b es)"
proof -
  have "run_ok engine_ok (engine_step enc dec) (ends link_new b) (link_trace enc dec b es)"
    unfolding link_trace_def using assms
    by (intro end_engine.run_component_ok [where ok = link_ok]) (auto simp: link_history_def events_ok)
  then show "engine_history enc dec (link_trace enc dec b es)"
    using assms by (auto simp: engine_history_def link_trace_offers link_history_def link_new_def)
  show "engine_at b (link_after enc dec es) = engine_after enc dec (link_trace enc dec b es)"
    using end_engine.run_proj [of enc dec link_new es b]
    by (simp add: link_after_def engine_after_def link_trace_def link_new_def)
qed

text \<open>What the engine knows of its tasks.\<close>

lemma link_tasks:
  assumes "link_history enc dec es" and "engine_at b (link_after enc dec es) = s"
  shows "distinct (map tk_id (sending s))"
    and "\<And>t. t \<in> set (sending s) \<Longrightarrow> task_inv enc t"
    and "\<And>t. t \<in> set (sending s) \<Longrightarrow> file_ok (tk_file t)"
proof -
  have inv: "engine_inv enc (fst ` set (link_offers b es)) s (sender_after (engine_trace enc dec (link_trace enc dec b es)))"
    using engine_after_inv(2) [OF link_engine(1) [OF assms(1)], of b] link_engine(2) [OF assms(1), of b] assms(2)
    by (simp add: link_trace_offers)
  show "distinct (map tk_id (sending s))" "\<And>t. t \<in> set (sending s) \<Longrightarrow> file_ok (tk_file t)"
    using engine_tasks [OF inv] by auto
  show "\<And>t. t \<in> set (sending s) \<Longrightarrow> task_inv enc t"
    using inv by (simp add: engine_inv_def)
qed

section \<open>Streams only grow\<close>

text \<open>No task disappears, changes its file or takes back what it sent.\<close>

definition grows :: "'t task list \<Rightarrow> 't task list \<Rightarrow> bool" where
  "grows ts ts' \<longleftrightarrow> length ts \<le> length ts' \<and>
     (\<forall>k < length ts. tk_id (ts' ! k) = tk_id (ts ! k) \<and> tk_file (ts' ! k) = tk_file (ts ! k) \<and>
        prefix (tk_wire (ts ! k)) (tk_wire (ts' ! k)))"

lemma grows_refl [simp]: "grows ts ts"
  by (simp add: grows_def)

lemma grows_append [simp]: "grows ts (ts @ us)"
  by (simp add: grows_def nth_append)

lemma grows_trans: "grows ts us \<Longrightarrow> grows us vs \<Longrightarrow> grows ts vs"
  unfolding grows_def by (auto intro: prefix_order.trans)

lemma grows_update:
  "k < length ts \<Longrightarrow> tk_id t = tk_id (ts ! k) \<Longrightarrow> tk_file t = tk_file (ts ! k) \<Longrightarrow>
     prefix (tk_wire (ts ! k)) (tk_wire t) \<Longrightarrow> grows ts (ts[k := t])"
  by (simp add: grows_def nth_list_update)

lemma grows_pump: "grows ts (sending s) \<Longrightarrow> grows ts (sending (pump s))"
  by (erule grows_trans) (simp add: pump_def spawn_def Let_def case_prod_unfold)

lemma next_slab_wire: "prefix (tk_wire t) (tk_wire (next_slab enc env c ranges idx snt t))"
  by (simp add: next_slab_def)

lemma send_slab_wire:
  "send_slab enc env c ranges idx slab off snt t = Some (t', progress) \<Longrightarrow> prefix (tk_wire t) (tk_wire t')"
  using next_slab_wire [of "t\<lparr>tk_wire := tk_wire t @ out\<rparr>" enc env c ranges idx for out]
  by (auto simp: send_slab_def Let_def prefix_def split: option.splits prod.splits loop_exit.splits) 

lemma poll_wire: "poll_send_file enc env c t = Some (t', progress) \<Longrightarrow> prefix (tk_wire t) (tk_wire t')"
  by (auto simp: poll_send_file_def next_slab_def Let_def dest: send_slab_wire
      split: option.splits phase.splits if_splits)

lemma finish_sending_grows:
  assumes "grows ts (sending s)" and "k < length (sending s)"
  shows "grows ts (sending (finish_sending k s))"
proof -
  let ?t = "sending s ! k"
  have "grows ts ((sending s)[k := ?t\<lparr>tk_closed := True\<rparr>])"
    using assms(1) by (rule grows_trans) (rule grows_update [OF assms(2)], simp_all)
  then show ?thesis
    using assms(1) unfolding finish_sending_def Let_def by (intro grows_pump) simp
qed

lemma poll_sending_grows:
  assumes "poll_sending enc env k s = Some s'" and "k < length (sending s)"
  shows "grows (sending s) (sending s')"
proof -
  obtain t' progress where t': "poll_send_file enc env (tk_id (sending s ! k) \<in> cancelled (outgoing_files s)) (sending s ! k) =
      Some (t', progress)"
    using assms(1) by (auto simp: poll_sending_def Let_def split: option.splits)
  have "grows (sending s) ((sending s)[k := t'])"
    using poll_frame [OF t'] poll_wire [OF t'] by (intro grows_update [OF assms(2)]) simp_all
  then show ?thesis
    using assms by (auto simp: poll_sending_def t' Let_def intro!: finish_sending_grows split: if_splits)
qed

lemma sending_user [simp]:
  "sending (transfer_accept enc i s) = sending s" "sending (transfer_reject enc i s) = sending s"
  "sending (transfer_cancel enc i s) = sending s" "sending (transfer_abort enc i s) = sending s"
  by (simp_all add: transfer_accept_def transfer_reject_def transfer_cancel_def transfer_abort_def Let_def)

lemma sending_grows:
  assumes "engine_ok s e"
  shows "grows (sending (page s)) (sending (page (engine_step enc dec s e)))"
proof (cases e)
  case (Poll k env)
  then show ?thesis using assms poll_sending_grows by (fastforce split: option.split)
next
  case (Page e')
  have "grows (sending q) (sending (ctrl_frame c q))" for c and q :: "'a shared"
    by (cases c) (auto intro: grows_pump)
  then show ?thesis
    by (cases e') (auto simp: Page recv_router_def ctrl_router_def split: packet.split option.split control.split)
qed

section \<open>What has arrived of a stream\<close>

lemma reads_back_meta:
  assumes "reads_back enc dec" and "file_ok file"
  shows "dec (enc (Start (file_meta i file))) = Some (Start (file_meta i file))"
    and "dec (enc (Offer (file_meta i file))) = Some (Offer (file_meta i file))"
proof -
  have "file_size file \<in> f_int ` {0..2 ^ 53}"
    using file_size_int [OF assms(2)] assms(2) by (auto simp: file_ok_def)
  then show "dec (enc (Start (file_meta i file))) = Some (Start (file_meta i file))"
    and "dec (enc (Offer (file_meta i file))) = Some (Offer (file_meta i file))"
    using assms(1) by (simp_all add: reads_back_def file_meta_def)
qed

lemma reads_back_simps:
  assumes "reads_back enc dec"
  shows "dec (enc (End x)) = Some (End x)" "dec (enc (Accept i)) = Some (Accept i)"
    "dec (enc (Reject i)) = Some (Reject i)" "dec (enc (Cancel i)) = Some (Cancel i)"
    "dec (enc (Abort i)) = Some (Abort i)"
  using assms by (simp_all add: reads_back_def)

lemma file_meta_id: "fs_id (file_meta i file) = i"
  by (simp add: file_meta_def)

lemma end_not_in_stream:
  assumes "reads_back enc dec" and "file_ok file"
  shows "end_frame enc i \<notin> set (stream enc j file cs)"
proof
  assume "end_frame enc i \<in> set (stream enc j file cs)"
  then have "enc (End \<lparr>fe_id = i\<rparr>) = enc (Start (file_meta j file))" by (auto simp: end_frame_def stream_def)
  then have "dec (enc (End \<lparr>fe_id = i\<rparr>)) = dec (enc (Start (file_meta j file)))" by (rule arg_cong)
  then show False using reads_back_simps(1) [OF assms(1)] reads_back_meta(1) [OF assms] by simp
qed

text \<open>The packet number \<open>n\<close> of a stream, and what went before it.\<close>

lemma next_packet:
  assumes "task_inv enc t" and "n < length (tk_wire t)"
  obtains (start) "n = 0" "tk_wire t ! n = Text (enc (Start (file_meta (tk_id t) (tk_file t))))"
      "take 1 (tk_wire t) = stream enc (tk_id t) (tk_file t) []"
    | (chunk) c cs where "0 < n" "tk_wire t ! n = Binary c" "take n (tk_wire t) = stream enc (tk_id t) (tk_file t) cs"
    | (finish) cs where "0 < n" "tk_wire t ! n = end_frame enc (tk_id t)" "concat cs = jf_bytes (tk_file t)"
      "take n (tk_wire t) = stream enc (tk_id t) (tk_file t) cs"
proof -
  let ?s = "stream enc (tk_id t) (tk_file t)"
  have "tk_wire t \<noteq> []" using assms(2) by auto
  then obtain cs es where w: "tk_wire t = ?s cs @ es"
    and es: "es = [] \<or> es = [end_frame enc (tk_id t)] \<and> concat cs = jf_bytes (tk_file t)"
    using assms(1) by (auto simp: task_inv_def on_wire_def fully_sent_def Let_def split: phase.splits) blast+
  show thesis
  proof (cases n)
    case 0
    then show ?thesis using start by (simp add: w stream_def)
  next
    case (Suc m)
    then have m: "m \<le> length cs" using assms(2) es by (auto simp: w stream_def)
    have take: "take n (tk_wire t) = ?s (take m cs)" using Suc m by (simp add: w stream_def take_map)
    show ?thesis
    proof (cases "m < length cs")
      case True
      then show ?thesis using chunk [of "cs ! m" "take m cs"] Suc take by (simp add: w stream_def nth_append)
    next
      case False
      then have "m = length cs" using m by simp
      then show ?thesis using finish [of cs] Suc take es assms(2) by (auto simp: w stream_def nth_append)
    qed
  qed
qed

section \<open>The receiving end of all streams\<close>

text \<open>
  \<open>ts\<close> are the tasks of the other end, \<open>cnt\<close> says how many packets of each stream have arrived. An entry
  holds what has arrived of one stream that is not finished; every file that was saved is the file of
  a stream whose \<open>End\<close> has arrived, and none was saved twice.
\<close>

definition recv_inv ::
  "(control \<Rightarrow> 't) \<Rightarrow> 't task list \<Rightarrow> (nat \<Rightarrow> nat) \<Rightarrow> (nat \<Rightarrow> router) \<Rightarrow> (u64 \<Rightarrow> incoming option) \<Rightarrow>
     saved_file list \<Rightarrow> bool" where
  "recv_inv enc ts cnt rts inc dls \<longleftrightarrow>
     (\<forall>k. cnt k \<le> (if k < length ts then length (tk_wire (ts ! k)) else 0)) \<and>
     (\<forall>k. rt_cur (rts k) = (if cnt k = 0 then None else Some (tk_id (ts ! k)))) \<and>
     (\<forall>i x. inc i = Some x \<longrightarrow> (\<exists>k < length ts. tk_id (ts ! k) = i \<and> meta x = Some (file_meta i (tk_file (ts ! k))) \<and>
        take (cnt k) (tk_wire (ts ! k)) = stream enc i (tk_file (ts ! k)) (chunks x))) \<and>
     (\<exists>got. dls = map (\<lambda>k. saved_copy (tk_file (ts ! k))) got \<and> distinct got \<and>
        (\<forall>k \<in> set got. k < length ts \<and> end_frame enc (tk_id (ts ! k)) \<in> set (take (cnt k) (tk_wire (ts ! k)))))"

lemma recv_inv_new: "recv_inv enc [] (\<lambda>_. 0) (\<lambda>_. router_new) (\<lambda>_. None) []"
  by (simp add: recv_inv_def router_new_def)

lemma grows_take:
  assumes "grows ts ts'" and "n \<le> (if k < length ts then length (tk_wire (ts ! k)) else 0)" and "0 < n"
  shows "k < length ts'" and "tk_id (ts' ! k) = tk_id (ts ! k)" and "tk_file (ts' ! k) = tk_file (ts ! k)"
    and "take n (tk_wire (ts' ! k)) = take n (tk_wire (ts ! k))" and "n \<le> length (tk_wire (ts' ! k))"
  using assms by (auto simp: grows_def prefix_def split: if_splits)

lemma recv_inv_grows:
  assumes inv: "recv_inv enc ts cnt rts inc dls" and g: "grows ts ts'"
  shows "recv_inv enc ts' cnt rts inc dls"
proof -
  have cnt: "cnt k \<le> (if k < length ts then length (tk_wire (ts ! k)) else 0)" for k
    using inv by (simp add: recv_inv_def)
  have same: "tk_id (ts' ! k) = tk_id (ts ! k) \<and> tk_file (ts' ! k) = tk_file (ts ! k)" if "k < length ts" for k
    using g that by (simp add: grows_def)
  have take: "take (cnt k) (tk_wire (ts' ! k)) = take (cnt k) (tk_wire (ts ! k))" for k
    using grows_take(4) [OF g cnt] by (cases "cnt k = 0") auto
  have len: "k < length ts'" if "k < length ts" for k using g that by (auto simp: grows_def)
  have "cnt k \<le> (if k < length ts' then length (tk_wire (ts' ! k)) else 0)" for k
    using grows_take(1,5) [OF g cnt] by (cases "cnt k = 0") auto
  moreover have "rt_cur (rts k) = (if cnt k = 0 then None else Some (tk_id (ts' ! k)))" for k
    using inv grows_take(2) [OF g cnt] by (cases "cnt k = 0") (auto simp: recv_inv_def)
  moreover have "\<exists>k < length ts'. tk_id (ts' ! k) = i \<and> meta x = Some (file_meta i (tk_file (ts' ! k))) \<and>
      take (cnt k) (tk_wire (ts' ! k)) = stream enc i (tk_file (ts' ! k)) (chunks x)" if "inc i = Some x" for i x
  proof -
    from inv that obtain k where "k < length ts" "tk_id (ts ! k) = i" "meta x = Some (file_meta i (tk_file (ts ! k)))"
      "take (cnt k) (tk_wire (ts ! k)) = stream enc i (tk_file (ts ! k)) (chunks x)"
      unfolding recv_inv_def by blast
    then show ?thesis using same len by (intro exI [of _ k]) (simp add: take)
  qed
  moreover from inv obtain got where got: "dls = map (\<lambda>k. saved_copy (tk_file (ts ! k))) got" "distinct got"
    "\<forall>k \<in> set got. k < length ts \<and> end_frame enc (tk_id (ts ! k)) \<in> set (take (cnt k) (tk_wire (ts ! k)))"
    unfolding recv_inv_def by blast
  then have "dls = map (\<lambda>k. saved_copy (tk_file (ts' ! k))) got"
    "\<forall>k \<in> set got. k < length ts' \<and> end_frame enc (tk_id (ts' ! k)) \<in> set (take (cnt k) (tk_wire (ts' ! k)))"
    using same len by (auto simp: take)
  ultimately show ?thesis using got(2) unfolding recv_inv_def by blast
qed

lemma recv_inv_less:
  "recv_inv enc ts cnt rts inc dls \<Longrightarrow> (\<And>i x. inc' i = Some x \<Longrightarrow> inc i = Some x) \<Longrightarrow> recv_inv enc ts cnt rts inc' dls"
  unfolding recv_inv_def by blast

text \<open>One more packet on channel \<open>k\<close>.\<close>

lemma recv_inv_update:
  assumes inv: "recv_inv enc ts cnt rts inc dls" and k: "k < length ts" "cnt k < length (tk_wire (ts ! k))"
    and rts: "rt_cur (rts' k) = Some (tk_id (ts ! k))" "\<And>j. j \<noteq> k \<Longrightarrow> rts' j = rts j"
    and inc: "\<And>i x. inc' i = Some x \<Longrightarrow> i \<noteq> tk_id (ts ! k) \<and> inc i = Some x \<or>
      i = tk_id (ts ! k) \<and> meta x = Some (file_meta i (tk_file (ts ! k))) \<and>
      take (Suc (cnt k)) (tk_wire (ts ! k)) = stream enc i (tk_file (ts ! k)) (chunks x)"
    and dls: "dls' = dls \<or> dls' = dls @ [saved_copy (tk_file (ts ! k))] \<and>
      end_frame enc (tk_id (ts ! k)) \<notin> set (take (cnt k) (tk_wire (ts ! k))) \<and>
      end_frame enc (tk_id (ts ! k)) \<in> set (take (Suc (cnt k)) (tk_wire (ts ! k)))"
  shows "recv_inv enc ts (cnt(k := Suc (cnt k))) rts' inc' dls'"
proof -
  let ?cnt = "cnt(k := Suc (cnt k))"
  have sub: "set (take (cnt j) (tk_wire (ts ! j))) \<subseteq> set (take (?cnt j) (tk_wire (ts ! j)))" for j
    by (rule set_take_subset_set_take) simp
  have "\<exists>j < length ts. tk_id (ts ! j) = i \<and> meta x = Some (file_meta i (tk_file (ts ! j))) \<and>
        take (?cnt j) (tk_wire (ts ! j)) = stream enc i (tk_file (ts ! j)) (chunks x)" if x: "inc' i = Some x" for i x
  proof (cases "i = tk_id (ts ! k)")
    case True
    then show ?thesis using inc [OF x] k(1) by (intro exI [of _ k]) simp
  next
    case False
    then obtain j where "j < length ts" "tk_id (ts ! j) = i" "meta x = Some (file_meta i (tk_file (ts ! j)))"
      "take (cnt j) (tk_wire (ts ! j)) = stream enc i (tk_file (ts ! j)) (chunks x)"
      using inc [OF x] inv unfolding recv_inv_def by blast
    with False show ?thesis by (intro exI [of _ j]) auto
  qed
  moreover from inv obtain got where got: "dls = map (\<lambda>k. saved_copy (tk_file (ts ! k))) got" "distinct got"
    "\<forall>k \<in> set got. k < length ts \<and> end_frame enc (tk_id (ts ! k)) \<in> set (take (cnt k) (tk_wire (ts ! k)))"
    unfolding recv_inv_def by blast
  have "\<exists>got. dls' = map (\<lambda>k. saved_copy (tk_file (ts ! k))) got \<and> distinct got \<and>
      (\<forall>k \<in> set got. k < length ts \<and> end_frame enc (tk_id (ts ! k)) \<in> set (take (?cnt k) (tk_wire (ts ! k))))"
  proof (cases "dls' = dls")
    case True
    then show ?thesis using got sub by (intro exI [of _ got]) blast
  next
    case False
    with dls got(1) have "dls' = map (\<lambda>k. saved_copy (tk_file (ts ! k))) (got @ [k])" by simp
    moreover have "k \<notin> set got" using False dls got(3) by blast
    moreover have "end_frame enc (tk_id (ts ! k)) \<in> set (take (?cnt k) (tk_wire (ts ! k)))" using False dls by simp
    ultimately show ?thesis using got(2,3) sub k(1) by (intro exI [of _ "got @ [k]"]) (auto simp del: fun_upd_apply)
  qed
  moreover have "?cnt j \<le> (if j < length ts then length (tk_wire (ts ! j)) else 0)" for j
    using inv k unfolding recv_inv_def by (cases "j = k") auto
  moreover have "rt_cur (rts' j) = (if ?cnt j = 0 then None else Some (tk_id (ts ! j)))" for j
    using inv rts unfolding recv_inv_def by simp
  ultimately show ?thesis unfolding recv_inv_def by blast
qed

lemma recv_inv_packet:
  fixes enc :: "control \<Rightarrow> 't" and dec and now and dl
  assumes serde: "reads_back enc dec"
    and ts: "distinct (map tk_id ts)" "\<And>t. t \<in> set ts \<Longrightarrow> task_inv enc t" "\<And>t. t \<in> set ts \<Longrightarrow> file_ok (tk_file t)"
    and k: "k < length ts" "cnt k < length (tk_wire (ts ! k))"
    and inv: "recv_inv enc ts cnt (routers s) (incoming_files (page s)) (downloads (page s))"
  defines "s' \<equiv> page_step enc dec s (Channel_Msg k now dl (tk_wire (ts ! k) ! cnt k))"
  shows "recv_inv enc ts (cnt(k := Suc (cnt k))) (routers s') (incoming_files (page s')) (downloads (page s'))"
proof -
  let ?t = "ts ! k"
  let ?i = "tk_id ?t"
  have t: "task_inv enc ?t" "file_ok (tk_file ?t)" using ts(2,3) k(1) by simp_all
  have cur: "rt_cur (routers s k) = (if cnt k = 0 then None else Some ?i)" using inv by (simp add: recv_inv_def)
  have own: "meta x = Some (file_meta ?i (tk_file ?t)) \<and> take (cnt k) (tk_wire ?t) = stream enc ?i (tk_file ?t) (chunks x)"
    if x: "incoming_files (page s) ?i = Some x" for x
  proof -
    from inv x obtain j where j: "j < length ts" "tk_id (ts ! j) = ?i" "meta x = Some (file_meta ?i (tk_file (ts ! j)))"
      "take (cnt j) (tk_wire (ts ! j)) = stream enc ?i (tk_file (ts ! j)) (chunks x)"
      unfolding recv_inv_def by blast
    then have "j = k" using ts(1) k(1) by (simp add: distinct_conv_nth) (metis nth_map)
    with j show ?thesis by simp
  qed
  note next_take = take_Suc_conv_app_nth [OF k(2)]
  from t(1) k(2) show ?thesis
  proof (cases rule: next_packet)
    case start
    have none: "incoming_files (page s) ?i = None"
    proof (rule ccontr)
      assume "incoming_files (page s) ?i \<noteq> None"
      then obtain x where "incoming_files (page s) ?i = Some x" by blast
      from own [OF this] start(1) show False by (simp add: stream_def)
    qed
    have "dec (enc (Start (file_meta ?i (tk_file ?t)))) = Some (Start (file_meta ?i (tk_file ?t)))"
      by (rule reads_back_meta(1) [OF serde t(2)])
    note step = own_start [where dec = dec, OF this, of ?i s' enc s k now dl]
    have s': "s' = page_step enc dec s (Channel_Msg k now dl (Text (enc (Start (file_meta ?i (tk_file ?t))))))"
      by (simp add: s'_def start(2))
    have m: "fs_id (file_meta ?i (tk_file ?t)) = ?i" by (simp add: file_meta_def)
    show ?thesis
    proof (rule recv_inv_update [OF inv k])
      fix i x
      assume x: "incoming_files (page s') i = Some x"
      show "i \<noteq> ?i \<and> incoming_files (page s) i = Some x \<or> i = ?i \<and> meta x = Some (file_meta i (tk_file ?t)) \<and>
        take (Suc (cnt k)) (tk_wire ?t) = stream enc i (tk_file ?t) (chunks x)"
        using x step(3) [OF m s'] start(1,3) none reads_back_meta(1) [OF serde t(2), of ?i]
        by (cases "i = ?i") (auto simp: s' recv_router_def m started_entry_def incoming_default_def)
    qed (use step(1,2,4) [OF m s'] in simp_all)
  next
    case (chunk c cs)
    then have c: "rt_cur (routers s k) = Some ?i" using cur by simp
    have s': "s' = page_step enc dec s (Channel_Msg k now dl (Binary c))" by (simp add: s'_def chunk(2))
    show ?thesis
    proof (rule recv_inv_update [OF inv k])
      fix i x
      assume x: "incoming_files (page s') i = Some x"
      show "i \<noteq> ?i \<and> incoming_files (page s) i = Some x \<or> i = ?i \<and> meta x = Some (file_meta i (tk_file ?t)) \<and>
        take (Suc (cnt k)) (tk_wire ?t) = stream enc i (tk_file ?t) (chunks x)"
        using x own chunk(2) by (cases "i = ?i") (auto simp: s' recv_router_def c next_take stream_def)
    qed (auto simp: s' recv_router_def c)
  next
    case (finish cs)
    then have c: "rt_cur (routers s k) = Some ?i" using cur by simp
    have s': "s' = page_step enc dec s (Channel_Msg k now dl (Text (enc (End \<lparr>fe_id = ?i\<rparr>))))"
      by (simp add: s'_def finish(2) end_frame_def)
    have bytes: "concat (chunks x) = jf_bytes (tk_file ?t)" if "incoming_files (page s) ?i = Some x" for x
    proof -
      from own [OF that] finish(4) have "chunks x = cs" by (auto simp: stream_def inj_map_eq_map inj_def)
      then show ?thesis using finish(3) by simp
    qed
    show ?thesis
    proof (rule recv_inv_update [OF inv k])
      show "downloads (page s') = downloads (page s) \<or>
        downloads (page s') = downloads (page s) @ [saved_copy (tk_file ?t)] \<and>
        end_frame enc ?i \<notin> set (take (cnt k) (tk_wire ?t)) \<and> end_frame enc ?i \<in> set (take (Suc (cnt k)) (tk_wire ?t))"
        using own bytes end_not_in_stream [OF serde t(2), of ?i ?i cs] finish(2,4)
        by (cases "incoming_files (page s) ?i")
           (auto simp: s' recv_router_def c reads_back_simps [OF serde] finalize_recv_saves saved_by_def next_take
              saved_copy_def file_meta_def)
    qed (auto simp: s' recv_router_def c reads_back_simps [OF serde] split: if_splits)
  qed
qed

section \<open>Both directions of the link\<close>

definition link_inv :: "(control \<Rightarrow> 't) \<Rightarrow> 't link \<Rightarrow> bool" where
  "link_inv enc w \<longleftrightarrow>
     (\<forall>b. recv_inv enc (sending (engine_at (\<not> b) w)) (file_in w b) (routers (ends w b))
            (incoming_files (engine_at b w)) (downloads (engine_at b w)))"

lemma finish_sending_frame [simp]:
  "incoming_files (finish_sending k s) = incoming_files s" "downloads (finish_sending k s) = downloads s"
  "ctrl_sent (finish_sending k s) = ctrl_sent s"
  by (simp_all add: finish_sending_def Let_def pump_def spawn_def case_prod_unfold call_ui_def)

lemma poll_sending_frame:
  "poll_sending enc env k s = Some s' \<Longrightarrow>
     incoming_files s' = incoming_files s \<and> downloads s' = downloads s \<and> ctrl_sent s' = ctrl_sent s"
  by (auto simp: poll_sending_def Let_def split: option.splits if_splits)

text \<open>Without a packet on a file channel nothing is received; a cancellation may drop an entry.\<close>

lemma receives_nothing:
  fixes enc :: "control \<Rightarrow> 't" and dec and s
  assumes "\<And>k now dl p. e \<noteq> Page (Channel_Msg k now dl p)"
  defines "s' \<equiv> engine_step enc dec s e"
  shows "routers s' = routers s" and "downloads (page s') = downloads (page s)"
    and "incoming_files (page s') i = Some x \<Longrightarrow> incoming_files (page s) i = Some x"
proof -
  have "routers s' = routers s \<and> downloads (page s') = downloads (page s) \<and>
    (incoming_files (page s') i = Some x \<longrightarrow> incoming_files (page s) i = Some x)"
  proof (cases e)
    case (Page e')
    then show ?thesis
      using assms(1)
      by (cases e') (auto simp: s'_def ctrl_router_def transfer_accept_def transfer_reject_def transfer_cancel_def
            transfer_abort_def Let_def split: packet.splits option.splits control.splits if_splits)
  next
    case (Poll k env)
    then show ?thesis by (auto simp: s'_def dest: poll_sending_frame split: option.splits)
  qed
  then show "routers s' = routers s" and "downloads (page s') = downloads (page s)"
    and "incoming_files (page s') i = Some x \<Longrightarrow> incoming_files (page s) i = Some x"
    by blast+
qed

text \<open>An event at the end \<open>c\<close> that is not a packet.\<close>

lemma link_inv_event:
  assumes inv: "link_inv enc w" and ok: "engine_ok (ends w c) e"
    and e: "\<And>k now dl p. e \<noteq> Page (Channel_Msg k now dl p)"
  shows "link_inv enc (w\<lparr>ends := (ends w)(c := engine_step enc dec (ends w c) e)\<rparr>)"
  unfolding link_inv_def
proof
  fix b
  let ?w = "w\<lparr>ends := (ends w)(c := engine_step enc dec (ends w c) e)\<rparr>"
  have old: "recv_inv enc (sending (engine_at (\<not> b) w)) (file_in w b) (routers (ends w b))
      (incoming_files (engine_at b w)) (downloads (engine_at b w))" using inv by (simp add: link_inv_def)
  show "recv_inv enc (sending (engine_at (\<not> b) ?w)) (file_in ?w b) (routers (ends ?w b))
      (incoming_files (engine_at b ?w)) (downloads (engine_at b ?w))"
  proof (cases "b = c")
    case True
    then show ?thesis
      using recv_inv_less [OF old receives_nothing(3) [OF e]] receives_nothing(1,2) [OF e, of enc dec "ends w c"] by simp
  next
    case False
    then have "(\<not> b) = c" by blast
    with recv_inv_grows [OF old, of "sending (page (engine_step enc dec (ends w c) e))"] sending_grows [OF ok] False
    show ?thesis by simp
  qed
qed

lemma link_inv_step:
  assumes serde: "reads_back enc dec" and hist: "link_history enc dec es" and w: "w = link_after enc dec es"
    and inv: "link_inv enc w" and ok: "link_ok w e"
  shows "link_inv enc (link_step enc dec w e)"
proof (cases "arriving w e")
  case None
  with inv show ?thesis by (simp add: link_step_def)
next
  case (Some ce)
  have step: "link_step enc dec w e =
      count_in e (w\<lparr>ends := (ends w)(fst ce := engine_step enc dec (ends w (fst ce)) (snd ce))\<rparr>)"
    by (simp add: link_step_def Some case_prod_unfold)
  show ?thesis
  proof (cases e)
    case (At c e')
    with ok have "engine_ok (ends w c) e'" "\<And>k now dl p. e' \<noteq> Page (Channel_Msg k now dl p)" by auto
    from link_inv_event [OF inv this, of dec] show ?thesis by (simp add: At link_step_def)
  next
    case (Ctrl_Arrives c)
    then obtain p where p: "ce = (c, Page (Ctrl_Msg p))" using Some by (auto simp: Let_def split: if_splits)
    have "link_inv enc (w\<lparr>ends := (ends w)(c := engine_step enc dec (ends w c) (Page (Ctrl_Msg p)))\<rparr>)"
      by (rule link_inv_event [OF inv]) simp_all
    moreover have "link_inv enc (w\<lparr>ctrl_in := f\<rparr>) = link_inv enc w" for w :: "'a link" and f
      by (simp add: link_inv_def)
    ultimately show ?thesis unfolding step by (simp add: p Ctrl_Arrives)
  next
    case (Packet_Arrives c k now dl)
    let ?ts = "sending (engine_at (\<not> c) w)"
    have k: "k < length ?ts" "file_in w c k < length (tk_wire (?ts ! k))"
      and ce: "ce = (c, Page (Channel_Msg k now dl (tk_wire (?ts ! k) ! file_in w c k)))"
      using Some Packet_Arrives by (auto simp: Let_def split: if_splits)
    have "engine_at (\<not> c) (link_after enc dec es) = engine_at (\<not> c) w" by (simp add: w)
    note ts = link_tasks [OF hist this]
    have "recv_inv enc ?ts (file_in w c) (routers (ends w c)) (incoming_files (engine_at c w)) (downloads (engine_at c w))"
      using inv by (simp add: link_inv_def)
    note new = recv_inv_packet [OF serde ts k this, of now dl]
    show ?thesis
      unfolding link_inv_def
    proof
      fix b
      let ?w = "link_step enc dec w e"
      show "recv_inv enc (sending (engine_at (\<not> b) ?w)) (file_in ?w b) (routers (ends ?w b))
        (incoming_files (engine_at b ?w)) (downloads (engine_at b ?w))"
      proof (cases "b = c")
        case True
        with new show ?thesis unfolding step by (simp add: ce Packet_Arrives)
      next
        case False
        then have eq: "(\<not> b) = c" by blast
        have old: "recv_inv enc (sending (engine_at (\<not> b) w)) (file_in w b) (routers (ends w b))
          (incoming_files (engine_at b w)) (downloads (engine_at b w))" using inv by (simp add: link_inv_def)
        have "engine_ok (ends w c) (snd ce)" by (simp add: ce)
        from recv_inv_grows [OF old [unfolded eq] sending_grows [OF this, of enc dec]] False show ?thesis
          unfolding step eq by (simp add: ce Packet_Arrives del: page_step.simps)
      qed
    qed
  qed
qed

lemma link_inv_after:
  assumes "reads_back enc dec"
  shows "link_history enc dec es \<Longrightarrow> link_inv enc (link_after enc dec es)"
proof (induction es rule: rev_induct)
  case Nil
  then show ?case
    using recv_inv_new by (simp add: link_inv_def link_after_def link_new_def receiver_new_def transfer_new_def)
next
  case (snoc e es)
  with link_history_snoc [of enc dec es e] show ?case
    unfolding link_after_snoc by (intro link_inv_step [OF assms]) auto
qed

section \<open>Whatever is heard was said\<close>

text \<open>The control frames that an event makes a page send.\<close>

fun frames_of :: "'t engine_event \<Rightarrow> control set" where
  "frames_of (Page (User_Offers files)) = (\<lambda>(i, file). Offer (file_meta i file)) ` set files"
| "frames_of (Page (User_Accept i)) = {Accept i}"
| "frames_of (Page (User_Reject i)) = {Reject i}"
| "frames_of (Page (User_Cancel i)) = {Cancel i}"
| "frames_of (Page (User_Abort i)) = {Abort i}"
| "frames_of _ = {}"

lemma ctrl_sent_offers:
  "\<exists>new. ctrl_sent (offer_files enc files s) = ctrl_sent s @ new \<and>
     set new \<subseteq> enc ` (\<lambda>(i, file). Offer (file_meta i file)) ` set files"
proof (induction enc files s rule: offer_files.induct)
  case (2 enc i f files s)
  from 2 [OF refl] show ?case by (auto simp: Let_def ctrl_send_def)
qed simp

lemma ctrl_sent_page [simp]:
  "ctrl_sent (pump s) = ctrl_sent s" "ctrl_sent (start_incoming m s) = ctrl_sent s"
  "ctrl_sent (recv_chunk now i b s) = ctrl_sent s" "ctrl_sent (finalize_recv dl i s) = ctrl_sent s"
  "ctrl_sent (call_ui c s) = ctrl_sent s"
  by (auto simp: pump_def spawn_def start_incoming_def recv_chunk_def finalize_recv_def trigger_download_def
      call_ui_def Let_def case_prod_unfold split: option.split)

lemma ctrl_sent_frame: "ctrl_sent (ctrl_frame c s) = ctrl_sent s"
  by (cases c) simp_all

lemma ctrl_sent_step:
  "\<exists>new. ctrl_sent (page (engine_step enc dec s e)) = ctrl_sent (page s) @ new \<and> set new \<subseteq> enc ` frames_of e"
proof (cases e)
  case (Poll k env)
  then show ?thesis by (auto dest: poll_sending_frame split: option.split)
next
  case (Page e')
  then show ?thesis
    using ctrl_sent_offers
    by (cases e')
       (auto simp: recv_router_def ctrl_router_def ctrl_sent_frame transfer_accept_def transfer_reject_def
          transfer_cancel_def transfer_abort_def ctrl_send_def Let_def
          split: packet.split option.split control.split)
qed

lemma arriving_frames: "arriving w e = Some (b, e') \<Longrightarrow> c \<in> frames_of e' \<Longrightarrow> e = At b e'"
  by (cases e) (auto simp: Let_def split: if_splits)

lemma heard_was_said:
  "t \<in> set (ctrl_sent (engine_at b (link_after enc dec es))) \<Longrightarrow>
     \<exists>e c. At b e \<in> set es \<and> c \<in> frames_of e \<and> t = enc c"
proof (induction es rule: rev_induct)
  case Nil
  then show ?case by (simp add: link_after_def link_new_def receiver_new_def transfer_new_def)
next
  case (snoc e es)
  let ?w = "link_after enc dec es"
  show ?case
  proof (cases "t \<in> set (ctrl_sent (engine_at b ?w))")
    case True
    with snoc.IH show ?thesis by auto
  next
    case False
    with snoc.prems obtain e' where e': "arriving ?w e = Some (b, e')"
      "t \<in> set (ctrl_sent (page (engine_step enc dec (ends ?w b) e')))"
      unfolding link_after_snoc by (auto simp: link_step_def split: option.splits if_splits)
    obtain new where "ctrl_sent (page (engine_step enc dec (ends ?w b) e')) = ctrl_sent (engine_at b ?w) @ new"
      "set new \<subseteq> enc ` frames_of e'" using ctrl_sent_step [of enc dec "ends ?w b" e'] by blast
    with e'(2) False obtain c where "c \<in> frames_of e'" "t = enc c" by auto
    with arriving_frames [OF e'(1)] show ?thesis by auto
  qed
qed

lemma ctrl_sent_link_step:
  "set (ctrl_sent (engine_at b w)) \<subseteq> set (ctrl_sent (engine_at b (link_step enc dec w e)))"
proof (cases "arriving w e")
  case (Some ce)
  obtain new where "ctrl_sent (page (engine_step enc dec (ends w b) (snd ce))) = ctrl_sent (engine_at b w) @ new"
    using ctrl_sent_step [of enc dec "ends w b" "snd ce"] by blast
  then show ?thesis by (cases ce) (auto simp: link_step_def Some)
qed (simp add: link_step_def)

lemma arrived_was_heard:
  "link_history enc dec es \<Longrightarrow> Page (Ctrl_Msg (Text t)) \<in> set (link_trace enc dec b es) \<Longrightarrow>
     t \<in> set (ctrl_sent (engine_at (\<not> b) (link_after enc dec es)))"
proof (induction es rule: rev_induct)
  case Nil
  then show ?case by (simp add: link_trace_def)
next
  case (snoc e es)
  let ?w = "link_after enc dec es"
  have "t \<in> set (ctrl_sent (engine_at (\<not> b) ?w))"
  proof (cases "Page (Ctrl_Msg (Text t)) \<in> set (link_trace enc dec b es)")
    case True
    with snoc link_history_snoc [OF snoc.prems(1)] show ?thesis by blast
  next
    case False
    with snoc.prems(2) have "Page (Ctrl_Msg (Text t)) \<in> set (events_at b ?w e)" by (simp add: link_trace_snoc)
    then show ?thesis
      using link_history_snoc [OF snoc.prems(1)]
      by (cases e) (auto simp: events_at_def Let_def split: if_splits)
  qed
  then show ?case using ctrl_sent_link_step [where b = "\<not> b" and w = ?w] by (auto simp: link_after_snoc)
qed

lemma said_frame:
  assumes "reads_back enc dec" and "link_history enc dec es" and "At b e \<in> set es" and "c \<in> frames_of e"
  shows "dec (enc c) = Some c"
proof -
  have files: "file_ok f" if "(i, f) \<in> set (offered_by e)" for i f
  proof -
    have "(i, f) \<in> set (link_offers b es)" using that assms(3) by (auto simp: link_offers_def intro!: bexI [of _ "At b e"])
    then show ?thesis using assms(2) by (force simp: link_history_def file_ok_def)
  qed
  show ?thesis
  proof (cases e)
    case (Page e')
    with assms(4) files show ?thesis
      by (cases e') (auto simp: reads_back_simps [OF assms(1)] reads_back_meta(2) [OF assms(1)])
  qed (use assms(4) in simp)
qed

text \<open>So a frame that arrives at one end is one that its user, or the user's files, caused at the other.\<close>

lemma frame_was_caused:
  assumes "reads_back enc dec" and "link_history enc dec es"
    and "Page (Ctrl_Msg (Text t)) \<in> set (link_trace enc dec b es)" and "dec t = Some c"
  obtains e where "At (\<not> b) e \<in> set es" "c \<in> frames_of e"
proof -
  from heard_was_said [OF arrived_was_heard [OF assms(2,3)]] obtain e d where
    e: "At (\<not> b) e \<in> set es" "d \<in> frames_of e" "t = enc d" by blast
  then show thesis using that said_frame [OF assms(1,2) e(1,2)] assms(4) by simp
qed

lemma frames_of_user:
  "Accept i \<in> frames_of e \<Longrightarrow> e = Page (User_Accept i)" "Abort i \<in> frames_of e \<Longrightarrow> e = Page (User_Abort i)"
  by (induction e rule: frames_of.induct) auto

section \<open>Only what was asked for is sent\<close>

lemma trace_of_mem: "x \<in> set (trace_of ops step s es) \<Longrightarrow> \<exists>e \<in> set es. \<exists>s'. x \<in> set (ops s' e)"
  by (induction es arbitrary: s) auto

lemma accepted_ops:
  fixes g :: "'f sender"
  shows "(i, f) \<in> set (accepted (run (sender_step cap) g ops)) \<or> offered (out (run (sender_step cap) g ops)) i = Some f \<Longrightarrow>
      (i, f) \<in> set (accepted g) \<or> offered (out g) i = Some f \<or> Offer_File i f \<in> set ops"
    and "i \<in> fst ` set (accepted (run (sender_step cap) g ops)) \<Longrightarrow>
      i \<in> fst ` set (accepted g) \<or> Accepted i \<in> set ops"
proof (induction ops arbitrary: g)
  case (Cons e ops)
  have step: "(i, f) \<in> set (accepted (sender_step cap g e)) \<or> offered (out (sender_step cap g e)) i = Some f \<Longrightarrow>
      (i, f) \<in> set (accepted g) \<or> offered (out g) i = Some f \<or> Offer_File i f = e"
    "i \<in> fst ` set (accepted (sender_step cap g e)) \<Longrightarrow> i \<in> fst ` set (accepted g) \<or> Accepted i = e" for g
    by (cases e; force simp: start_next_simps release_slot_def Let_def split: option.splits if_splits)+
  { case 1 then show ?case using Cons.IH(1) [of "sender_step cap g e"] step(1) by fastforce }
  { case 2 then show ?case using Cons.IH(2) [of "sender_step cap g e"] step(2) by fastforce }
qed auto

lemma ctrl_ops_mem: "Accepted i \<in> set (ctrl_ops c) \<Longrightarrow> c = Some (Accept i)" "Offer_File i f \<notin> set (ctrl_ops c)"
  by (cases c; cases "the c"; simp add: ctrl_ops_def)+

lemma engine_ops_mem:
  "Accepted i \<in> set (engine_ops enc dec s e) \<Longrightarrow> \<exists>t. e = Page (Ctrl_Msg (Text t)) \<and> dec t = Some (Accept i)"
  "Offer_File i f \<in> set (engine_ops enc dec s e) \<Longrightarrow> (i, f) \<in> set (offered_by e)"
  by (induction enc dec s e rule: engine_ops.induct)
     (auto simp: ctrl_ops_mem Let_def split: option.splits if_splits)

lemma task_was_asked_for:
  assumes "reads_back enc dec" and "link_history enc dec es"
    and "t \<in> set (sending (engine_at b (link_after enc dec es)))"
  shows "At (\<not> b) (Page (User_Accept (tk_id t))) \<in> set es" and "(tk_id t, tk_file t) \<in> set (link_offers b es)"
proof -
  let ?tr = "link_trace enc dec b es"
  let ?g = "sender_after (engine_trace enc dec ?tr)"
  have inv: "engine_inv enc (fst ` set (all_offers ?tr)) (engine_at b (link_after enc dec es)) ?g"
    using engine_after_inv(2) [OF link_engine(1) [OF assms(2)]] link_engine(2) [OF assms(2)] by simp
  then have "started ?g = map (\<lambda>t. (tk_id t, tk_file t)) (sending (engine_at b (link_after enc dec es)))"
    by (simp add: engine_inv_def simulates_def)
  then have "(tk_id t, tk_file t) \<in> set (started ?g)" using assms(3) by simp
  moreover have "subseq (started ?g @ queue (out ?g)) (accepted ?g)"
    using inv by (simp add: engine_inv_def sender_inv_def)
  ultimately have acc: "(tk_id t, tk_file t) \<in> set (accepted ?g)"
    using list_emb_set [of "(=)" "started ?g @ queue (out ?g)" "accepted ?g"] by auto
  have ops: "engine_trace enc dec ?tr = trace_of (engine_ops enc dec) (engine_step enc dec) receiver_new ?tr"
    by (simp add: engine_trace_def)
  from acc have "tk_id t \<in> fst ` set (accepted ?g)" by force
  from accepted_ops(2) [OF this [unfolded sender_after_def]]
  have "Accepted (tk_id t) \<in> set (engine_trace enc dec ?tr)" by (simp add: sender_new_def)
  then obtain x where x: "Page (Ctrl_Msg (Text x)) \<in> set ?tr" "dec x = Some (Accept (tk_id t))"
    unfolding ops by (blast dest: trace_of_mem engine_ops_mem(1))
  from frame_was_caused [OF assms(1,2) x] frames_of_user(1)
  show "At (\<not> b) (Page (User_Accept (tk_id t))) \<in> set es" by metis
  from accepted_ops(1) [OF disjI1 [OF acc [unfolded sender_after_def]]]
  have "Offer_File (tk_id t) (tk_file t) \<in> set (engine_trace enc dec ?tr)"
    by (simp add: sender_new_def outgoing_default_def)
  then have "(tk_id t, tk_file t) \<in> set (all_offers ?tr)"
    unfolding ops all_offers_def by (auto dest!: trace_of_mem engine_ops_mem(2))
  then show "(tk_id t, tk_file t) \<in> set (link_offers b es)" by (simp add: link_trace_offers)
qed

section \<open>What is delivered is saved\<close>

text \<open>
  The browser saves what the \<open>k\<close>-th channel brings, and neither user stops the file that it carries.
\<close>

definition undisturbed :: "bool \<Rightarrow> nat \<Rightarrow> u64 \<Rightarrow> 't link_event list \<Rightarrow> bool" where
  "undisturbed b k i es \<longleftrightarrow>
     At b (Page (User_Cancel i)) \<notin> set es \<and> At (\<not> b) (Page (User_Abort i)) \<notin> set es \<and>
     (\<forall>now dl. Packet_Arrives b k now dl \<in> set es \<longrightarrow> dl = Downloaded)"

text \<open>Of the stream of \<open>t\<close> \<open>n\<close> packets have arrived: none, or some and the file is being received, or all.\<close>

definition delivered :: "(control \<Rightarrow> 't) \<Rightarrow> 't task \<Rightarrow> nat \<Rightarrow> 't shared \<Rightarrow> bool" where
  "delivered enc t n s \<longleftrightarrow>
     n = 0 \<or>
     (if end_frame enc (tk_id t) \<in> set (take n (tk_wire t))
      then saved_copy (tk_file t) \<in> set (downloads s) \<and> On_Recv_Complete (tk_id t) (jf_name (tk_file t)) \<in> set (ui s)
      else incoming_files s (tk_id t) \<noteq> None)"

lemma delivered_quiet:
  "delivered enc t n s \<Longrightarrow> incoming_files s' (tk_id t) = incoming_files s (tk_id t) \<Longrightarrow> calm i s s' \<Longrightarrow>
     delivered enc t n s'"
  by (auto simp: delivered_def calm_def)

lemma recv_inv_keyed:
  assumes "recv_inv enc ts cnt rts inc dls"
  shows "keyed inc"
  unfolding keyed_def
proof (intro allI impI)
  fix i x m
  assume "inc i = Some x" "meta x = Some m"
  with assms obtain k where "meta x = Some (file_meta i (tk_file (ts ! k)))" unfolding recv_inv_def by blast
  with \<open>meta x = Some m\<close> show "fs_id m = i" by (auto simp: file_meta_def)
qed

text \<open>An event at the receiving end that is not a packet of this stream.\<close>

lemma delivered_other:
  fixes enc :: "control \<Rightarrow> 't" and dec
  assumes "delivered enc t n (page s)" and "unrelated dec (tk_id t) k e" and "packet_on k e = []"
    and "keyed (incoming_files (page s))" and "\<forall>j. j \<noteq> k \<longrightarrow> rt_cur (routers s j) \<noteq> Some (tk_id t)"
  shows "delivered enc t n (page (page_step enc dec s e))"
  using delivered_quiet [OF assms(1) unrelated_step(2) [OF assms(2-5)] quiet_calm [OF unrelated_step(4) [OF assms(2-5)]]] .

lemma delivered_poll:
  assumes "delivered enc t n (page s)"
  shows "delivered enc t n (page (engine_step enc dec s (Poll k env)))"
proof (cases "poll_sending enc env k (page s)")
  case (Some s')
  then have "calm (tk_id t) (page s) s'"
    by (auto simp: calm_def poll_sending_def finish_sending_def Let_def call_ui_def split: option.splits if_splits)
  with delivered_quiet [OF assms] poll_sending_frame [OF Some] show ?thesis by (simp add: Some)
qed (use assms in simp)

text \<open>The next packet of this stream.\<close>

lemma delivered_packet:
  fixes enc :: "control \<Rightarrow> 't" and dec and now
  assumes serde: "reads_back enc dec" and t: "task_inv enc t" "file_ok (tk_file t)" and n: "n < length (tk_wire t)"
    and d: "delivered enc t n (page s)" and cur: "rt_cur (routers s k) = (if n = 0 then None else Some (tk_id t))"
    and own: "\<And>x. incoming_files (page s) (tk_id t) = Some x \<Longrightarrow> meta x = Some (file_meta (tk_id t) (tk_file t)) \<and>
      take n (tk_wire t) = stream enc (tk_id t) (tk_file t) (chunks x)"
  shows "delivered enc t (Suc n) (page (page_step enc dec s (Channel_Msg k now Downloaded (tk_wire t ! n))))"
proof -
  note next_take = take_Suc_conv_app_nth [OF n]
  note no_end = end_not_in_stream [OF serde t(2)]
  from t(1) n show ?thesis
  proof (cases rule: next_packet)
    case start
    with no_end [of "tk_id t" "tk_id t" "[]"] show ?thesis
      by (simp add: delivered_def recv_router_def reads_back_meta(1) [OF serde t(2)] file_meta_id)
  next
    case (chunk c cs)
    have "end_frame enc (tk_id t) \<notin> set (take (Suc n) (tk_wire t))"
      using no_end [of "tk_id t" "tk_id t" cs] chunk(2,3) by (simp add: next_take end_frame_def)
    moreover have "incoming_files (page s) (tk_id t) \<noteq> None"
      using d chunk(1,3) no_end [of "tk_id t" "tk_id t" cs] by (simp add: delivered_def)
    ultimately show ?thesis using chunk(1,2) cur by (auto simp: delivered_def recv_router_def)
  next
    case (finish cs)
    have "incoming_files (page s) (tk_id t) \<noteq> None"
      using d finish(1,4) no_end [of "tk_id t" "tk_id t" cs] by (simp add: delivered_def)
    then obtain x where x: "incoming_files (page s) (tk_id t) = Some x" by blast
    from own [OF x] finish(4) have "chunks x = cs" by (auto simp: stream_def inj_map_eq_map inj_def)
    with finish own [OF x] cur x show ?thesis
      by (auto simp: delivered_def recv_router_def end_frame_def reads_back_simps [OF serde] next_take finalize_recv_saves
          saved_by_def saved_copy_def file_meta_def)
  qed
qed

lemma delivered_grows:
  assumes "grows ts ts'" and "k < length ts" and "n \<le> length (tk_wire (ts ! k))"
  shows "delivered enc (ts' ! k) n s = delivered enc (ts ! k) n s"
  using grows_take(2-4) [OF assms(1), of n k] assms(2,3) by (cases "n = 0") (simp_all add: delivered_def)

lemma undisturbed_snoc: "undisturbed b k i (es @ [e]) \<Longrightarrow> undisturbed b k i es"
  by (auto simp: undisturbed_def)

text \<open>The stream on another channel does not start the file \<open>i\<close>.\<close>

lemma other_stream_unrelated:
  assumes serde: "reads_back enc dec" and t: "task_inv enc t" "file_ok (tk_file t)" and n: "n < length (tk_wire t)"
    and "tk_id t \<noteq> i" and "j \<noteq> k"
  shows "unrelated dec i k (Channel_Msg j now dl (tk_wire t ! n))"
  using t(1) n
proof (cases rule: next_packet)
  case start
  with assms(5,6) show ?thesis by (simp add: reads_back_meta(1) [OF serde t(2)] file_meta_id)
qed (use assms(6) in \<open>simp_all add: end_frame_def reads_back_simps [OF serde]\<close>)

lemma delivered_step:
  fixes enc :: "control \<Rightarrow> 't" and dec and es and e
  defines "w \<equiv> link_after enc dec es" and "w' \<equiv> link_after enc dec (es @ [e])"
  assumes serde: "reads_back enc dec" and hist: "link_history enc dec (es @ [e])"
    and calm: "undisturbed b k (tk_id t) (es @ [e])"
    and k: "k < length (sending (engine_at (\<not> b) w))" and t: "t = sending (engine_at (\<not> b) w) ! k"
    and e': "arriving w e = Some (b, e')"
    and d: "delivered enc t (file_in w b k) (engine_at b w)"
  shows "delivered enc t (file_in w' b k) (engine_at b w')"
proof -
  let ?ts = "sending (engine_at (\<not> b) w)"
  let ?i = "tk_id t"
  have old: "link_history enc dec es" and ok: "link_ok w e" using link_history_snoc [OF hist] by (simp_all add: w_def)
  have step: "w' = count_in e (w\<lparr>ends := (ends w)(b := engine_step enc dec (ends w b) e')\<rparr>)"
    by (simp add: w'_def link_after_snoc link_step_def e' flip: w_def)
  have inv: "recv_inv enc ?ts (file_in w b) (routers (ends w b)) (incoming_files (engine_at b w)) (downloads (engine_at b w))"
    using link_inv_after [OF serde old] by (simp add: link_inv_def w_def)
  note key = recv_inv_keyed [OF inv]
  note ts = link_tasks [where b = "\<not> b", OF old refl, folded w_def]
  have ids: "tk_id (?ts ! j) \<noteq> ?i" if "j < length ?ts" "j \<noteq> k" for j
    using ts(1) k that by (auto simp: t distinct_conv_nth)
  have cur: "\<forall>j. j \<noteq> k \<longrightarrow> rt_cur (routers (ends w b) j) \<noteq> Some ?i"
  proof (intro allI impI)
    fix j assume j: "j \<noteq> k"
    have "rt_cur (routers (ends w b) j) = (if file_in w b j = 0 then None else Some (tk_id (?ts ! j)))"
      "file_in w b j \<le> (if j < length ?ts then length (tk_wire (?ts ! j)) else 0)"
      using inv unfolding recv_inv_def by blast+
    with ids [OF _ j] show "rt_cur (routers (ends w b) j) \<noteq> Some ?i" by (cases "j < length ?ts") auto
  qed
  have other: ?thesis if "e' = Page u" "unrelated dec ?i k u" "packet_on k u = []" "file_in w' b k = file_in w b k" for u
    using delivered_other [OF d that(2,3) key cur] that(4) by (simp add: step that(1))
  show ?thesis
  proof (cases e)
    case (At c x)
    with e' have x: "c = b" "x = e'" by simp_all
    show ?thesis
    proof (cases e')
      case (Poll m env)
      then show ?thesis using delivered_poll [OF d] by (simp add: step At)
    next
      case (Page u)
      with ok calm At x show ?thesis
        by (intro other [OF Page]) (cases u; auto simp: undisturbed_def step)+
    qed
  next
    case (Ctrl_Arrives c)
    then obtain f where f: "c = b" "e' = Page (Ctrl_Msg (Text f))" using e' by (auto simp: Let_def split: if_splits)
    have "Page (Ctrl_Msg (Text f)) \<in> set (link_trace enc dec b (es @ [e]))"
      using e' f by (simp add: link_trace_snoc events_at_def flip: w_def)
    note caused = frame_was_caused [OF serde hist this]
    have "dec f \<noteq> Some (Abort ?i)"
    proof
      assume "dec f = Some (Abort ?i)"
      then obtain x where "At (\<not> b) x \<in> set (es @ [e])" "Abort ?i \<in> frames_of x" by (rule caused)
      with calm frames_of_user(2) show False unfolding undisturbed_def by metis
    qed
    then show ?thesis by (intro other [OF f(2)]) (simp_all add: step Ctrl_Arrives)
  next
    case (Packet_Arrives c j now dl)
    then have j: "c = b" "j < length ?ts" "file_in w b j < length (tk_wire (?ts ! j))"
      and p: "e' = Page (Channel_Msg j now dl (tk_wire (?ts ! j) ! file_in w b j))"
      using e' by (auto simp: Let_def split: if_splits)
    show ?thesis
    proof (cases "j = k")
      case False
      have "unrelated dec ?i k (Channel_Msg j now dl (tk_wire (?ts ! j) ! file_in w b j))"
        using other_stream_unrelated [OF serde _ _ j(3) ids [OF j(2) False] False] ts(2,3) j(2) by simp
      then show ?thesis using False j(1) by (intro other [OF p]) (simp_all add: step Packet_Arrives)
    next
      case True
      have dl: "dl = Downloaded" using calm by (simp add: undisturbed_def Packet_Arrives j(1) True)
      have n: "file_in w b k < length (tk_wire t)" using j(3) True by (simp add: t)
      have "delivered enc t (Suc (file_in w b k))
        (page (page_step enc dec (ends w b) (Channel_Msg k now Downloaded (tk_wire t ! file_in w b k))))"
      proof (rule delivered_packet [OF serde _ _ n d])
        show "task_inv enc t" "file_ok (tk_file t)" using ts(2,3) k by (simp_all add: t)
        show "rt_cur (routers (ends w b) k) = (if file_in w b k = 0 then None else Some ?i)"
          using inv by (simp add: recv_inv_def t)
        fix x
        assume "incoming_files (engine_at b w) ?i = Some x"
        with inv obtain m where m: "m < length ?ts" "tk_id (?ts ! m) = ?i" "meta x = Some (file_meta ?i (tk_file (?ts ! m)))"
          "take (file_in w b m) (tk_wire (?ts ! m)) = stream enc ?i (tk_file (?ts ! m)) (chunks x)"
          unfolding recv_inv_def by blast
        with ids [of m] have "m = k" by blast
        with m show "meta x = Some (file_meta ?i (tk_file t)) \<and>
          take (file_in w b k) (tk_wire t) = stream enc ?i (tk_file t) (chunks x)" by (simp add: t)
      qed
      then show ?thesis using p by (simp add: step Packet_Arrives j(1) True dl t del: page_step.simps)
    qed
  qed
qed

lemma delivered_after:
  assumes serde: "reads_back enc dec"
  shows "link_history enc dec es \<Longrightarrow> k < length (sending (engine_at (\<not> b) (link_after enc dec es))) \<Longrightarrow>
    undisturbed b k (tk_id (sending (engine_at (\<not> b) (link_after enc dec es)) ! k)) es \<Longrightarrow>
    delivered enc (sending (engine_at (\<not> b) (link_after enc dec es)) ! k) (file_in (link_after enc dec es) b k)
      (engine_at b (link_after enc dec es))"
proof (induction es rule: rev_induct)
  case Nil
  then show ?case by (simp add: link_after_def link_new_def receiver_new_def transfer_new_def)
next
  case (snoc e es)
  let ?w = "link_after enc dec es" and ?w' = "link_after enc dec (es @ [e])"
  let ?ts = "sending (engine_at (\<not> b) ?w)" and ?ts' = "sending (engine_at (\<not> b) ?w')"
  have old: "link_history enc dec es" "link_ok ?w e" using link_history_snoc [OF snoc.prems(1)] by simp_all
  have cnt: "file_in ?w b k \<le> (if k < length ?ts then length (tk_wire (?ts ! k)) else 0)"
    using link_inv_after [OF serde old(1)] unfolding link_inv_def recv_inv_def by blast
  show ?case
  proof (cases "\<exists>e'. arriving ?w e = Some (b, e')")
    case True
    then obtain e' where e': "arriving ?w e = Some (b, e')" by blast
    then have same: "?ts' = ?ts" by (simp add: link_after_snoc link_step_def)
    with snoc.prems(2) have k: "k < length ?ts" by simp
    have calm: "undisturbed b k (tk_id (?ts ! k)) (es @ [e])" using snoc.prems(3) same by simp
    from snoc.IH [OF old(1) k undisturbed_snoc [OF calm]]
    show ?thesis unfolding same by (rule delivered_step [OF serde snoc.prems(1) calm k refl e'])
  next
    case False
    then have b: "file_in ?w' b k = file_in ?w b k" "ends ?w' b = ends ?w b"
      by (cases e; auto simp: link_after_snoc link_step_def Let_def split: if_splits option.splits)+
    have g: "grows ?ts ?ts'"
    proof (cases "arriving ?w e")
      case None
      then show ?thesis by (simp add: link_after_snoc link_step_def)
    next
      case (Some ce)
      with False have "fst ce = (\<not> b)" by (cases ce) auto
      moreover have "engine_ok (ends ?w (fst ce)) (snd ce)" using old(2) Some by (cases e) (auto simp: Let_def split: if_splits)
      ultimately show ?thesis
        using sending_grows [of "ends ?w (\<not> b)" "snd ce" enc dec]
        by (simp add: link_after_snoc link_step_def Some case_prod_unfold)
    qed
    show ?thesis
    proof (cases "k < length ?ts")
      case True
      have "tk_id (?ts' ! k) = tk_id (?ts ! k)" using g True by (simp add: grows_def)
      with snoc.prems(3) have "undisturbed b k (tk_id (?ts ! k)) es" by (simp add: undisturbed_snoc)
      from snoc.IH [OF old(1) True this] show ?thesis
        using delivered_grows [OF g True, of "file_in ?w b k"] cnt True by (simp add: b)
    next
      case False
      with cnt show ?thesis by (simp add: b delivered_def)
    qed
  qed
qed

section \<open>What the two ends can rely on\<close>

text \<open>An exchange for the demonstration: an empty file is offered, accepted, sent and delivered.\<close>

definition empty_file :: js_file where
  "empty_file = \<lparr>jf_name = lit ''a'', jf_mime = [], jf_bytes = []\<rparr>"

definition demo_link :: "control link_event list" where
  "demo_link =
     [At True (Page (Ctrl_State True)), At False (Page (Ctrl_State True)),
      At True (Page (User_Offers [(0, empty_file)])), Ctrl_Arrives False,
      At False (Page (User_Accept 0)), Ctrl_Arrives True, At True (Poll 0 demo_env),
      Packet_Arrives False 0 (f_int 0) Downloaded, Packet_Arrives False 0 (f_int 0) Downloaded]"

lemma empty_file_ranges: "slab_ranges empty_file = Some []"
  using slab_ranges_eq [of empty_file] by (simp add: empty_file_def file_ok_def)

lemma demo_reads_back: "reads_back id Some"
  by (simp add: reads_back_def)

lemmas demo_link_simps =
  link_new_def link_step_def engine_simps link_offers_def transfer_accept_def poll_sending_def poll_send_file_def
  next_slab_def finish_sending_def release_slot_def call_ui_def empty_file_ranges demo_env_def recv_router_def
  router_new_def file_meta_id Let_def

lemma demo_link_history: "link_history id Some demo_link"
  by (simp add: link_history_def demo_link_def demo_link_simps empty_file_def)

text \<open>(C12) Nobody is sent a byte that was not asked for: every stream that one page runs carries a file
  which that page offered, under the id of the offer, and the user at the other end has accepted
  exactly this id. An offer that is declined, ignored or still on its way is never streamed.\<close>

theorem only_accepted_files_are_streamed:
  assumes "reads_back enc dec" and "link_history enc dec es"
  shows "\<forall>t \<in> set (sending (engine_at b (link_after enc dec es))).
    (tk_id t, tk_file t) \<in> set (link_offers b es) \<and> At (\<not> b) (Page (User_Accept (tk_id t))) \<in> set es"
  using task_was_asked_for [OF assms] by blast

theorem only_accepted_files_are_streamed_witness:
  "(tk_id (sending (engine_at True (link_after id Some demo_link)) ! 0),
    tk_file (sending (engine_at True (link_after id Some demo_link)) ! 0)) \<in> set (link_offers True demo_link)"
proof -
  have "0 < length (sending (engine_at True (link_after id Some demo_link)))"
    by (simp add: link_after_def demo_link_def demo_link_simps)
  then show ?thesis
    using only_accepted_files_are_streamed [OF demo_reads_back demo_link_history, of True] by simp
qed

text \<open>Whatever arrives, in whatever order, and whatever is cancelled, aborted or lost on the way:
  everything a page ever saves is a complete, byte for byte copy of a file that the other page
  offered and this user accepted, with its name and its type, and each of them is saved at most
  once.\<close>

theorem every_download_is_a_wanted_copy:
  assumes "reads_back enc dec" and "link_history enc dec es"
  shows "\<exists>got. downloads (engine_at b (link_after enc dec es)) = map (\<lambda>(i, file). saved_copy file) got \<and>
    distinct (map fst got) \<and> set got \<subseteq> set (link_offers (\<not> b) es) \<and>
    (\<forall>(i, file) \<in> set got. At b (Page (User_Accept i)) \<in> set es)"
proof -
  let ?ts = "sending (engine_at (\<not> b) (link_after enc dec es))"
  from link_inv_after [OF assms] obtain got where
    got: "downloads (engine_at b (link_after enc dec es)) = map (\<lambda>k. saved_copy (tk_file (?ts ! k))) got"
    "distinct got" "\<forall>k \<in> set got. k < length ?ts"
    unfolding link_inv_def recv_inv_def by blast
  let ?got = "map (\<lambda>k. (tk_id (?ts ! k), tk_file (?ts ! k))) got"
  have "inj_on (\<lambda>k. tk_id (?ts ! k)) (set got)"
    using link_tasks(1) [OF assms(2) refl, of "\<not> b"] got(3)
    by (auto simp: inj_on_def distinct_conv_nth)
  then have "distinct (map fst ?got)" using got(2) by (simp add: distinct_map comp_def)
  moreover have "downloads (engine_at b (link_after enc dec es)) = map (\<lambda>(i, file). saved_copy file) ?got"
    using got(1) by simp
  moreover have "set ?got \<subseteq> set (link_offers (\<not> b) es)" "\<forall>(i, file) \<in> set ?got. At b (Page (User_Accept i)) \<in> set es"
    using got(3) task_was_asked_for [OF assms, of _ "\<not> b"] by auto
  ultimately show ?thesis by blast
qed

theorem every_download_is_a_wanted_copy_witness:
  "\<exists>got. downloads (engine_at False (link_after id Some demo_link)) = map (\<lambda>(i, file). saved_copy file) got \<and>
     set got \<subseteq> {(0 :: u64, empty_file)}"
proof -
  have offers: "link_offers (\<not> False) demo_link = [(0, empty_file)]" by (simp add: link_offers_def demo_link_def)
  from every_download_is_a_wanted_copy [OF demo_reads_back demo_link_history, of False] show ?thesis
    unfolding offers list.set by blast
qed

text \<open>And what is sent to its end arrives: once the other end has put the \<open>End\<close> of a stream on its channel
  and all its packets have been delivered, the file is saved and reported complete, whatever else
  happens on this and on all other channels in both directions, unless one of the two users has
  stopped exactly this file or the browser could not save it.\<close>

theorem delivered_file_is_saved:
  fixes enc :: "control \<Rightarrow> 't" and dec es k b
  defines "w \<equiv> link_after enc dec es"
  defines "t \<equiv> sending (engine_at (\<not> b) w) ! k"
  assumes "reads_back enc dec" and "link_history enc dec es"
    and "k < length (sending (engine_at (\<not> b) w))" and "end_frame enc (tk_id t) \<in> set (tk_wire t)"
    and "file_in w b k = length (tk_wire t)" and "undisturbed b k (tk_id t) es"
  shows "saved_copy (tk_file t) \<in> set (downloads (engine_at b w)) \<and>
    On_Recv_Complete (tk_id t) (jf_name (tk_file t)) \<in> set (ui (engine_at b w))"
proof -
  have "delivered enc t (file_in w b k) (engine_at b w)"
    using delivered_after [OF assms(3,4)] assms(5,8) by (simp add: t_def w_def)
  with assms(6,7) show ?thesis by (auto simp: delivered_def)
qed

theorem delivered_file_is_saved_witness:
  "saved_copy empty_file \<in> set (downloads (engine_at False (link_after id Some demo_link)))"
proof -
  let ?t = "sending (engine_at (\<not> False) (link_after id Some demo_link)) ! 0"
  have *: "0 < length (sending (engine_at (\<not> False) (link_after id Some demo_link)))"
    "end_frame id (tk_id ?t) \<in> set (tk_wire ?t)" "file_in (link_after id Some demo_link) False 0 = length (tk_wire ?t)"
    "undisturbed False 0 (tk_id ?t) demo_link" "tk_file ?t = empty_file"
    by (simp_all add: link_after_def demo_link_def demo_link_simps end_frame_def undisturbed_def)
  from delivered_file_is_saved [OF demo_reads_back demo_link_history *(1-4)] *(5) show ?thesis by simp
qed

end
