(* ===== verification/Peer_Connection.thy ===== *)
theory Peer_Connection
  imports Signal_Msg
begin

text \<open>
  The asynchronous calls of WebRTC, \<open>crates/client/src/webrtc.rs\<close>. The peer connection is the
  browser's: what it is asked is a call, and how the promise of the call settles is the browser's
  answer. An \<open>async fn\<close> is the tree of its \<open>await\<close>s: it is done, or it has made a call and goes on with
  whatever the promise settles to.
\<close>

section \<open>Asynchronous functions\<close>

datatype ('q, 'r, 'a) async = Ready 'a | Await 'q "'r \<Rightarrow> ('q, 'r, 'a) async"

primrec bind_async :: "('q, 'r, 'a) async \<Rightarrow> ('a \<Rightarrow> ('q, 'r, 'b) async) \<Rightarrow> ('q, 'r, 'b) async" where
  "bind_async (Ready a) f = f a"
| "bind_async (Await q k) f = Await q (\<lambda>r. bind_async (k r) f)"

text \<open>A \<open>Result<_, JsValue>\<close>; an error is what is logged of it. \<open>try_async x f\<close> is \<open>f(x.await?)\<close>.\<close>

type_synonym 'a js_result = "rstr + 'a"

definition try_async ::
  "('q, 'r, 'a js_result) async \<Rightarrow> ('a \<Rightarrow> ('q, 'r, 'b js_result) async) \<Rightarrow> ('q, 'r, 'b js_result) async" where
  "try_async x f = bind_async x (\<lambda>r. case r of Inl e \<Rightarrow> Ready (Inl e) | Inr a \<Rightarrow> f a)"

text \<open>
  Driving a function with the answers of the browser, one for each call: the calls it has made and,
  if it is done, its result. The last call may be unanswered.
\<close>

fun drive :: "('q, 'r, 'a) async \<Rightarrow> 'r list \<Rightarrow> 'q list \<times> 'a option" where
  "drive (Ready a) rs = ([], Some a)"
| "drive (Await q k) [] = ([q], None)"
| "drive (Await q k) (r # rs) = (let (qs, a) = drive (k r) rs in (q # qs, a))"

lemma drive_bind:
  "drive (bind_async x f) rs =
     (case drive x rs of
        (qs, None) \<Rightarrow> (qs, None)
      | (qs, Some a) \<Rightarrow> (let (qs', b) = drive (f a) (drop (length qs) rs) in (qs @ qs', b)))"
proof (induction x arbitrary: rs)
  case (Await q k)
  then show ?case by (cases rs) (auto simp: Let_def case_prod_unfold split: option.split)
qed (simp add: case_prod_unfold)

section \<open>The peer connection\<close>

datatype sdp_type = SdpOffer | SdpAnswer

datatype 'c rtc_call =
    Create_Offer_Call
  | Create_Answer_Call
  | Set_Local_Description sdp_type rstr
  | Set_Remote_Description sdp_type rstr
  | Add_Ice_Candidate 'c

text \<open>
  How a promise settles: rejected, or fulfilled with a value. All that is read of a value is its
  property \<open>sdp\<close>; reading it may throw, and it may be something else than a string.
\<close>

type_synonym settled = "rstr option js_result js_result"

type_synonym ('c, 'a) rtc_async = "('c rtc_call, settled, 'a) async"

definition js_future :: "'c rtc_call \<Rightarrow> ('c, rstr option js_result js_result) rtc_async" where
  "js_future q = Await q Ready"

definition stun_url :: "rstr option \<Rightarrow> rstr" where
  "stun_url compile_time =
     (case compile_time of Some url \<Rightarrow> url | None \<Rightarrow> lit ''stun:stun.l.google.com:19302'')"

record rtc_configuration =
  ice_server_urls :: "rstr list"

text \<open>\<open>construct\<close> is the browser's constructor of a peer connection.\<close>

definition new_peer_connection ::
  "rstr option \<Rightarrow> (rtc_configuration \<Rightarrow> 'pc js_result) \<Rightarrow> 'pc js_result" where
  "new_peer_connection compile_time construct = construct \<lparr>ice_server_urls = [stun_url compile_time]\<rparr>"

definition set_local :: "sdp_type \<Rightarrow> rstr \<Rightarrow> ('c, unit js_result) rtc_async" where
  "set_local kind sdp = try_async (js_future (Set_Local_Description kind sdp)) (\<lambda>_. Ready (Inr ()))"

definition set_remote :: "sdp_type \<Rightarrow> rstr \<Rightarrow> ('c, unit js_result) rtc_async" where
  "set_remote kind sdp = try_async (js_future (Set_Remote_Description kind sdp)) (\<lambda>_. Ready (Inr ()))"

definition create_offer :: "('c, rstr js_result) rtc_async" where
  "create_offer =
     try_async (js_future Create_Offer_Call) (\<lambda>offer.
       case offer of
         Inl e \<Rightarrow> Ready (Inl e)
       | Inr None \<Rightarrow> Ready (Inl (lit ''offer missing sdp''))
       | Inr (Some sdp) \<Rightarrow> try_async (set_local SdpOffer sdp) (\<lambda>_. Ready (Inr sdp)))"

definition create_answer :: "('c, rstr js_result) rtc_async" where
  "create_answer =
     try_async (js_future Create_Answer_Call) (\<lambda>answer.
       case answer of
         Inl e \<Rightarrow> Ready (Inl e)
       | Inr None \<Rightarrow> Ready (Inl (lit ''answer missing sdp''))
       | Inr (Some sdp) \<Rightarrow> try_async (set_local SdpAnswer sdp) (\<lambda>_. Ready (Inr sdp)))"

text \<open>\<open>JSON.parse\<close> and the constructor of a candidate are the browser's.\<close>

definition add_ice_candidate ::
  "(rstr \<Rightarrow> 'i js_result) \<Rightarrow> ('i \<Rightarrow> 'c js_result) \<Rightarrow> rstr \<Rightarrow> ('c, unit js_result) rtc_async" where
  "add_ice_candidate json_parse new_candidate candidate_json =
     (case json_parse candidate_json of
        Inl e \<Rightarrow> Ready (Inl e)
      | Inr obj \<Rightarrow>
          (case new_candidate obj of
             Inl e \<Rightarrow> Ready (Inl e)
           | Inr candidate \<Rightarrow> try_async (js_future (Add_Ice_Candidate candidate)) (\<lambda>_. Ready (Inr ()))))"

text \<open>
  The handler of \<open>onicecandidate\<close>: the text it passes on, if any. The event carries no candidate when
  gathering has ended; \<open>stringify\<close> is \<open>JSON.stringify\<close>, which may throw or give no string.
\<close>

definition on_ice_candidate :: "('c \<Rightarrow> rstr option js_result) \<Rightarrow> 'c option \<Rightarrow> rstr option" where
  "on_ice_candidate stringify candidate =
     (case candidate of
        None \<Rightarrow> None
      | Some c \<Rightarrow> (case stringify c of Inl e \<Rightarrow> None | Inr json \<Rightarrow> json))"

section \<open>The tasks of the handshake\<close>

text \<open>
  The three blocks that \<open>execute\<close> spawns (\<open>app.rs\<close>). A block that negotiates ends with the
  message that it hands to the signaling client, if it got that far.
\<close>

definition offer_block :: "('c, signal_msg option) rtc_async" where
  "offer_block =
     bind_async create_offer (\<lambda>r.
       Ready (case r of Inl e \<Rightarrow> None | Inr sdp \<Rightarrow> Some (Sdp sdp (lit ''offer''))))"

definition answer_block :: "rstr \<Rightarrow> ('c, signal_msg option) rtc_async" where
  "answer_block sdp =
     bind_async (set_remote SdpOffer sdp) (\<lambda>r.
       case r of
         Inl e \<Rightarrow> Ready None
       | Inr _ \<Rightarrow>
           bind_async create_answer (\<lambda>r.
             Ready (case r of Inl e \<Rightarrow> None | Inr answer \<Rightarrow> Some (Sdp answer (lit ''answer'')))))"

definition accept_block :: "rstr \<Rightarrow> ('c, signal_msg option) rtc_async" where
  "accept_block sdp = bind_async (set_remote SdpAnswer sdp) (\<lambda>_. Ready None)"

definition candidate_block ::
  "(rstr \<Rightarrow> 'i js_result) \<Rightarrow> ('i \<Rightarrow> 'c js_result) \<Rightarrow> rstr \<Rightarrow> ('c, signal_msg option) rtc_async" where
  "candidate_block json_parse new_candidate candidate =
     bind_async (add_ice_candidate json_parse new_candidate candidate) (\<lambda>_. Ready None)"

lemmas async_defs =
  offer_block_def answer_block_def accept_block_def candidate_block_def create_offer_def create_answer_def
  set_local_def set_remote_def add_ice_candidate_def js_future_def try_async_def

text \<open>The SDP text of a settled \<open>createOffer\<close> or \<open>createAnswer\<close>, if there is one.\<close>

definition made_sdp :: "settled \<Rightarrow> rstr option" where
  "made_sdp r = (case r of Inr (Inr sdp) \<Rightarrow> sdp | _ \<Rightarrow> None)"

definition fulfilled :: "settled \<Rightarrow> bool" where
  "fulfilled r \<longleftrightarrow> \<not> isl r"

lemma fulfilled_simps [simp]: "fulfilled (Inr v)" "\<not> fulfilled (Inl e)"
  by (simp_all add: fulfilled_def)

lemma made_sdp_simps [simp]:
  "made_sdp (Inl e) = None" "made_sdp (Inr (Inl e)) = None" "made_sdp (Inr (Inr v)) = v"
  by (simp_all add: made_sdp_def)

text \<open>What the blocks that negotiate do with whatever the browser answers.\<close>

lemma drive_offer_block:
  "drive offer_block rs =
     (case rs of [] \<Rightarrow> ([Create_Offer_Call], None)
      | r # rs \<Rightarrow>
          (case made_sdp r of None \<Rightarrow> ([Create_Offer_Call], Some None)
           | Some sdp \<Rightarrow>
               ([Create_Offer_Call, Set_Local_Description SdpOffer sdp],
                case rs of [] \<Rightarrow> None
                | r # _ \<Rightarrow> Some (if fulfilled r then Some (Sdp sdp (lit ''offer'')) else None))))"
  by (auto simp: async_defs made_sdp_def fulfilled_def Let_def isl_def split: list.split sum.split option.split)

end
