(* ===== verification/Negotiation.thy ===== *)
theory Negotiation
  imports Client_App Peer_Connection "HOL-Library.Sublist" "HOL-Library.Multiset"
begin

text \<open>
  The page together with the blocks that its actions spawn: what \<open>execute\<close> asks of a peer connection
  runs beside the handlers, each block on its own, and the browser settles their promises in any
  order and at any time. What \<open>Client_App\<close> takes as an event from outside, a description that was made,
  is here what such a block ends with.
\<close>

section \<open>The page with its blocks\<close>

text \<open>\<open>JSON.parse\<close> and the constructor of a candidate.\<close>

record ('i, 'c) ice_api =
  json_parse :: "rstr \<Rightarrow> 'i js_result"
  new_candidate :: "'i \<Rightarrow> 'c js_result"

text \<open>A block belongs to the effect that spawned it; \<open>bl_trace\<close> are its calls with their answers.\<close>

record 'c block =
  bl_effect :: effect
  bl_rest :: "('c, signal_msg option) rtc_async"
  bl_trace :: "('c rtc_call \<times> settled) list"

fun block_of :: "('i, 'c) ice_api \<Rightarrow> effect \<Rightarrow> ('c, signal_msg option) rtc_async option" where
  "block_of api (Create_Offer p) = Some offer_block"
| "block_of api (Create_Answer p sdp) = Some (answer_block sdp)"
| "block_of api (Set_Remote_Answer p sdp) = Some (accept_block sdp)"
| "block_of api (Add_Candidate p c) = Some (candidate_block (json_parse api) (new_candidate api) c)"
| "block_of api _ = None"

definition spawn_block :: "('i, 'c) ice_api \<Rightarrow> effect \<Rightarrow> 'c block list" where
  "spawn_block api x =
     (case block_of api x of
        None \<Rightarrow> [] | Some b \<Rightarrow> [\<lparr>bl_effect = x, bl_rest = b, bl_trace = []\<rparr>])"

definition spawn_blocks :: "('i, 'c) ice_api \<Rightarrow> effect list \<Rightarrow> 'c block list" where
  "spawn_blocks api xs = concat (map (spawn_block api) xs)"

record ('t, 'c) negotiator =
  ng_page :: "'t client"
  ng_blocks :: "'c block list"

definition negotiator_new :: "rstr \<Rightarrow> rstr option \<Rightarrow> ('t, 'c) negotiator" where
  "negotiator_new hash session_owns = \<lparr>ng_page = client_new hash session_owns, ng_blocks = []\<rparr>"

text \<open>Something happens in the page, or the promise that block \<open>k\<close> waits for settles.\<close>

datatype 't negotiation_event = In_Page "'t client_event" | Settles nat settled

definition resume :: "settled \<Rightarrow> 'c block \<Rightarrow> 'c block" where
  "resume r b =
     (case bl_rest b of
        Ready m \<Rightarrow> b
      | Await q k \<Rightarrow> b\<lparr>bl_rest := k r, bl_trace := bl_trace b @ [(q, r)]\<rparr>)"

text \<open>What a block hands to the signaling client when it comes to its end.\<close>

definition outcome :: "'c block \<Rightarrow> signal_msg option" where
  "outcome b = (case bl_rest b of Ready m \<Rightarrow> m | Await q k \<Rightarrow> None)"

fun negotiation_step ::
  "'t platform \<Rightarrow> ('i, 'c) ice_api \<Rightarrow> ('t, 'c) negotiator \<Rightarrow> 't negotiation_event \<Rightarrow> ('t, 'c) negotiator" where
  "negotiation_step P api n (In_Page e) =
     (let page' = client_step P (ng_page n) e
      in n\<lparr>ng_page := page',
           ng_blocks := ng_blocks n @
             spawn_blocks api (drop (length (cl_effects (ng_page n))) (cl_effects page'))\<rparr>)"
| "negotiation_step P api n (Settles k r) =
     (let b = resume r (ng_blocks n ! k); n = n\<lparr>ng_blocks := (ng_blocks n)[k := b]\<rparr>
      in case outcome b of
           Some m \<Rightarrow> n\<lparr>ng_page := sig_send m (ng_page n)\<rparr>
         | None \<Rightarrow> n)"

text \<open>
  A description comes from a block and from nowhere else; a promise settles once, for a block that
  waits for it.
\<close>

definition waits :: "'c block \<Rightarrow> bool" where
  "waits b \<longleftrightarrow> (case bl_rest b of Ready m \<Rightarrow> False | Await q k \<Rightarrow> True)"

fun negotiation_ok :: "('t, 'c) negotiator \<Rightarrow> 't negotiation_event \<Rightarrow> bool" where
  "negotiation_ok n (In_Page (Offer_Made sdp)) \<longleftrightarrow> False"
| "negotiation_ok n (In_Page (Answer_Made sdp)) \<longleftrightarrow> False"
| "negotiation_ok n (In_Page e) \<longleftrightarrow> True"
| "negotiation_ok n (Settles k r) \<longleftrightarrow> k < length (ng_blocks n) \<and> waits (ng_blocks n ! k)"

definition negotiation_history ::
  "'t platform \<Rightarrow> ('i, 'c) ice_api \<Rightarrow> rstr \<Rightarrow> rstr option \<Rightarrow> 't negotiation_event list \<Rightarrow> bool" where
  "negotiation_history P api hash session_owns es \<longleftrightarrow>
     run_ok negotiation_ok (negotiation_step P api) (negotiator_new hash session_owns) es"

definition negotiation_after ::
  "'t platform \<Rightarrow> ('i, 'c) ice_api \<Rightarrow> rstr \<Rightarrow> rstr option \<Rightarrow> 't negotiation_event list \<Rightarrow> ('t, 'c) negotiator" where
  "negotiation_after P api hash session_owns es =
     run (negotiation_step P api) (negotiator_new hash session_owns) es"

section \<open>What a block may have done so far\<close>

text \<open>
  The record of a block that carries out an effect: its calls are those of the block, answered as
  recorded, and what is left is the rest of it.
\<close>

fun after_answers :: "('q, 'r, 'a) async \<Rightarrow> ('q \<times> 'r) list \<Rightarrow> ('q, 'r, 'a) async option" where
  "after_answers x [] = Some x"
| "after_answers (Ready a) (_ # _) = None"
| "after_answers (Await q k) ((q', r) # tr) = (if q' = q then after_answers (k r) tr else None)"

lemma after_answers_snoc:
  "after_answers x tr = Some (Await q k) \<Longrightarrow> after_answers x (tr @ [(q, r)]) = Some (k r)"
  by (induction x tr rule: after_answers.induct) (auto split: if_splits)

definition block_ok :: "('i, 'c) ice_api \<Rightarrow> 'c block \<Rightarrow> bool" where
  "block_ok api b \<longleftrightarrow>
     (\<exists>x. block_of api (bl_effect b) = Some x \<and> after_answers x (bl_trace b) = Some (bl_rest b))"

lemma spawned_ok: "b \<in> set (spawn_blocks api xs) \<Longrightarrow> block_ok api b"
  by (auto simp: spawn_blocks_def spawn_block_def block_ok_def dest: sym split: option.splits)

lemma resume_ok: "block_ok api b \<Longrightarrow> block_ok api (resume r b)"
  by (auto simp: block_ok_def resume_def after_answers_snoc split: async.split)

lemma resume_effect [simp]: "bl_effect (resume r b) = bl_effect b"
  by (simp add: resume_def split: async.split)

definition spawns :: "effect \<Rightarrow> bool" where
  "spawns x \<longleftrightarrow>
     (case x of Create_Offer _ \<Rightarrow> True | Create_Answer _ _ \<Rightarrow> True | Set_Remote_Answer _ _ \<Rightarrow> True
      | Add_Candidate _ _ \<Rightarrow> True | _ \<Rightarrow> False)"

lemma spawned_effects: "map bl_effect (spawn_blocks api xs) = filter spawns xs"
proof (induction xs)
  case (Cons x xs)
  then show ?case by (cases x) (simp_all add: spawn_blocks_def spawn_block_def spawns_def)
qed (simp add: spawn_blocks_def)

text \<open>Two blocks end with a message: what they did before.\<close>

lemma offer_outcome:
  assumes "after_answers offer_block tr = Some (Ready m)"
  shows "\<exists>r. m = None \<or> (\<exists>sdp r'. m = Some (Sdp sdp (lit ''offer'')) \<and> made_sdp r = Some sdp \<and> fulfilled r' \<and>
    tr = [(Create_Offer_Call, r), (Set_Local_Description SdpOffer sdp, r')])"
  using assms
  by (cases tr; cases "tl tr"; cases "tl (tl tr)")
     (auto simp: async_defs made_sdp_def split: if_splits sum.splits option.splits)

lemma answer_outcome:
  assumes "after_answers (answer_block off) tr = Some (Ready m)"
  shows "\<exists>r. m = None \<or> (\<exists>sdp r0 r'. m = Some (Sdp sdp (lit ''answer'')) \<and> fulfilled r0 \<and> made_sdp r = Some sdp \<and> fulfilled r' \<and>
    tr = [(Set_Remote_Description SdpOffer off, r0), (Create_Answer_Call, r), (Set_Local_Description SdpAnswer sdp, r')])"
  using assms
  by (cases tr; cases "tl tr"; cases "tl (tl tr)"; cases "tl (tl (tl tr))")
     (auto simp: async_defs made_sdp_def split: if_splits sum.splits option.splits)

section \<open>Effects are only added\<close>

lemma fold_grows: "(\<And>x s. prefix (g s) (g (f x s))) \<Longrightarrow> prefix (g s) (g (fold f xs s))"
  by (induction xs arbitrary: s) (auto intro: prefix_order.trans)

lemma effects_frame [simp]:
  "cl_effects (emit x s) = cl_effects s @ [x]" "cl_effects (sig_send m s) = cl_effects s"
  "cl_effects (wire_ctrl s) = cl_effects s" "cl_effects (snd (build_pc e s)) = cl_effects s"
  "cl_effects (transfer_event P k te s) = cl_effects s" "cl_effects (with_transfer P pe s) = cl_effects s"
  by (simp_all add: emit_def sig_send_def wire_ctrl_def build_pc_def with_transfer_def transfer_event_def Let_def
      split: option.split)

lemma effects_built: "build_pc e s = (r, s') \<Longrightarrow> cl_effects s' = cl_effects s"
  using effects_frame(4) [of e s] by simp

lemma effects_teardown: "prefix (cl_effects s) (cl_effects (teardown_pc s))"
  by (simp add: teardown_pc_def emit_def Let_def split: option.split)

lemma effects_execute: "prefix (cl_effects s) (cl_effects (execute P pc_err a s))"
  by (cases a) (auto simp: Let_def effects_teardown dest: effects_built split: option.split prod.split)

lemma effects_react: "prefix (cl_effects s) (cl_effects (react P pc_err ev s))"
  using fold_grows [of cl_effects "execute P pc_err", OF effects_execute, of "s\<lparr>cl_session := sess\<rparr>" for sess]
  by (simp add: react_def case_prod_unfold Let_def)

lemma effects_callback: "prefix (cl_effects s) (cl_effects (on_callback P pc_err c s))"
proof (cases c)
  case (On_Msg m)
  have "cl_effects (snd (to_event m s)) = cl_effects s" by (cases m) simp_all
  then show ?thesis
    using effects_react [of "snd (to_event m s)"]
    by (cases "to_event m s") (auto simp: On_Msg on_message_def split: option.split)
next
  case On_Disconnect
  show ?thesis
    using effects_teardown [of "s\<lparr>cl_status := StReconnecting, cl_items := mark_all_active_cancelled (cl_items s)\<rparr>"]
    by (simp add: On_Disconnect on_disconnect_def Let_def)
qed (simp add: effects_react)

lemma effects_offer_now [simp]: "cl_effects (offer_now P files s) = cl_effects s"
  by (simp add: offer_now_def Let_def)

lemma effects_ctrl_opens [simp]: "cl_effects (ctrl_opens P k s) = cl_effects s"
  by (simp add: ctrl_opens_def Let_def)

lemma effects_add_rows: "add_rows fs s = (batch, s') \<Longrightarrow> cl_effects s' = cl_effects s"
  by (induction fs s arbitrary: batch s' rule: add_rows.induct) (fastforce simp: Let_def split: prod.splits)+

lemma effects_on_files [simp]: "cl_effects (on_files P files s) = cl_effects s"
  by (auto simp: on_files_def Let_def dest: effects_add_rows split: prod.split)

lemma effects_step: "prefix (cl_effects s) (cl_effects (client_step P s e))"
proof (cases e)
  case (Sig_Event pc_err x)
  show ?thesis
  proof (cases "cl_sig s")
    case (Some g)
    then show ?thesis
      using fold_grows [of cl_effects "on_callback P pc_err", OF effects_callback, of "s\<lparr>cl_sig := g'\<rparr>" for g']
      by (simp add: Sig_Event sig_event_def Let_def)
  qed (simp add: Sig_Event sig_event_def)
next
  case Click_Accept_All
  have "prefix (cl_effects s) (cl_effects (fold (\<lambda>i. with_transfer P (User_Accept i)) xs s))" for xs
    by (rule fold_grows) simp
  then show ?thesis by (simp add: Click_Accept_All on_accept_all_def Let_def)
qed (simp_all add: mount_def on_accept_def on_decline_def on_cancel_def on_cancel_send_def on_join_def Let_def
      split: option.split)

section \<open>Every description comes from one block\<close>

text \<open>What the blocks amount to for the page: descriptions that were made.\<close>

fun description :: "signal_msg \<Rightarrow> 't client_event list" where
  "description (Sdp sdp kind) = [if kind = lit ''offer'' then Offer_Made sdp else Answer_Made sdp]"
| "description _ = []"

fun page_events :: "('t, 'c) negotiator \<Rightarrow> 't negotiation_event \<Rightarrow> 't client_event list" where
  "page_events n (In_Page e) = [e]"
| "page_events n (Settles k r) =
     (case outcome (resume r (ng_blocks n ! k)) of Some m \<Rightarrow> description m | None \<Rightarrow> [])"

definition page_trace ::
  "'t platform \<Rightarrow> ('i, 'c) ice_api \<Rightarrow> rstr \<Rightarrow> rstr option \<Rightarrow> 't negotiation_event list \<Rightarrow> 't client_event list" where
  "page_trace P api hash session_owns es =
     trace_of page_events (negotiation_step P api) (negotiator_new hash session_owns) es"

fun descriptions_made :: "'t client_event \<Rightarrow> signal_msg list" where
  "descriptions_made (Offer_Made sdp) = [Sdp sdp (lit ''offer'')]"
| "descriptions_made (Answer_Made sdp) = [Sdp sdp (lit ''answer'')]"
| "descriptions_made _ = []"

text \<open>How a block comes to hand out a description.\<close>

definition negotiated :: "effect \<Rightarrow> ('c rtc_call \<times> settled) list \<Rightarrow> signal_msg \<Rightarrow> bool" where
  "negotiated x tr m \<longleftrightarrow>
     (case x of
        Create_Offer p \<Rightarrow>
          (\<exists>sdp r r'. m = Sdp sdp (lit ''offer'') \<and> made_sdp r = Some sdp \<and> fulfilled r' \<and>
             tr = [(Create_Offer_Call, r), (Set_Local_Description SdpOffer sdp, r')])
      | Create_Answer p off \<Rightarrow>
          (\<exists>sdp r0 r r'. m = Sdp sdp (lit ''answer'') \<and> fulfilled r0 \<and> made_sdp r = Some sdp \<and> fulfilled r' \<and>
             tr = [(Set_Remote_Description SdpOffer off, r0), (Create_Answer_Call, r),
                   (Set_Local_Description SdpAnswer sdp, r')])
      | _ \<Rightarrow> False)"

lemma accept_outcome: "after_answers (accept_block sdp) tr = Some (Ready m) \<Longrightarrow> m = None"
  by (cases tr; cases "tl tr") (auto simp: async_defs split: if_splits sum.splits)

lemma candidate_outcome: "after_answers (candidate_block jp nc c) tr = Some (Ready m) \<Longrightarrow> m = None"
  by (cases tr; cases "tl tr") (auto simp: async_defs split: if_splits sum.splits)

lemma outcome_negotiated:
  assumes "block_ok api b" and "outcome b = Some m"
  shows "negotiated (bl_effect b) (bl_trace b) m"
proof -
  obtain x where x: "block_of api (bl_effect b) = Some x" "after_answers x (bl_trace b) = Some (bl_rest b)"
    using assms(1) by (auto simp: block_ok_def)
  have "bl_rest b = Ready (Some m)" using assms(2) by (simp add: outcome_def split: async.splits)
  with x show ?thesis
    by (cases "bl_effect b")
       (auto simp: negotiated_def dest: offer_outcome answer_outcome accept_outcome candidate_outcome)
qed

lemma negotiated_description:
  "negotiated x tr m \<Longrightarrow> concat (map descriptions_made (description m :: 't client_event list)) = [m] \<and>
     run (client_step P) (s :: 't client) (description m) = sig_send m s"
  by (cases x) (auto simp: negotiated_def)

definition negotiation_inv ::
  "'t platform \<Rightarrow> ('i, 'c) ice_api \<Rightarrow> ('t, 'c) negotiator \<Rightarrow> bool" where
  "negotiation_inv P api n \<longleftrightarrow>
     (\<forall>b \<in> set (ng_blocks n). block_ok api b) \<and>
     map bl_effect (ng_blocks n) = filter spawns (cl_effects (ng_page n))"

lemma waits_outcome: "waits b \<Longrightarrow> outcome b = None"
  by (simp add: waits_def outcome_def split: async.splits)

lemma effects_sent: "cl_effects (sig_send m s) = cl_effects s"
  by (rule effects_frame(2))

lemma negotiation_inv_step:
  assumes "negotiation_inv P api n" and "negotiation_ok n e"
  shows "negotiation_inv P api (negotiation_step P api n e)"
proof (cases e)
  case (In_Page x)
  obtain xs where "cl_effects (client_step P (ng_page n) x) = cl_effects (ng_page n) @ xs"
    using effects_step [of "ng_page n" P x] by (auto simp: prefix_def)
  with assms(1) show ?thesis
    by (auto simp: In_Page negotiation_inv_def Let_def spawned_effects dest: spawned_ok)
next
  case (Settles k r)
  with assms have k: "k < length (ng_blocks n)" "block_ok api (ng_blocks n ! k)"
    by (auto simp: negotiation_inv_def)
  have "\<forall>b \<in> set ((ng_blocks n)[k := resume r (ng_blocks n ! k)]). block_ok api b"
    using assms(1) resume_ok [OF k(2)] set_update_subset_insert [of "ng_blocks n" k "resume r (ng_blocks n ! k)"]
    by (auto simp: negotiation_inv_def)
  moreover have "map bl_effect ((ng_blocks n)[k := resume r (ng_blocks n ! k)]) = map bl_effect (ng_blocks n)"
    using k(1) by (simp add: map_update list_update_same_conv)
  ultimately show ?thesis
    using assms(1) by (simp add: Settles negotiation_inv_def Let_def split: option.split)
qed

interpretation negotiation: invariant_machine "negotiation_step P api" negotiation_ok "negotiation_inv P api"
  by unfold_locales (rule negotiation_inv_step)

lemma negotiation_inv_new: "negotiation_inv P api (negotiator_new hash session_owns)"
  by (simp add: negotiation_inv_def negotiator_new_def client_new_def)

definition handed_over :: "'c block list \<Rightarrow> signal_msg list" where
  "handed_over bs = concat (map (\<lambda>b. case outcome b of None \<Rightarrow> [] | Some m \<Rightarrow> [m]) bs)"

lemma handed_over_simps [simp]:
  "handed_over [] = []" "handed_over (bs @ cs) = handed_over bs @ handed_over cs"
  "handed_over (b # bs) = (case outcome b of None \<Rightarrow> [] | Some m \<Rightarrow> [m]) @ handed_over bs"
  by (simp_all add: handed_over_def)

lemma handed_over_update:
  assumes "k < length bs" and "outcome (bs ! k) = None"
  shows "mset (handed_over (bs[k := b])) =
    mset (handed_over bs) + mset (case outcome b of None \<Rightarrow> [] | Some m \<Rightarrow> [m])"
proof -
  have "mset (handed_over bs) = mset (handed_over (take k bs @ bs ! k # drop (Suc k) bs))"
    by (simp only: id_take_nth_drop [OF assms(1), symmetric])
  then show ?thesis
    using assms by (simp only: upd_conv_take_nth_drop [OF assms(1)]) (simp add: ac_simps split: option.split)
qed

lemma handed_over_spawned: "handed_over (spawn_blocks api xs) = []"
proof -
  have "outcome b = None" if "b \<in> set (spawn_blocks api xs)" for b
  proof (rule ccontr)
    assume "outcome b \<noteq> None"
    then obtain m where "outcome b = Some m" by blast
    from outcome_negotiated [OF spawned_ok [OF that] this] have "negotiated (bl_effect b) (bl_trace b) m" .
    moreover have "bl_trace b = []" using that by (auto simp: spawn_blocks_def spawn_block_def split: option.splits)
    ultimately show False by (simp add: negotiated_def split: effect.splits)
  qed
  then show ?thesis by (auto simp: handed_over_def)
qed

lemma page_makes_no_description:
  "negotiation_ok n (In_Page e) \<Longrightarrow> descriptions_made e = []"
  by (cases e) simp_all

lemma descriptions_step:
  fixes n :: "('t, 'c) negotiator"
  assumes inv: "negotiation_inv P api n" and ok: "negotiation_ok n e"
  shows "ng_page (negotiation_step P api n e) = run (client_step P) (ng_page n) (page_events n e) \<and>
    mset (handed_over (ng_blocks (negotiation_step P api n e))) =
      mset (handed_over (ng_blocks n)) + mset (concat (map descriptions_made (page_events n e)))"
proof (cases e)
  case (In_Page x)
  then show ?thesis using page_makes_no_description ok by (auto simp: Let_def handed_over_spawned)
next
  case (Settles k r)
  let ?b = "resume r (ng_blocks n ! k)"
  have k: "k < length (ng_blocks n)" "outcome (ng_blocks n ! k) = None" "block_ok api ?b"
    using ok inv by (auto simp: Settles negotiation_inv_def waits_outcome intro: resume_ok)
  show ?thesis
  proof (cases "outcome ?b")
    case None
    then show ?thesis using handed_over_update [OF k(1,2), of ?b] by (simp add: Settles Let_def)
  next
    case (Some m)
    from negotiated_description [OF outcome_negotiated [OF k(3) Some], where P = P and s = "ng_page n"]
    show ?thesis using handed_over_update [OF k(1,2), of ?b] Some by (simp add: Settles Let_def)
  qed
qed

lemma descriptions_run:
  assumes "negotiation_history P api hash session_owns es"
  shows "negotiation_inv P api (negotiation_after P api hash session_owns es) \<and>
    ng_page (negotiation_after P api hash session_owns es) =
      run (client_step P) (client_new hash session_owns) (page_trace P api hash session_owns es) \<and>
    mset (handed_over (ng_blocks (negotiation_after P api hash session_owns es))) =
      mset (concat (map descriptions_made (page_trace P api hash session_owns es)))"
  using assms
proof (induction es rule: rev_induct)
  case Nil
  then show ?case
    by (simp add: negotiation_after_def page_trace_def negotiation_inv_new) (simp add: negotiator_new_def)
next
  case (snoc e es)
  let ?n = "negotiation_after P api hash session_owns es"
  have hist: "negotiation_history P api hash session_owns es" and ok: "negotiation_ok ?n e"
    using snoc.prems by (simp_all add: negotiation_history_def run_ok_append negotiation_after_def)
  have step: "negotiation_after P api hash session_owns (es @ [e]) = negotiation_step P api ?n e"
    by (simp add: negotiation_after_def)
  have tr: "page_trace P api hash session_owns (es @ [e]) = page_trace P api hash session_owns es @ page_events ?n e"
    by (simp add: page_trace_def trace_of_append negotiation_after_def)
  from snoc.IH [OF hist] descriptions_step [of P api ?n e] negotiation_inv_step [of P api ?n e] ok
  show ?case by (simp add: step tr ac_simps)
qed

text \<open>(C11) Every SDP description a page sends was negotiated, once. Whatever the browser answers, in which
  order and how late, the page is driven by its blocks exactly as the model of the page assumes: one
  block for each negotiation that it asked for; a block sends at most one description, and only after the
  browser has made this description and set it as the local one, for an answer also after it has
  applied the offer that the answer replies to. Nothing else is ever sent as a description.\<close>

theorem each_description_is_negotiated_once:
  assumes "negotiation_history P api hash session_owns es"
  defines "n \<equiv> negotiation_after P api hash session_owns es"
    and "tr \<equiv> page_trace P api hash session_owns es"
  shows "ng_page n = run (client_step P) (client_new hash session_owns) tr \<and>
    mset (concat (map descriptions_made tr)) = mset (handed_over (ng_blocks n)) \<and>
    map bl_effect (ng_blocks n) = filter spawns (cl_effects (ng_page n)) \<and>
    (\<forall>b \<in> set (ng_blocks n). case outcome b of None \<Rightarrow> True | Some m \<Rightarrow> negotiated (bl_effect b) (bl_trace b) m)"
  using descriptions_run [OF assms(1)] outcome_negotiated
  by (force simp: n_def tr_def negotiation_inv_def split: option.split)

text \<open>A page that is told of a peer and makes it an offer.\<close>

definition joined_platform :: "unit platform" where
  "joined_platform =
     \<lparr>p_enc = (\<lambda>_. ()), p_dec = (\<lambda>_. None), p_parse = (\<lambda>_. Some PeerJoined), p_origin = [], p_qr = (\<lambda>_. None)\<rparr>"

definition no_ice :: "(unit, unit) ice_api" where
  "no_ice = \<lparr>json_parse = (\<lambda>_. Inl []), new_candidate = Inr\<rparr>"

definition demo_negotiation :: "unit negotiation_event list" where
  "demo_negotiation =
     [In_Page (Mount None), In_Page (Sig_Event None (Sock_Opens 0)), In_Page (Sig_Event None (Sock_Text 0 [])),
      Settles 0 (Inr (Inr (Some (lit ''v=0'')))), Settles 0 (Inr (Inr None))]"

lemmas negotiation_simps =
  negotiator_new_def client_new_def room_from_hash_def trim_start_def strip_prefix_def mount_def signaling_connect_def
  sig_event_def set_state_def ws_onopen_def ws_onmessage_def react_def on_message_def sig_send_def signaling_send_def
  build_pc_def wire_ctrl_def emit_def spawn_blocks_def spawn_block_def resume_def waits_def outcome_def async_defs
  joined_platform_def Let_def

theorem each_description_is_negotiated_once_witness:
  "concat (map descriptions_made (page_trace joined_platform no_ice [] None demo_negotiation)) =
     [Sdp (lit ''v=0'') (lit ''offer'')]"
proof -
  have hist: "negotiation_history joined_platform no_ice [] None demo_negotiation"
    by (simp add: negotiation_history_def demo_negotiation_def negotiation_simps)
  have "handed_over (ng_blocks (negotiation_after joined_platform no_ice [] None demo_negotiation)) =
    [Sdp (lit ''v=0'') (lit ''offer'')]"
    by (simp add: negotiation_after_def demo_negotiation_def negotiation_simps)
  with each_description_is_negotiated_once [OF hist] show ?thesis by simp
qed

end
