(* ===== verification/Page_Exchange.thy ===== *)
theory Page_Exchange
  imports Client_Properties File_Exchange
begin

text \<open>
  Two pages joined by a peer connection. A page feeds its transfer with what the user, the other
  side and the executor do; the transfers of the two pages are the ends of a link of
  \<open>File_Exchange\<close>. What is known of the files on a link then holds for two users who click in two
  browsers, whatever the signaling does to the pages meanwhile.
\<close>

section \<open>Two pages\<close>

text \<open>
  The connection joins the transfer \<open>k b\<close> of each page \<open>b\<close>. \<open>heard w b\<close> counts the control frames
  that have reached that page on it, \<open>brought w b j\<close> the packets of the \<open>j\<close>-th file channel that the
  other page opened on it.
\<close>

record 't duo =
  pages :: "bool \<Rightarrow> 't client"
  heard :: "bool \<Rightarrow> nat"
  brought :: "bool \<Rightarrow> nat \<Rightarrow> nat"

definition duo_new :: "(bool \<Rightarrow> rstr) \<Rightarrow> (bool \<Rightarrow> rstr option) \<Rightarrow> 't duo" where
  "duo_new hash owned =
     \<lparr>pages = (\<lambda>b. client_new (hash b) (owned b)), heard = (\<lambda>_. 0), brought = (\<lambda>_ _. 0)\<rparr>"

text \<open>A page does something, or the next frame or packet of the connection arrives there.\<close>

datatype 't duo_event =
    Does bool "'t client_event"
  | Frame_In bool
  | Packet_In bool nat f64 download

definition transfer_at :: "nat \<Rightarrow> 't client \<Rightarrow> 't receiver" where
  "transfer_at k s = (if k < length (cl_transfers s) then cl_transfers s ! k else receiver_new)"

text \<open>The event of a page that an event of the pair is.\<close>

fun client_event_of :: "(bool \<Rightarrow> nat) \<Rightarrow> 't duo \<Rightarrow> 't duo_event \<Rightarrow> (bool \<times> 't client_event) option" where
  "client_event_of k w (Does b e) = Some (b, e)"
| "client_event_of k w (Frame_In b) =
     (let frames = ctrl_sent (page (transfer_at (k (\<not> b)) (pages w (\<not> b)))) in
      if k b < length (cl_transfers (pages w b)) \<and> heard w b < length frames
      then Some (b, Transfer_Event (k b) (Page (Ctrl_Msg (Text (frames ! heard w b))))) else None)"
| "client_event_of k w (Packet_In b j now dl) =
     (let ts = sending (page (transfer_at (k (\<not> b)) (pages w (\<not> b)))) in
      if k b < length (cl_transfers (pages w b)) \<and> j < length ts \<and> brought w b j < length (tk_wire (ts ! j))
      then Some (b, Transfer_Event (k b) (Page (Channel_Msg j now dl (tk_wire (ts ! j) ! brought w b j)))) else None)"

fun count_arrival :: "'t duo_event \<Rightarrow> 't duo \<Rightarrow> 't duo" where
  "count_arrival (Does b e) w = w"
| "count_arrival (Frame_In b) w = w\<lparr>heard := (heard w)(b := heard w b + 1)\<rparr>"
| "count_arrival (Packet_In b j now dl) w =
     w\<lparr>brought := (brought w)(b := (brought w b)(j := brought w b j + 1))\<rparr>"

definition duo_step :: "'t platform \<Rightarrow> (bool \<Rightarrow> nat) \<Rightarrow> 't duo \<Rightarrow> 't duo_event \<Rightarrow> 't duo" where
  "duo_step P k w e =
     (case client_event_of k w e of
        None \<Rightarrow> w
      | Some (b, x) \<Rightarrow> count_arrival e (w\<lparr>pages := (pages w)(b := client_step P (pages w b) x)\<rparr>))"

text \<open>On the connection only what the other page has sent arrives; all else is as for one page.\<close>

fun not_from_peer :: "nat \<Rightarrow> 't client_event \<Rightarrow> bool" where
  "not_from_peer k (Transfer_Event j x) \<longleftrightarrow> j = k \<longrightarrow> local_event x"
| "not_from_peer k _ \<longleftrightarrow> True"

fun duo_ok :: "(bool \<Rightarrow> nat) \<Rightarrow> 't duo \<Rightarrow> 't duo_event \<Rightarrow> bool" where
  "duo_ok k w (Does b e) \<longleftrightarrow> client_ok (pages w b) e \<and> not_from_peer (k b) e"
| "duo_ok k w _ \<longleftrightarrow> True"

fun doing :: "bool \<Rightarrow> 't duo_event \<Rightarrow> 't client_event list" where
  "doing b (Does c e) = (if c = b then [e] else [])"
| "doing b _ = []"

text \<open>The files that the user of the page \<open>b\<close> adds.\<close>

definition files_at :: "bool \<Rightarrow> 't duo_event list \<Rightarrow> js_file list" where
  "files_at b es = files_added (concat (map (doing b) es))"

definition duo_history ::
  "'t platform \<Rightarrow> (bool \<Rightarrow> nat) \<Rightarrow> (bool \<Rightarrow> rstr) \<Rightarrow> (bool \<Rightarrow> rstr option) \<Rightarrow> 't duo_event list \<Rightarrow> bool" where
  "duo_history P k hash owned es \<longleftrightarrow>
     run_ok (duo_ok k) (duo_step P k) (duo_new hash owned) es \<and> (\<forall>b. files_fine (files_at b es))"

definition duo_after ::
  "'t platform \<Rightarrow> (bool \<Rightarrow> nat) \<Rightarrow> (bool \<Rightarrow> rstr) \<Rightarrow> (bool \<Rightarrow> rstr option) \<Rightarrow> 't duo_event list \<Rightarrow> 't duo" where
  "duo_after P k hash owned es = run (duo_step P k) (duo_new hash owned) es"

section \<open>Each page keeps its invariant\<close>

lemma count_arrival_pages [simp]: "pages (count_arrival e w) = pages w"
  by (cases e) simp_all

definition handled :: "(bool \<Rightarrow> nat) \<Rightarrow> bool \<Rightarrow> 't duo \<Rightarrow> 't duo_event \<Rightarrow> 't client_event list" where
  "handled k b w e = (case client_event_of k w e of Some (c, x) \<Rightarrow> if c = b then [x] else [] | None \<Rightarrow> [])"

interpretation duo_page: machine_component "duo_step P k" "\<lambda>w. pages w b" "client_step P" "handled k b"
  by unfold_locales (auto simp: duo_step_def handled_def split: option.split)

lemma handled_ok: "duo_ok k w e \<Longrightarrow> run_ok client_ok (client_step P) (pages w b) (handled k b w e)"
  by (cases e) (auto simp: handled_def Let_def)

lemma handled_files: "files_added (handled k b w e) = files_added (doing b e)"
  by (cases e) (auto simp: handled_def files_added_def Let_def)

lemma files_added_append: "files_added (es @ es') = files_added es @ files_added es'"
  by (simp add: files_added_def)

lemma files_at_simps [simp]:
  "files_at b [] = []" "files_at b (es @ [e]) = files_at b es @ files_added (doing b e)"
  by (simp_all add: files_at_def files_added_def)

lemma duo_pages_inv:
  assumes "run_ok (duo_ok k) (duo_step P k) (duo_new hash owned) es" and "files_fine (files_at b es)"
  shows "client_inv P (files_at b es) (pages (duo_after P k hash owned es) b)"
  using assms
proof (induction es rule: rev_induct)
  case Nil
  show ?case by (simp add: duo_after_def duo_new_def client_inv_new)
next
  case (snoc e es)
  let ?w = "duo_after P k hash owned es" and ?fs = "files_at b es"
  have ok: "duo_ok k ?w e" using snoc.prems(1) by (simp add: run_ok_append duo_after_def)
  have fine: "files_fine (?fs @ files_added (handled k b ?w e))" using snoc.prems(2) by (simp add: handled_files)
  then have "files_fine ?fs" by (auto simp: files_fine_def)
  with snoc have "client_inv P ?fs (pages ?w b)" by (simp add: run_ok_append)
  from client_inv_run [OF this handled_ok [OF ok] fine]
  show ?case
    by (simp add: duo_after_def handled_files duo_page.step_proj)
qed

section \<open>What a page does with its transfers\<close>

text \<open>The files that the user accepts: one, or all that wait in the list.\<close>

fun clicked :: "'t client \<Rightarrow> 't client_event \<Rightarrow> u64 list" where
  "clicked s (Click_Accept i) = [i]"
| "clicked s Click_Accept_All = pending_incoming_ids (cl_items s)"
| "clicked s _ = []"

fun caused_by :: "'t client \<Rightarrow> 't client_event \<Rightarrow> nat \<times> 't engine_event \<Rightarrow> bool" where
  "caused_by s e (j, Page (User_Accept i)) \<longleftrightarrow> i \<in> set (clicked s e)"
| "caused_by s e (j, Page (User_Cancel i)) \<longleftrightarrow> e = Click_Cancel i"
| "caused_by s e (j, Page (User_Abort i)) \<longleftrightarrow> e = Click_Cancel_Send i"
| "caused_by s e (j, x) \<longleftrightarrow> local_event x \<or> e = Transfer_Event j x"

text \<open>The log grows by entries that satisfy \<open>Q\<close>.\<close>

definition logs :: "(nat \<times> 't engine_event \<Rightarrow> bool) \<Rightarrow> 't client \<Rightarrow> 't client \<Rightarrow> bool" where
  "logs Q s s' \<longleftrightarrow> (\<exists>new. cl_log s' = cl_log s @ new \<and> (\<forall>x \<in> set new. Q x))"

lemma logs_same: "cl_log s' = cl_log s \<Longrightarrow> logs Q s s'"
  by (simp add: logs_def)

lemma logs_trans: "logs Q s s' \<Longrightarrow> logs Q s' s'' \<Longrightarrow> logs Q s s''"
  by (auto simp: logs_def)

lemma logs_transfer_event: "Q (k, e) \<Longrightarrow> logs Q s (transfer_event P k e s)"
  by (simp add: logs_def)

lemma logs_with_transfer: "(\<And>k. Q (k, Page e)) \<Longrightarrow> logs Q s (with_transfer P e s)"
  by (simp add: with_transfer_def logs_transfer_event logs_same split: option.split)

lemma logs_fold_transfer:
  "(\<And>k i. i \<in> set ids \<Longrightarrow> Q (k, Page (User_Accept i))) \<Longrightarrow>
     logs Q s (fold (\<lambda>i. with_transfer P (User_Accept i)) ids s)"
proof (induction ids arbitrary: s)
  case (Cons i ids)
  have "logs Q s (with_transfer P (User_Accept i) s)" using Cons.prems by (intro logs_with_transfer) simp
  moreover have "logs Q (with_transfer P (User_Accept i) s)
      (fold (\<lambda>i. with_transfer P (User_Accept i)) ids (with_transfer P (User_Accept i) s))"
    using Cons by simp
  ultimately show ?case using logs_trans by fastforce
qed (simp add: logs_same)

lemma log_frame [simp]:
  "cl_log (sig_send m s) = cl_log s" "cl_log (wire_ctrl s) = cl_log s" "cl_log (emit x s) = cl_log s"
  "cl_log (mount err s) = cl_log s" "cl_log (on_join raw s) = cl_log s" "cl_log (teardown_pc s) = cl_log s"
  "cl_log (snd (build_pc pc_err s)) = cl_log s" "cl_log (snd (add_rows files s)) = cl_log s"
  by (auto simp: sig_send_def wire_ctrl_def emit_def mount_def on_join_def teardown_pc_def build_pc_def Let_def
      split: option.split)

lemma log_execute [simp]: "cl_log (execute P pc_err a s) = cl_log s"
  by (cases a) (auto simp: build_pc_def Let_def split: option.split prod.splits)

lemma log_fold_execute [simp]: "cl_log (fold (execute P pc_err) as s) = cl_log s"
  by (induction "as" arbitrary: s) simp_all

lemma log_to_event [simp]: "cl_log (snd (to_event m s)) = cl_log s"
  by (cases m) simp_all

lemma log_callback [simp]: "cl_log (on_callback P pc_err c s) = cl_log s"
proof (cases c)
  case (On_Msg m)
  then show ?thesis
    using log_to_event [of m s]
    by (cases "to_event m s") (auto simp: on_message_def react_def Let_def case_prod_unfold split: option.split)
qed (auto simp: react_def on_disconnect_def Let_def case_prod_unfold)

lemma log_fold_callback [simp]: "cl_log (fold (on_callback P pc_err) cs s) = cl_log s"
  by (induction cs arbitrary: s) (simp_all del: on_callback.simps)

lemma log_sig_event [simp]: "cl_log (sig_event P pc_err e s) = cl_log s"
  by (simp add: sig_event_def Let_def split: option.split)

lemma logs_offer_now: "(\<And>k. Q (k, Page (User_Offers files))) \<Longrightarrow> logs Q s (offer_now P files s)"
  using logs_with_transfer [of Q "User_Offers files" s P] by (simp add: offer_now_def Let_def logs_def)

lemma logs_on_files: "(\<And>k fs. Q (k, Page (User_Offers fs))) \<Longrightarrow> logs Q s (on_files P files s)"
  using logs_offer_now [of Q "fst (add_rows files s)" "snd (add_rows files s)" P]
  by (auto simp: on_files_def Let_def case_prod_unfold logs_def)

lemma logs_ctrl_opens:
  assumes "\<And>k fs. Q (k, Page (User_Offers fs))" and "\<And>k. Q (k, Page (Ctrl_State True))"
  shows "logs Q s (ctrl_opens P k s)"
proof -
  have "logs Q (transfer_event P k (Page (Ctrl_State True)) s) (ctrl_opens P k s)"
    using assms(1) logs_offer_now [of Q "cl_pending s"
        "(transfer_event P k (Page (Ctrl_State True)) s)\<lparr>cl_status := StConnected, cl_pending := []\<rparr>" P]
    by (auto simp: ctrl_opens_def Let_def logs_def)
  then show ?thesis using logs_trans [OF logs_transfer_event [of Q]] assms(2) by blast
qed

lemma logs_step:
  assumes "client_ok s e"
  shows "logs (caused_by s e) s (client_step P s e)"
proof (cases e)
  case (Transfer_Event k x)
  with assms have "caused_by s e (k, x)" by (cases "(s, e, (k, x))" rule: caused_by.cases) auto
  then show ?thesis by (simp add: Transfer_Event logs_transfer_event)
next
  case Click_Accept_All
  then show ?thesis
    using logs_fold_transfer [of "pending_incoming_ids (cl_items s)" "caused_by s e" s P]
    by (simp add: on_accept_all_def logs_def Let_def)
next
  case (Click_Accept i)
  then show ?thesis using logs_with_transfer [of "caused_by s e" "User_Accept i" s P]
    by (simp add: on_accept_def logs_def Let_def)
next
  case (Click_Decline i)
  then show ?thesis using logs_with_transfer [of "caused_by s e" "User_Reject i" s P]
    by (simp add: on_decline_def logs_def Let_def)
next
  case (Click_Cancel i)
  then show ?thesis using logs_with_transfer [of "caused_by s e" "User_Cancel i" s P]
    by (simp add: on_cancel_def logs_def Let_def)
next
  case (Click_Cancel_Send i)
  then show ?thesis using logs_with_transfer [of "caused_by s e" "User_Abort i" s P]
    by (simp add: on_cancel_send_def logs_def Let_def)
qed (simp_all add: logs_same logs_on_files logs_ctrl_opens)

section \<open>The connection is a link of transfers\<close>

text \<open>The ids of the files that the user of the page \<open>b\<close> has accepted.\<close>

fun clicks_at :: "bool \<Rightarrow> 't duo \<Rightarrow> 't duo_event \<Rightarrow> u64 list" where
  "clicks_at b w (Does c e) = (if c = b then clicked (pages w c) e else [])"
| "clicks_at b w _ = []"

definition accepted_at ::
  "'t platform \<Rightarrow> (bool \<Rightarrow> nat) \<Rightarrow> (bool \<Rightarrow> rstr) \<Rightarrow> (bool \<Rightarrow> rstr option) \<Rightarrow> bool \<Rightarrow> 't duo_event list \<Rightarrow> u64 list" where
  "accepted_at P k hash owned b es = trace_of (clicks_at b) (duo_step P k) (duo_new hash owned) es"

text \<open>Local events of one end, one after the other.\<close>

lemma events_at_At: "events_at c w (At b e) = (if b = c then [e] else [])"
  by (simp add: events_at_def)

lemma link_run_local:
  fixes enc :: "control \<Rightarrow> 't"
  assumes "\<forall>x \<in> set xs. local_event x" and "run_ok engine_ok (engine_step enc dec) (ends w b) xs"
  shows "run_ok link_ok (link_step enc dec) w (map (At b) xs)"
    and "trace_of (events_at c) (link_step enc dec) w (map (At b) xs) = (if c = b then xs else [])"
    and "ctrl_in (run (link_step enc dec) w (map (At b) xs)) = ctrl_in w"
    and "file_in (run (link_step enc dec) w (map (At b) xs)) = file_in w"
proof -
  have "run_ok link_ok (link_step enc dec) w (map (At b) xs) \<and>
    trace_of (events_at c) (link_step enc dec) w (map (At b) xs) = (if c = b then xs else []) \<and>
    ctrl_in (run (link_step enc dec) w (map (At b) xs)) = ctrl_in w \<and>
    file_in (run (link_step enc dec) w (map (At b) xs)) = file_in w"
    using assms
  proof (induction xs arbitrary: w)
    case (Cons x xs)
    have "ends (link_step enc dec w (At b x)) b = engine_step enc dec (ends w b) x"
      "ctrl_in (link_step enc dec w (At b x)) = ctrl_in w" "file_in (link_step enc dec w (At b x)) = file_in w"
      by (simp_all add: link_step_def)
    with Cons.IH [of "link_step enc dec w (At b x)"] Cons.prems show ?case by (auto simp: events_at_At)
  qed simp
  then show "run_ok link_ok (link_step enc dec) w (map (At b) xs)"
    and "trace_of (events_at c) (link_step enc dec) w (map (At b) xs) = (if c = b then xs else [])"
    and "ctrl_in (run (link_step enc dec) w (map (At b) xs)) = ctrl_in w"
    and "file_in (run (link_step enc dec) w (map (At b) xs)) = file_in w"
    by blast+
qed

text \<open>
  The events \<open>les\<close> of a link that the pair has gone through: at each end what the log of the page
  has for its transfer, and the same arrivals.
\<close>

definition carried :: "'t platform \<Rightarrow> (bool \<Rightarrow> nat) \<Rightarrow> 't duo \<Rightarrow> 't link_event list \<Rightarrow> bool" where
  "carried P k w les \<longleftrightarrow>
     run_ok link_ok (link_step (p_enc P) (p_dec P)) link_new les \<and>
     (\<forall>b. link_trace (p_enc P) (p_dec P) b les = events_of (k b) (cl_log (pages w b))) \<and>
     ctrl_in (link_after (p_enc P) (p_dec P) les) = heard w \<and>
     file_in (link_after (p_enc P) (p_dec P) les) = brought w"

lemma events_of_append:
  "events_of k (lg @ lg') = events_of k lg @ events_of k lg'" "events_of k [(k, e)] = [e]"
  by (simp_all add: events_of_def)

lemma transfer_at_run:
  assumes "client_inv P fs s"
  shows "transfer_at k s = run (engine_step (p_enc P) (p_dec P)) receiver_new (events_of k (cl_log s))"
    and "run_ok engine_ok (engine_step (p_enc P) (p_dec P)) receiver_new (events_of k (cl_log s))"
proof -
  have inv: "engines_inv P s" using assms by (simp add: client_inv_def page_inv_def)
  have "events_of k (cl_log s) = []" if "\<not> k < length (cl_transfers s)"
    using inv that by (auto simp: engines_inv_def events_of_def filter_empty_conv)
  then show "transfer_at k s = run (engine_step (p_enc P) (p_dec P)) receiver_new (events_of k (cl_log s))"
    and "run_ok engine_ok (engine_step (p_enc P) (p_dec P)) receiver_new (events_of k (cl_log s))"
    using inv by (cases "k < length (cl_transfers s)"; simp add: transfer_at_def engines_inv_def)+
qed

lemma carried_ends:
  assumes "carried P k w les" and "client_inv P fs (pages w b)"
  shows "ends (link_after (p_enc P) (p_dec P) les) b = transfer_at (k b) (pages w b)"
  using assms(1) end_engine.run_proj [of "p_enc P" "p_dec P" link_new les b] transfer_at_run(1) [OF assms(2)]
  by (simp add: carried_def link_after_def link_trace_def link_new_def)

lemma carried_new: "carried P k (duo_new hash owned) []"
  by (simp add: carried_def duo_new_def link_trace_def link_after_def link_new_def client_new_def)

lemma link_trace_append:
  "link_trace enc dec b (es @ es') = link_trace enc dec b es @ trace_of (events_at b) (link_step enc dec) (link_after enc dec es) es'"
  by (simp add: link_trace_def link_after_def trace_of_append)

lemma link_after_append: "link_after enc dec (es @ es') = run (link_step enc dec) (link_after enc dec es) es'"
  by (simp add: link_after_def)

lemma carried_local:
  assumes "carried P k w les" and "client_inv P fs (pages w b)" and "client_inv P fs' s'"
    and new: "cl_log s' = cl_log (pages w b) @ new" and local: "\<forall>x \<in> set (events_of (k b) new). local_event x"
  shows "carried P k (w\<lparr>pages := (pages w)(b := s')\<rparr>) (les @ map (At b) (events_of (k b) new))"
proof -
  let ?lw = "link_after (p_enc P) (p_dec P) les" and ?xs = "events_of (k b) new"
  have "ends ?lw b = transfer_at (k b) (pages w b)" by (rule carried_ends [OF assms(1,2)])
  then have "run_ok engine_ok (engine_step (p_enc P) (p_dec P)) (ends ?lw b) ?xs"
    using transfer_at_run(2) [OF assms(3), of "k b"] transfer_at_run(1) [OF assms(2), of "k b"]
    by (simp add: new events_of_append run_ok_append)
  note run = link_run_local [OF local this]
  then show ?thesis
    using assms(1) by (auto simp: carried_def link_trace_append link_after_append run_ok_append new events_of_append
        simp flip: link_after_def)
qed

fun arrival_at :: "'t duo_event \<Rightarrow> 't link_event list" where
  "arrival_at (Does b e) = []"
| "arrival_at (Frame_In b) = [Ctrl_Arrives b]"
| "arrival_at (Packet_In b j now dl) = [Packet_Arrives b j now dl]"

lemma arrival_counts:
  assumes "arrival_at e = [a]" and "ctrl_in lw = heard w" and "file_in lw = brought w"
  shows "ctrl_in (count_in a (lw\<lparr>ends := x\<rparr>)) = heard (count_arrival e (w\<lparr>pages := p\<rparr>))"
    and "file_in (count_in a (lw\<lparr>ends := x\<rparr>)) = brought (count_arrival e (w\<lparr>pages := p\<rparr>))"
  using assms by (cases e; auto)+

lemma carried_arrival:
  assumes "carried P k w les" and inv: "\<And>b. client_inv P (fs b) (pages w b)"
    and ev: "client_event_of k w e = Some (b, x)" and arr: "\<And>c y. e \<noteq> Does c y"
  shows "carried P k (duo_step P k w e) (les @ arrival_at e)"
proof -
  let ?lw = "link_after (p_enc P) (p_dec P) les"
  note ends = carried_ends [OF assms(1) inv]
  have counts: "ctrl_in ?lw = heard w" "file_in ?lw = brought w" using assms(1) by (simp_all add: carried_def)
  obtain a y where a: "arrival_at e = [a]" and y: "x = Transfer_Event (k b) y" and le: "arriving ?lw a = Some (b, y)"
    using ev arr by (cases e) (auto simp: Let_def ends counts split: if_splits)
  have "link_ok ?lw a" using a by (cases e) auto
  moreover have "ctrl_in (link_step (p_enc P) (p_dec P) ?lw a) = heard (duo_step P k w e)"
    "file_in (link_step (p_enc P) (p_dec P) ?lw a) = brought (duo_step P k w e)"
    unfolding link_step_def duo_step_def le ev option.case prod.case using arrival_counts [OF a, of ?lw w] counts by simp_all
  moreover have "events_at c ?lw a = (if c = b then [y] else [])" for c using le by (simp add: events_at_def)
  moreover have "cl_log (pages (duo_step P k w e) c) = cl_log (pages w c) @ (if c = b then [(k b, y)] else [])" for c
    using ev y by (simp add: duo_step_def)
  moreover have "link_trace (p_enc P) (p_dec P) c les = events_of (k c) (cl_log (pages w c))" for c
    using assms(1) by (simp add: carried_def)
  ultimately show ?thesis
    using assms(1) unfolding a carried_def link_trace_snoc link_after_snoc run_ok_append
    by (simp add: events_of_append link_after_def [symmetric])
qed

lemma carried_step:
  assumes "carried P k w les" and inv: "\<And>b. client_inv P (fs b) (pages w b)" and ok: "duo_ok k w e"
    and inv': "\<And>b. client_inv P (fs' b) (pages (duo_step P k w e) b)"
  shows "\<exists>les'. carried P k (duo_step P k w e) (les @ les') \<and>
    (\<forall>b j now dl. Packet_Arrives b j now dl \<in> set les' \<longrightarrow> e = Packet_In b j now dl)"
proof (cases "client_event_of k w e")
  case None
  then show ?thesis using assms(1) by (intro exI [of _ "[]"]) (simp add: duo_step_def)
next
  case (Some bx)
  obtain b x where bx: "bx = (b, x)" by fastforce
  show ?thesis
  proof (cases "e = Does b x")
    case True
    let ?s = "client_step P (pages w b) x"
    from ok True have "client_ok (pages w b) x" and nfp: "not_from_peer (k b) x" by simp_all
    from logs_step [OF this(1), of P] obtain new where
      new: "cl_log ?s = cl_log (pages w b) @ new" "\<forall>y \<in> set new. caused_by (pages w b) x y"
      unfolding logs_def by blast
    have "local_event y" if "y \<in> set (events_of (k b) new)" for y
    proof -
      have "caused_by (pages w b) x (k b, y)" using that new(2) by (auto simp: events_of_def)
      then show ?thesis using nfp by (cases "(pages w b, x, (k b, y))" rule: caused_by.cases) auto
    qed
    moreover have "client_inv P (fs' b) ?s" using inv' [of b] by (simp add: duo_step_def True)
    ultimately have "carried P k (w\<lparr>pages := (pages w)(b := ?s)\<rparr>) (les @ map (At b) (events_of (k b) new))"
      using carried_local [OF assms(1) inv _ new(1)] by blast
    then show ?thesis by (intro exI conjI) (auto simp: duo_step_def True)
  next
    case False
    then have "\<And>c y. e \<noteq> Does c y" using Some bx by (cases e) auto
    note carried_arrival [OF assms(1) inv Some [unfolded bx] this]
    moreover have "\<forall>b j now dl. Packet_Arrives b j now dl \<in> set (arrival_at e) \<longrightarrow> e = Packet_In b j now dl"
      by (cases e) simp_all
    ultimately show ?thesis by blast
  qed
qed

lemma files_fine_prefix: "files_fine (fs @ gs) \<Longrightarrow> files_fine fs"
  by (simp add: files_fine_def)

lemma duo_history_snoc:
  "duo_history P k hash owned (es @ [e]) \<Longrightarrow>
     duo_history P k hash owned es \<and> duo_ok k (duo_after P k hash owned es) e"
  by (auto simp: duo_history_def run_ok_append duo_after_def intro: files_fine_prefix)

lemma duo_after_snoc: "duo_after P k hash owned (es @ [e]) = duo_step P k (duo_after P k hash owned es) e"
  by (simp add: duo_after_def)

lemma duo_inv:
  "duo_history P k hash owned es \<Longrightarrow> client_inv P (files_at b es) (pages (duo_after P k hash owned es) b)"
  by (simp add: duo_history_def duo_pages_inv)

lemma duo_carried:
  "duo_history P k hash owned es \<Longrightarrow> \<exists>les. carried P k (duo_after P k hash owned es) les \<and>
     (\<forall>b j now dl. Packet_Arrives b j now dl \<in> set les \<longrightarrow> Packet_In b j now dl \<in> set es)"
proof (induction es rule: rev_induct)
  case Nil
  show ?case using carried_new [of P k hash owned] unfolding duo_after_def run.simps by (intro exI [of _ "[]"]) simp
next
  case (snoc e es)
  from duo_history_snoc [OF snoc.prems] have h: "duo_history P k hash owned es" "duo_ok k (duo_after P k hash owned es) e"
    by blast+
  from snoc.IH [OF h(1)] obtain les where les: "carried P k (duo_after P k hash owned es) les"
    "\<forall>b j now dl. Packet_Arrives b j now dl \<in> set les \<longrightarrow> Packet_In b j now dl \<in> set es" by blast
  from carried_step [OF les(1) duo_inv [OF h(1)] h(2) duo_inv [OF snoc.prems, unfolded duo_after_snoc]] obtain les' where
    "carried P k (duo_after P k hash owned (es @ [e])) (les @ les')"
    "\<forall>b j now dl. Packet_Arrives b j now dl \<in> set les' \<longrightarrow> e = Packet_In b j now dl" unfolding duo_after_snoc by blast
  with les(2) show ?case by (intro exI [of _ "les @ les'"]) auto
qed

section \<open>Two users exchange files\<close>

lemma carried_offers:
  assumes "carried P k w les" and "client_inv P fs (pages w b)"
  shows "set (link_offers b les) \<subseteq> set (numbered fs)"
    and "distinct (map fst (link_offers b les))"
    and "\<forall>f \<in> snd ` set (link_offers b les). length (jf_bytes f) \<le> 2 ^ 53"
proof -
  let ?lg = "cl_log (pages w b)"
  have offers: "link_offers b les = all_offers (events_of (k b) ?lg)"
    using assms(1) link_trace_offers [of "p_enc P" "p_dec P" b les] by (simp add: carried_def)
  have fs: "all_offers (map snd ?lg) @ cl_pending (pages w b) = numbered fs" and fine: "files_fine fs"
    using assms(2) by (simp_all add: client_inv_def page_inv_def files_inv_def)
  have "subseq (link_offers b les) (numbered fs)"
    unfolding offers by (rule subseq_order.order_trans [OF offers_of_one]) (intro prefix_imp_subseq prefixI, rule fs [symmetric])
  then show sub: "set (link_offers b les) \<subseteq> set (numbered fs)" and "distinct (map fst (link_offers b les))"
    using distinct_ids [of fs] fine by (auto simp: files_fine_def subseq_conv_nths nths_map [symmetric] dest: in_set_nthsD intro: distinct_nthsI)
  have "snd ` set (numbered fs) = set fs" unfolding set_map [symmetric] numbered_simps ..
  with sub fine show "\<forall>f \<in> snd ` set (link_offers b les). length (jf_bytes f) \<le> 2 ^ 53"
    unfolding files_fine_def by blast
qed

lemma duo_link:
  assumes "duo_history P k hash owned es"
  obtains les where "link_history (p_enc P) (p_dec P) les"
    and "carried P k (duo_after P k hash owned es) les"
    and "\<And>b. engine_at b (link_after (p_enc P) (p_dec P) les) =
      page (transfer_at (k b) (pages (duo_after P k hash owned es) b))"
    and "\<And>b. set (link_offers b les) \<subseteq> set (numbered (files_at b es))"
    and "\<And>b j now dl. Packet_Arrives b j now dl \<in> set les \<Longrightarrow> Packet_In b j now dl \<in> set es"
proof -
  from duo_carried [OF assms] obtain les where les: "carried P k (duo_after P k hash owned es) les"
    and packets: "\<And>b j now dl. Packet_Arrives b j now dl \<in> set les \<Longrightarrow> Packet_In b j now dl \<in> set es" by blast
  note offers = carried_offers [OF les duo_inv [OF assms]]
  have "link_history (p_enc P) (p_dec P) les" using les offers(2,3) by (simp add: link_history_def carried_def)
  moreover have "engine_at b (link_after (p_enc P) (p_dec P) les) = page (transfer_at (k b) (pages (duo_after P k hash owned es) b))" for b
    by (simp only: carried_ends [OF les duo_inv [OF assms]])
  ultimately show thesis using that les offers(1) packets by blast
qed

text \<open>What the log has was caused by an event of the page.\<close>

lemma logged_was_caused:
  assumes "duo_history P k hash owned es"
    and "entry \<in> set (cl_log (pages (duo_after P k hash owned es) b))"
  obtains es1 e es2 x where "es = es1 @ e # es2" and "client_event_of k (duo_after P k hash owned es1) e = Some (b, x)"
    and "caused_by (pages (duo_after P k hash owned es1) b) x entry"
proof -
  have "\<exists>es1 e es2 x. es = es1 @ e # es2 \<and> client_event_of k (duo_after P k hash owned es1) e = Some (b, x) \<and>
    caused_by (pages (duo_after P k hash owned es1) b) x entry"
    using assms
  proof (induction es rule: rev_induct)
    case Nil
    then show ?case by (simp add: duo_after_def duo_new_def client_new_def)
  next
    case (snoc e es)
    let ?w = "duo_after P k hash owned es"
    from duo_history_snoc [OF snoc.prems(1)] have h: "duo_history P k hash owned es" "duo_ok k ?w e" by blast+
    show ?case
    proof (cases "entry \<in> set (cl_log (pages ?w b))")
      case True
      from snoc.IH [OF h(1) True] show ?thesis by (metis append_Cons append_assoc)
    next
      case False
      with snoc.prems(2) obtain x where x: "client_event_of k ?w e = Some (b, x)"
        by (auto simp: duo_after_snoc duo_step_def split: option.splits if_splits)
      then have "client_ok (pages ?w b) x" using handled_ok [OF h(2), of P b] by (simp add: handled_def)
      moreover have "entry \<in> set (cl_log (client_step P (pages ?w b) x))"
        using snoc.prems(2) x by (simp add: duo_after_snoc duo_step_def)
      ultimately have "caused_by (pages ?w b) x entry"
        using logs_step [of "pages ?w b" x P] False by (auto simp: logs_def)
      with x show ?thesis by blast
    qed
  qed
  then show thesis using that by blast
qed

text \<open>What is accepted on the transfer was accepted by a click, and likewise what is stopped.\<close>

lemma accepted_by_click:
  assumes "duo_history P k hash owned es"
    and "(j, Page (User_Accept i)) \<in> set (cl_log (pages (duo_after P k hash owned es) b))"
  shows "i \<in> set (accepted_at P k hash owned b es)"
proof -
  from logged_was_caused [OF assms] obtain es1 e es2 x where
    e: "es = es1 @ e # es2" "client_event_of k (duo_after P k hash owned es1) e = Some (b, x)"
      "i \<in> set (clicked (pages (duo_after P k hash owned es1) b) x)" by (metis caused_by.simps(1))
  then have "e = Does b x" by (cases e) (auto simp: Let_def split: if_splits)
  with e show ?thesis by (simp add: accepted_at_def trace_of_append duo_after_def)
qed

lemma stopped_by_click:
  assumes "duo_history P k hash owned es"
  shows "(j, Page (User_Cancel i)) \<in> set (cl_log (pages (duo_after P k hash owned es) b)) \<Longrightarrow>
      Does b (Click_Cancel i) \<in> set es"
    and "(j, Page (User_Abort i)) \<in> set (cl_log (pages (duo_after P k hash owned es) b)) \<Longrightarrow>
      Does b (Click_Cancel_Send i) \<in> set es"
proof -
  have does: "e = Does b x" if "client_event_of k w e = Some (b, x)" "x = Click_Cancel i \<or> x = Click_Cancel_Send i" for w e x
    using that by (cases e) (auto simp: Let_def split: if_splits)
  show "Does b (Click_Cancel i) \<in> set es"
    if "(j, Page (User_Cancel i)) \<in> set (cl_log (pages (duo_after P k hash owned es) b))"
    using logged_was_caused [OF assms that] does by (metis caused_by.simps(2) in_set_conv_decomp)
  show "Does b (Click_Cancel_Send i) \<in> set es"
    if "(j, Page (User_Abort i)) \<in> set (cl_log (pages (duo_after P k hash owned es) b))"
    using logged_was_caused [OF assms that] does by (metis caused_by.simps(3) in_set_conv_decomp)
qed

lemma link_trace_At: "At b e \<in> set les \<Longrightarrow> e \<in> set (link_trace enc dec b les)"
  by (induction les rule: rev_induct) (auto simp: link_trace_snoc events_at_At)

lemma carried_At: "carried P k w les \<Longrightarrow> At b x \<in> set les \<Longrightarrow> (k b, x) \<in> set (cl_log (pages w b))"
  using link_trace_At [of b x les "p_enc P" "p_dec P"] by (auto simp: carried_def events_of_def)

text \<open>(C2) Two users who click in two browsers: whatever both do and in whatever order it arrives,
  everything that the page of one of them saves from the connection is a complete, byte for byte
  copy of a file that the other one added to the list, under the id of its row there, and that
  this one has accepted with the button of its row or with Accept all while it was on offer.
  Nothing is saved twice.\<close>

theorem only_wanted_copies_are_saved:
  assumes "reads_back (p_enc P) (p_dec P)" and "duo_history P k hash owned es"
  shows "\<exists>got. downloads (page (transfer_at (k b) (pages (duo_after P k hash owned es) b))) =
      map (\<lambda>(i, file). saved_copy file) got \<and> distinct (map fst got) \<and>
    set got \<subseteq> set (numbered (files_at (\<not> b) es)) \<and> fst ` set got \<subseteq> set (accepted_at P k hash owned b es)"
proof -
  obtain les where
    les: "link_history (p_enc P) (p_dec P) les" "carried P k (duo_after P k hash owned es) les"
      "engine_at b (link_after (p_enc P) (p_dec P) les) =
        page (transfer_at (k b) (pages (duo_after P k hash owned es) b))"
      "set (link_offers (\<not> b) les) \<subseteq> set (numbered (files_at (\<not> b) es))" by (rule duo_link [OF assms(2)]) blast
  have link: "\<exists>got. downloads (engine_at b (link_after (p_enc P) (p_dec P) les)) = map (\<lambda>(i, file). saved_copy file) got \<and>
    distinct (map fst got) \<and> set got \<subseteq> set (link_offers (\<not> b) les) \<and>
    (\<forall>(i, file) \<in> set got. At b (Page (User_Accept i)) \<in> set les)"
    by (rule every_download_is_a_wanted_copy [OF assms(1) les(1)])
  have "i \<in> set (accepted_at P k hash owned b es)" if "At b (Page (User_Accept i)) \<in> set les" for i
    by (rule accepted_by_click [OF assms(2) carried_At [OF les(2) that]])
  moreover from link obtain got where got:
    "downloads (engine_at b (link_after (p_enc P) (p_dec P) les)) = map (\<lambda>(i, file). saved_copy file) got"
    "distinct (map fst got)" "set got \<subseteq> set (link_offers (\<not> b) les)"
    "\<forall>(i, file) \<in> set got. At b (Page (User_Accept i)) \<in> set les" by blast
  ultimately have "fst ` set got \<subseteq> set (accepted_at P k hash owned b es)" by auto
  with got(1-3) les(3,4) show ?thesis by (intro exI [of _ got]) auto
qed

text \<open>
  A page with a room gets a guest; both open their channels, an empty file is added, offered,
  accepted with a click, sent and saved.
\<close>

definition demo_duo :: "control duo_event list" where
  "demo_duo =
     [Does True (Mount None), Does True (Sig_Event None (Sock_Opens 0)),
      Does True (Sig_Event None (Sock_Text 0 (lit ''c''))), Does True (Add_Files [empty_file]),
      Does True (Sig_Event None (Sock_Text 0 (lit ''j''))), Does False Ctrl_Channel,
      Does True (Ctrl_Opens 0), Does False (Ctrl_Opens 0), Frame_In False, Does False (Click_Accept 0),
      Frame_In True, Does True (Transfer_Event 0 (Poll 0 demo_env)),
      Packet_In False 0 (f_int 0) Downloaded, Packet_In False 0 (f_int 0) Downloaded]"

abbreviation demo_duo_after :: "control duo" where
  "demo_duo_after \<equiv> duo_after demo_platform (\<lambda>_. 0) (\<lambda>_. []) (\<lambda>_. None) demo_duo"

lemmas demo_duo_simps =
  duo_new_def duo_step_def transfer_at_def client_simps demo_link_simps on_accept_def trigger_download_def
  recv_chunk_def finalize_recv_def start_incoming_def

lemma demo_duo_history: "duo_history demo_platform (\<lambda>_. 0) (\<lambda>_. []) (\<lambda>_. None) demo_duo"
  by (simp add: duo_history_def demo_duo_def demo_duo_simps files_at_def files_fine_def files_added_def empty_file_def)

lemma demo_duo_reads_back: "reads_back (p_enc demo_platform) (p_dec demo_platform)"
  by (simp add: reads_back_def demo_platform_def)

lemma demo_duo_files: "files_at True demo_duo = [empty_file]"
  by (simp add: files_at_def files_added_def demo_duo_def)

theorem only_wanted_copies_are_saved_witness:
  "\<exists>got. downloads (page (transfer_at 0 (pages demo_duo_after False))) = map (\<lambda>(i, file). saved_copy file) got \<and>
     set got \<subseteq> {(0 :: u64, empty_file)}"
proof -
  have "set (numbered (files_at (\<not> False) demo_duo)) = {(0, empty_file)}"
    by (simp add: demo_duo_files numbered_def)
  with only_wanted_copies_are_saved [OF demo_duo_reads_back demo_duo_history, of False] show ?thesis by metis
qed

text \<open>The browser of the page \<open>b\<close> saves what it is given on the channels \<open>js\<close>.\<close>

fun saves :: "bool \<Rightarrow> (nat \<Rightarrow> bool) \<Rightarrow> 't duo_event \<Rightarrow> bool" where
  "saves b js (Packet_In c j now dl) \<longleftrightarrow> c = b \<and> js j \<longrightarrow> dl = Downloaded"
| "saves b js _ \<longleftrightarrow> True"

lemma saves_packet: "list_all (saves b js) es \<Longrightarrow> Packet_In b j now dl \<in> set es \<Longrightarrow> js j \<Longrightarrow> dl = Downloaded"
  by (fastforce simp: list_all_iff)

lemma end_of_stream_saves:
  fixes P :: "'t platform" and k hash owned es j b
  defines "w \<equiv> duo_after P k hash owned es"
  defines "t \<equiv> sending (page (transfer_at (k (\<not> b)) (pages w (\<not> b)))) ! j"
  assumes serde: "reads_back (p_enc P) (p_dec P)" and hist: "duo_history P k hash owned es"
    and j: "j < length (sending (page (transfer_at (k (\<not> b)) (pages w (\<not> b)))))"
    and sent: "end_frame (p_enc P) (tk_id t) \<in> set (tk_wire t)" "brought w b j = length (tk_wire t)"
    and clicks: "Does b (Click_Cancel (tk_id t)) \<notin> set es" "Does (\<not> b) (Click_Cancel_Send (tk_id t)) \<notin> set es"
    and packets: "list_all (saves b (\<lambda>i. i = j)) es"
  shows "saved_copy (tk_file t) \<in> set (downloads (page (transfer_at (k b) (pages w b))))"
    and "On_Recv_Complete (tk_id t) (jf_name (tk_file t)) \<in> set (ui (page (transfer_at (k b) (pages w b))))"
    and "(tk_id t, tk_file t) \<in> set (numbered (files_at (\<not> b) es))"
proof -
  obtain les where
    les: "link_history (p_enc P) (p_dec P) les" "carried P k w les"
      "\<And>b. engine_at b (link_after (p_enc P) (p_dec P) les) = page (transfer_at (k b) (pages w b))"
      "\<And>b. set (link_offers b les) \<subseteq> set (numbered (files_at b es))"
      "\<And>b j now dl. Packet_Arrives b j now dl \<in> set les \<Longrightarrow> Packet_In b j now dl \<in> set es"
    unfolding w_def by (rule duo_link [OF hist]) blast
  let ?lw = "link_after (p_enc P) (p_dec P) les"
  have t: "t = sending (engine_at (\<not> b) ?lw) ! j" "j < length (sending (engine_at (\<not> b) ?lw))"
    using j by (simp_all add: t_def les(3))
  have "undisturbed b j (tk_id t) les"
    using carried_At [OF les(2)] stopped_by_click [OF hist, folded w_def] clicks saves_packet [OF packets] les(5)
    unfolding undisturbed_def by blast
  moreover have "file_in ?lw b j = length (tk_wire t)" using les(2) sent(2) by (simp add: carried_def)
  ultimately show "saved_copy (tk_file t) \<in> set (downloads (page (transfer_at (k b) (pages w b))))"
    and "On_Recv_Complete (tk_id t) (jf_name (tk_file t)) \<in> set (ui (page (transfer_at (k b) (pages w b))))"
    using delivered_file_is_saved [OF serde les(1) t(2)] sent(1) les(3) unfolding t(1) by auto
  show "(tk_id t, tk_file t) \<in> set (numbered (files_at (\<not> b) es))"
    using task_was_asked_for(2) [OF serde les(1)] nth_mem [OF t(2)] t(1) les(4) by blast
qed

text \<open>(C18) And what one of the users accepts and the other page sends to its end does arrive: once the
  page of the sender has put the \<open>End\<close> of the stream on its channel and the packets have been
  delivered, the page of the receiver has saved the file and reported it complete, whatever both
  users, the signaling and the executor did in between, provided only that the receiver did not
  click Cancel and the sender not Cancel sending on exactly this file, and that the browser could
  save what came on its channel.\<close>

theorem sent_file_reaches_the_other_user:
  fixes P :: "'t platform" and k hash owned es j b
  defines "w \<equiv> duo_after P k hash owned es"
  defines "t \<equiv> sending (page (transfer_at (k (\<not> b)) (pages w (\<not> b)))) ! j"
  assumes "reads_back (p_enc P) (p_dec P)" and "duo_history P k hash owned es"
    and "j < length (sending (page (transfer_at (k (\<not> b)) (pages w (\<not> b)))))"
    and "end_frame (p_enc P) (tk_id t) \<in> set (tk_wire t)" and "brought w b j = length (tk_wire t)"
    and "Does b (Click_Cancel (tk_id t)) \<notin> set es" and "Does (\<not> b) (Click_Cancel_Send (tk_id t)) \<notin> set es"
    and "list_all (saves b (\<lambda>i. i = j)) es"
  shows "(tk_id t, tk_file t) \<in> set (numbered (files_at (\<not> b) es)) \<and>
    saved_copy (tk_file t) \<in> set (downloads (page (transfer_at (k b) (pages w b)))) \<and>
    On_Recv_Complete (tk_id t) (jf_name (tk_file t)) \<in> set (ui (page (transfer_at (k b) (pages w b))))"
  using end_of_stream_saves [OF assms(3,4), of j b] assms(5-) unfolding t_def w_def by blast

theorem sent_file_reaches_the_other_user_witness:
  "saved_copy empty_file \<in> set (downloads (page (transfer_at 0 (pages demo_duo_after False))))"
proof -
  let ?t = "sending (page (transfer_at 0 (pages demo_duo_after (\<not> False)))) ! 0"
  have *: "0 < length (sending (page (transfer_at 0 (pages demo_duo_after (\<not> False)))))"
    "end_frame (p_enc demo_platform) (tk_id ?t) \<in> set (tk_wire ?t)" "brought demo_duo_after False 0 = length (tk_wire ?t)"
    "tk_file ?t = empty_file" "tk_id ?t = 0"
    by (simp_all add: duo_after_def demo_duo_def demo_duo_simps end_frame_def)
  have "Does False (Click_Cancel 0) \<notin> set demo_duo" "Does (\<not> False) (Click_Cancel_Send 0) \<notin> set demo_duo"
    "list_all (saves False (\<lambda>i. i = 0)) demo_duo"
    by (simp_all add: demo_duo_def)
  with sent_file_reaches_the_other_user [OF demo_duo_reads_back demo_duo_history *(1,2,3)] *(4,5) show ?thesis by simp
qed

end
