(* ===== verification/Done_Rows.thy ===== *)
theory Done_Rows
  imports Page_Exchange
begin

text \<open>
  What the list of a receiving page promises: a file that a transfer reports as complete has been
  saved, or the browser had no object URL for it; and a row of a download says Done only after such a
  report.
\<close>

section \<open>What a report of completion means\<close>

lemma downloads_stay: "set (downloads (page s)) \<subseteq> set (downloads (page (engine_step enc dec s e)))"
proof (cases "\<exists>k now dl p. e = Page (Channel_Msg k now dl p)")
  case True
  then show ?thesis
    by (auto simp: recv_router_def finalize_recv_saves split: packet.split option.split control.split)
next
  case False
  then have "downloads (page (engine_step enc dec s e)) = downloads (page s)" by (intro receives_nothing(2)) blast
  then show ?thesis by simp
qed

lemma complete_ctrl_frame:
  "On_Recv_Complete i name \<in> set (ui (ctrl_frame c s)) \<Longrightarrow> On_Recv_Complete i name \<in> set (ui s)"
  using ui_ctrl_frame [of c s i] by (auto dest: bspec)

lemma completes_only_by_packets:
  assumes "\<And>k now dl p. e \<noteq> Page (Channel_Msg k now dl p)"
    and "On_Recv_Complete i name \<in> set (ui (page (engine_step enc dec s e)))"
  shows "On_Recv_Complete i name \<in> set (ui (page s))"
proof (cases e)
  case (Page e')
  then show ?thesis
  proof (cases e')
    case (Ctrl_Msg p)
    with assms(2) Page show ?thesis
      by (auto simp: ctrl_router_def dest: complete_ctrl_frame split: packet.splits option.splits)
  next
    case (Channel_Msg k now dl p)
    with assms(1) Page show ?thesis by blast
  qed (use assms(2) Page in \<open>simp_all add: transfer_accept_def transfer_reject_def transfer_cancel_def
         transfer_abort_def Let_def split: if_splits\<close>)
next
  case (Poll k env)
  with assms(2) show ?thesis
    by (auto simp: poll_sending_def finish_sending_def call_ui_def Let_def split: option.splits if_splits)
qed

text \<open>The entry of a task's file holds what has arrived of its stream.\<close>

lemma recv_inv_own:
  assumes "recv_inv enc ts cnt rts inc dls" and "distinct (map tk_id ts)" and "k < length ts"
    and "inc (tk_id (ts ! k)) = Some x"
  shows "meta x = Some (file_meta (tk_id (ts ! k)) (tk_file (ts ! k)))"
    and "take (cnt k) (tk_wire (ts ! k)) = stream enc (tk_id (ts ! k)) (tk_file (ts ! k)) (chunks x)"
proof -
  from assms(1,4) obtain j where j: "j < length ts" "tk_id (ts ! j) = tk_id (ts ! k)"
    "meta x = Some (file_meta (tk_id (ts ! k)) (tk_file (ts ! j)))"
    "take (cnt j) (tk_wire (ts ! j)) = stream enc (tk_id (ts ! k)) (tk_file (ts ! j)) (chunks x)"
    unfolding recv_inv_def by blast
  then have "j = k" using assms(2,3) by (simp add: distinct_conv_nth) (metis nth_map)
  with j show "meta x = Some (file_meta (tk_id (ts ! k)) (tk_file (ts ! k)))"
    and "take (cnt k) (tk_wire (ts ! k)) = stream enc (tk_id (ts ! k)) (tk_file (ts ! k)) (chunks x)"
    by simp_all
qed

lemma completed_packet:
  fixes enc :: "control \<Rightarrow> 't" and dec and now and dl
  assumes serde: "reads_back enc dec"
    and ts: "distinct (map tk_id ts)" "\<And>t. t \<in> set ts \<Longrightarrow> task_inv enc t" "\<And>t. t \<in> set ts \<Longrightarrow> file_ok (tk_file t)"
    and k: "k < length ts" "cnt k < length (tk_wire (ts ! k))"
    and inv: "recv_inv enc ts cnt (routers s) (incoming_files (page s)) (downloads (page s))"
  defines "s' \<equiv> page_step enc dec s (Channel_Msg k now dl (tk_wire (ts ! k) ! cnt k))"
  assumes complete: "On_Recv_Complete i name \<in> set (ui (page s'))"
  shows "On_Recv_Complete i name \<in> set (ui (page s)) \<or>
    i = tk_id (ts ! k) \<and> name = jf_name (tk_file (ts ! k)) \<and>
      (saved_copy (tk_file (ts ! k)) \<in> set (downloads (page s')) \<or> dl = Url_Failed)"
proof -
  let ?t = "ts ! k"
  have t: "task_inv enc ?t" "file_ok (tk_file ?t)" using ts(2,3) k(1) by simp_all
  have cur: "rt_cur (routers s k) = (if cnt k = 0 then None else Some (tk_id ?t))" using inv by (simp add: recv_inv_def)
  note own = recv_inv_own [OF inv ts(1) k(1)]
  from t(1) k(2) show ?thesis
  proof (cases rule: next_packet)
    case start
    with complete show ?thesis by (simp add: s'_def recv_router_def reads_back_meta(1) [OF serde t(2)])
  next
    case (chunk c cs)
    with complete cur show ?thesis by (auto simp: s'_def recv_router_def ui_recv_chunk split: option.splits)
  next
    case (finish cs)
    show ?thesis
    proof (cases "incoming_files (page s) (tk_id ?t)")
      case None
      with complete finish(1,2) cur show ?thesis
        by (simp add: s'_def recv_router_def end_frame_def reads_back_simps [OF serde] finalize_recv_saves saved_by_def)
    next
      case (Some x)
      from own(2) [OF Some] finish(4) have "chunks x = cs" by (auto simp: stream_def inj_map_eq_map inj_def)
      with complete finish own(1) [OF Some] cur Some show ?thesis
        by (cases dl) (auto simp: s'_def recv_router_def end_frame_def reads_back_simps [OF serde] finalize_recv_saves
            saved_by_def saved_copy_def file_meta_def)
    qed
  qed
qed

text \<open>
  The file of a report: it travelled on one of the channels, and it has been saved unless the browser
  had no object URL for what came on that channel.
\<close>

definition saved_or_refused ::
  "bool \<Rightarrow> 't link_event list \<Rightarrow> 't task list \<Rightarrow> saved_file list \<Rightarrow> u64 \<Rightarrow> rstr \<Rightarrow> bool" where
  "saved_or_refused b es ts dls i name \<longleftrightarrow>
     (\<exists>k < length ts. tk_id (ts ! k) = i \<and> jf_name (tk_file (ts ! k)) = name \<and>
        (saved_copy (tk_file (ts ! k)) \<in> set dls \<or> (\<exists>now. Packet_Arrives b k now Url_Failed \<in> set es)))"

lemma saved_or_refused_mono:
  assumes "saved_or_refused b es ts dls i name" and "set es \<subseteq> set es'" and "grows ts ts'" and "set dls \<subseteq> set dls'"
  shows "saved_or_refused b es' ts' dls' i name"
proof -
  from assms(1) obtain k where k: "k < length ts" "tk_id (ts ! k) = i" "jf_name (tk_file (ts ! k)) = name"
    "saved_copy (tk_file (ts ! k)) \<in> set dls \<or> (\<exists>now. Packet_Arrives b k now Url_Failed \<in> set es)"
    unfolding saved_or_refused_def by blast
  moreover from assms(3) k(1) have "k < length ts'" "tk_id (ts' ! k) = tk_id (ts ! k)" "tk_file (ts' ! k) = tk_file (ts ! k)"
    by (auto simp: grows_def)
  ultimately show ?thesis using assms(2,4) unfolding saved_or_refused_def by (intro exI [of _ k]) auto
qed

lemma completed_is_saved:
  assumes serde: "reads_back enc dec"
  shows "link_history enc dec es \<Longrightarrow> On_Recv_Complete i name \<in> set (ui (engine_at b (link_after enc dec es))) \<Longrightarrow>
    saved_or_refused b es (sending (engine_at (\<not> b) (link_after enc dec es)))
      (downloads (engine_at b (link_after enc dec es))) i name"
proof (induction es rule: rev_induct)
  case Nil
  then show ?case by (simp add: link_after_def link_new_def receiver_new_def transfer_new_def)
next
  case (snoc e es)
  let ?w = "link_after enc dec es" and ?w' = "link_after enc dec (es @ [e])"
  let ?ts = "sending (engine_at (\<not> b) ?w)" and ?ts' = "sending (engine_at (\<not> b) ?w')"
  have old: "link_history enc dec es" "link_ok ?w e" using link_history_snoc [OF snoc.prems(1)] by simp_all
  have "set es \<subseteq> set (es @ [e])" by auto
  note IH = saved_or_refused_mono [OF snoc.IH [OF old(1)] this]
  show ?case
  proof (cases "arriving ?w e")
    case None
    then have same: "?w' = ?w" by (simp add: link_after_snoc link_step_def)
    show ?thesis unfolding same by (rule IH) (use snoc.prems(2) in \<open>auto simp: same\<close>)
  next
    case (Some ce)
    obtain c e' where ce: "ce = (c, e')" by fastforce
    have step: "ends ?w' = (ends ?w)(c := engine_step enc dec (ends ?w c) e')"
      by (simp add: link_after_snoc link_step_def Some ce)
    have ok: "engine_ok (ends ?w c) e'" using old(2) Some ce by (cases e) (auto simp: Let_def split: if_splits)
    show ?thesis
    proof (cases "c = b")
      case False
      then have c: "c = (\<not> b)" by blast
      have "grows ?ts ?ts'" using sending_grows [OF ok, of enc dec] by (simp add: step c)
      moreover have "ends ?w' b = ends ?w b" using False by (simp add: step)
      ultimately show ?thesis using IH snoc.prems(2) by simp
    next
      case True
      then have same: "?ts' = ?ts" and eb: "ends ?w' b = engine_step enc dec (ends ?w b) e'" by (simp_all add: step)
      have kept: ?thesis if "On_Recv_Complete i name \<in> set (ui (engine_at b ?w))"
        unfolding same eb by (rule IH [OF that]) (simp_all add: downloads_stay)
      show ?thesis
      proof (cases "\<exists>k now dl. e = Packet_Arrives b k now dl")
        case False
        then have "\<And>k now dl p. e' \<noteq> Page (Channel_Msg k now dl p)"
          using Some ce True old(2) by (cases e) (auto simp: Let_def split: if_splits)
        from completes_only_by_packets [OF this] snoc.prems(2) kept show ?thesis unfolding eb by blast
      next
        case packet: True
        then obtain k now dl where e: "e = Packet_Arrives b k now dl" by blast
        with Some ce True have k: "k < length ?ts" "file_in ?w b k < length (tk_wire (?ts ! k))"
          and e': "e' = Page (Channel_Msg k now dl (tk_wire (?ts ! k) ! file_in ?w b k))"
          by (auto simp: Let_def split: if_splits)
        have inv: "recv_inv enc ?ts (file_in ?w b) (routers (ends ?w b)) (incoming_files (engine_at b ?w)) (downloads (engine_at b ?w))"
          using link_inv_after [OF serde old(1)] by (simp add: link_inv_def)
        note ts = link_tasks [where b = "\<not> b", OF old(1) refl]
        have complete: "On_Recv_Complete i name \<in> set (ui (page (engine_step enc dec (ends ?w b) e')))"
          using snoc.prems(2) unfolding eb .
        from completed_packet [OF serde ts k inv complete [unfolded e' engine_step.simps]] show ?thesis
        proof
          assume new: "i = tk_id (?ts ! k) \<and> name = jf_name (tk_file (?ts ! k)) \<and>
            (saved_copy (tk_file (?ts ! k)) \<in> set (downloads (page (page_step enc dec (ends ?w b)
               (Channel_Msg k now dl (tk_wire (?ts ! k) ! file_in ?w b k))))) \<or> dl = Url_Failed)"
          have "Packet_Arrives b k now dl \<in> set (es @ [e])" by (simp add: e)
          with new k(1) show ?thesis unfolding same eb e' engine_step.simps saved_or_refused_def by blast
        qed (use kept in simp_all)
      qed
    qed
  qed
qed

text \<open>
  The exception is real: when the browser has no object URL for the bytes, nothing is saved, and the file
  is reported complete all the same.
\<close>

lemma nothing_saved_but_complete:
  assumes "incoming_files s i = Some x" and "meta x = Some m"
  shows "downloads (finalize_recv Url_Failed i s) = downloads s"
    and "ui (finalize_recv Url_Failed i s) = ui s @ [On_Recv_Complete (fs_id m) (fs_name m)]"
  using assms by (simp_all add: finalize_recv_saves saved_by_def)

section \<open>Rows of downloads that say Done\<close>

definition done_in :: "transfer list \<Rightarrow> u64 set" where
  "done_in rows = t_id ` {r \<in> set rows. t_incoming r \<and> t_state r = Done}"

lemma done_in_simps [simp]:
  "done_in [] = {}" "done_in (xs @ ys) = done_in xs \<union> done_in ys"
  "done_in (r # rows) = (if t_incoming r \<and> t_state r = Done then {t_id r} else {}) \<union> done_in rows"
  by (auto simp: done_in_def)

lemma done_in_update_first:
  assumes "\<And>r. p r \<Longrightarrow> done_in [f r] \<subseteq> done_in [r] \<union> ids"
  shows "done_in (update_first p f rows) \<subseteq> done_in rows \<union> ids"
proof (induction rows)
  case (Cons r rows)
  with assms [of r] show ?case by (auto split: if_splits)
qed simp

lemma done_in_upsert:
  assumes "\<And>r. t_id r = i \<Longrightarrow> t_incoming r = inc \<Longrightarrow> done_in [f r] \<subseteq> done_in [r] \<union> ids"
    and "t_id r = i" and "t_incoming r = inc"
  shows "done_in (upsert rows i inc r f) \<subseteq> done_in rows \<union> done_in [r] \<union> ids"
  using assms(1) [OF assms(2,3)] done_in_update_first [OF assms(1), of "\<lambda>r. t_id r = i \<and> t_incoming r = inc" rows]
  by (auto simp: upsert_def)

lemma done_in_map:
  assumes "\<And>r. done_in [f r] \<subseteq> done_in [r]"
  shows "done_in (map f rows) \<subseteq> done_in rows"
proof (induction rows)
  case (Cons r rows)
  with assms [of r] show ?case by (auto split: if_splits)
qed simp

text \<open>Only \<open>recv_complete\<close> makes a download Done.\<close>

fun completing :: "row_op \<Rightarrow> u64 set" where
  "completing (Recv_Complete i name) = {i}"
| "completing _ = {}"

lemmas done_in_ops =
  order_trans [OF done_in_update_first [where ids = "{}"]] order_trans [OF done_in_map]
  order_trans [OF done_in_upsert [where ids = "{}"]]

lemma done_in_step: "done_in (row_step rows e) \<subseteq> done_in rows \<union> completing e"
proof (cases e)
  case (Recv_Complete i name)
  let ?r = "\<lparr>t_id = i, t_name = name, t_size = f_int 0, t_kind = file_kind name [], t_incoming = True,
    t_fraction = f_int 1, t_speed = f_int 0, t_state = Done\<rparr>"
  have "done_in (recv_complete rows i name) \<subseteq> done_in rows \<union> done_in [?r] \<union> {i}"
    unfolding recv_complete_def by (rule done_in_upsert) simp_all
  then show ?thesis by (simp add: Recv_Complete)
next
  case (Decline_Row i)
  show ?thesis by (auto simp: Decline_Row decline_def done_in_def)
next
  case (Send_Progress i name snt tot)
  show ?thesis
    by (simp add: Send_Progress send_progress_def Let_def) (intro conjI impI; rule done_in_ops; auto)
qed (simp_all add: row_defs Let_def, (rule done_in_ops; auto split: if_splits)+)

lemmas done_in_row_ops =
  done_in_step [where e = "Incoming_Offer m" for m, simplified]
  done_in_step [where e = "Recv_Progress i name recv tot sp" for i name recv tot sp, simplified]
  done_in_step [where e = "Send_Progress i name snt tot" for i name snt tot, simplified]
  done_in_step [where e = "Mark_Offered i" for i, simplified]
  done_in_step [where e = "Mark_Rejected i" for i, simplified]
  done_in_step [where e = "Mark_Cancelled_Remote i" for i, simplified]
  done_in_step [where e = "Mark_All_Cancelled", simplified]
  done_in_step [where e = "Accept_Row i" for i, simplified]
  done_in_step [where e = "Decline_Row i" for i, simplified]
  done_in_step [where e = "Cancel_Row i" for i, simplified]
  done_in_step [where e = "Accept_All ids" for ids, simplified]

definition completed :: "ui_call list \<Rightarrow> u64 set" where
  "completed cs = {i. \<exists>name. On_Recv_Complete i name \<in> set cs}"

lemma completed_simps [simp]:
  "completed [] = {}" "completed (cs @ cs') = completed cs \<union> completed cs'"
  "completed (c # cs) = (case c of On_Recv_Complete i name \<Rightarrow> {i} | _ \<Rightarrow> {}) \<union> completed cs"
  by (auto simp: completed_def split: ui_call.splits)

lemma done_in_call: "done_in (on_ui_call c rows) \<subseteq> done_in rows \<union> completed [c]"
  using done_in_step [of rows "Recv_Complete i name" for i name] by (cases c) (simp_all add: done_in_row_ops)

lemma done_in_calls: "done_in (fold on_ui_call cs rows) \<subseteq> done_in rows \<union> completed cs"
proof (induction cs arbitrary: rows)
  case (Cons c cs)
  from Cons.IH [of "on_ui_call c rows"] done_in_call [of c rows] show ?case by auto
qed simp

lemma done_in_offered: "done_in (fold (\<lambda>i rows. mark_offered rows i) ids rows) \<subseteq> done_in rows"
proof (induction ids arbitrary: rows)
  case (Cons i ids)
  from Cons.IH [of "mark_offered rows i"] done_in_row_ops(4) [of rows i] show ?case by auto
qed simp

section \<open>The page\<close>

definition reported :: "'t client \<Rightarrow> u64 set" where
  "reported s = (\<Union>r \<in> set (cl_transfers s). completed (ui (page r)))"

text \<open>Reports stay, and a download that is newly Done has been reported.\<close>

definition honest :: "'t client \<Rightarrow> 't client \<Rightarrow> bool" where
  "honest s s' \<longleftrightarrow> reported s \<subseteq> reported s' \<and> done_in (cl_items s') \<subseteq> done_in (cl_items s) \<union> reported s'"

lemma honest_trans: "honest s s' \<Longrightarrow> honest s' s'' \<Longrightarrow> honest s s''"
  unfolding honest_def by blast

lemma honest_same:
  "prefix (cl_transfers s) (cl_transfers s') \<Longrightarrow> done_in (cl_items s') \<subseteq> done_in (cl_items s) \<Longrightarrow> honest s s'"
  by (auto simp: honest_def reported_def prefix_def)

lemma honest_transfer_event:
  assumes "k < length (cl_transfers s)" and "engine_ok (cl_transfers s ! k) e"
  shows "honest s (transfer_event P k e s)"
proof -
  let ?r = "cl_transfers s ! k" and ?r' = "engine_step (p_enc P) (p_dec P) (cl_transfers s ! k) e"
  obtain new where new: "ui (page ?r') = ui (page ?r) @ new"
    using tells_engine [OF assms(2), of "p_enc P" "p_dec P"] by (auto simp: tells_def)
  have "?r' \<in> set ((cl_transfers s)[k := ?r'])" using assms(1) by (simp add: set_update_memI)
  then have "completed new \<subseteq> reported (transfer_event P k e s)" "completed (ui (page ?r)) \<subseteq> reported (transfer_event P k e s)"
    by (auto simp: reported_def new intro!: bexI [of _ ?r'])
  moreover have "x \<in> set ((cl_transfers s)[k := ?r']) \<or> x = ?r" if "x \<in> set (cl_transfers s)" for x
    using that assms(1) by (auto simp: in_set_conv_nth nth_list_update)
  ultimately have "reported s \<subseteq> reported (transfer_event P k e s)" by (fastforce simp: reported_def)
  moreover have "done_in (cl_items (transfer_event P k e s)) \<subseteq> done_in (cl_items s) \<union> completed new"
    using done_in_calls [of new "cl_items s"] by (simp add: transfer_event_def new Let_def)
  ultimately show ?thesis using \<open>completed new \<subseteq> _\<close> unfolding honest_def by blast
qed

lemma honest_refl [simp]: "honest s s"
  by (simp add: honest_same)

lemma honest_items: "honest s s' \<Longrightarrow> done_in rows \<subseteq> done_in (cl_items s') \<Longrightarrow> honest s (s'\<lparr>cl_items := rows\<rparr>)"
  by (auto simp: honest_def reported_def)

definition current_ok :: "'t client \<Rightarrow> bool" where
  "current_ok s \<longleftrightarrow> (case cl_transfer s of Some k \<Rightarrow> k < length (cl_transfers s) | None \<Rightarrow> True)"

lemma current_ok_inv: "client_inv P fs s \<Longrightarrow> current_ok s"
  by (auto simp: client_inv_def page_inv_def engines_inv_def current_ok_def split: option.split)

lemma current_ok_with_transfer [simp]: "current_ok (with_transfer P e s) = current_ok s"
  by (simp add: current_ok_def with_transfer_def split: option.split)

lemma honest_with_transfer: "current_ok s \<Longrightarrow> honest s (with_transfer P e s)"
  by (auto simp: current_ok_def with_transfer_def intro: honest_transfer_event split: option.splits)

lemma honest_fold_transfer: "current_ok s \<Longrightarrow> honest s (fold (\<lambda>i. with_transfer P (User_Accept i)) ids s)"
proof (induction ids arbitrary: s)
  case (Cons i ids)
  then show ?case using honest_trans [OF honest_with_transfer Cons.IH] by simp
qed simp

lemma honest_offer_now: "current_ok s \<Longrightarrow> honest s (offer_now P files s)"
  by (simp add: offer_now_def Let_def honest_items honest_with_transfer done_in_offered)

lemma honest_on_files:
  assumes "current_ok s"
  shows "honest s (on_files P files s)"
proof (cases "files = []")
  case False
  have "done_in (cl_items (snd (add_rows files s))) = done_in (cl_items s)"
    by (induction files arbitrary: s) (simp_all add: Let_def case_prod_unfold push_outgoing_pending_def)
  then have add: "honest s (snd (add_rows files s))" by (intro honest_same) simp_all
  moreover have "current_ok (snd (add_rows files s))" using assms by (auto simp: current_ok_def split: option.splits)
  note honest_trans [OF add honest_offer_now [OF this]]
  moreover have "honest s (snd (add_rows files s)\<lparr>cl_pending := p\<rparr>)" for p
    using add by (simp add: honest_def reported_def)
  ultimately show ?thesis using False by (simp add: on_files_def Let_def case_prod_unfold)
qed (simp add: on_files_def)

lemma honest_ctrl_opens:
  assumes "k < length (cl_transfers s)" and "current_ok s"
  shows "honest s (ctrl_opens P k s)"
proof -
  let ?s = "(transfer_event P k (Page (Ctrl_State True)) s)\<lparr>cl_status := StConnected, cl_pending := []\<rparr>"
  have "honest s ?s" using honest_transfer_event [OF assms(1), of "Page (Ctrl_State True)" P]
    by (simp add: honest_def reported_def)
  moreover have "current_ok ?s" using assms(2) by (auto simp: current_ok_def split: option.splits)
  note honest_trans [OF \<open>honest s ?s\<close> honest_offer_now [OF this, of P "cl_pending s"]]
  ultimately show ?thesis by (simp add: ctrl_opens_def Let_def)
qed

lemma transfers_frame [simp]:
  "cl_transfers (sig_send m s) = cl_transfers s" "cl_transfers (emit x s) = cl_transfers s"
  "cl_transfers (mount err s) = cl_transfers s" "cl_transfers (on_join raw s) = cl_transfers s"
  "cl_transfers (teardown_pc s) = cl_transfers s" "cl_transfers (snd (build_pc pc_err s)) = cl_transfers s"
  "cl_transfers (wire_ctrl s) = cl_transfers s @ [receiver_new]"
  by (auto simp: sig_send_def wire_ctrl_def emit_def mount_def on_join_def teardown_pc_def build_pc_def Let_def
      split: option.split)

lemma transfers_execute: "prefix (cl_transfers s) (cl_transfers (execute P pc_err a s))"
  by (cases a) (auto simp: build_pc_def Let_def split: option.split prod.splits)

lemma transfers_fold_execute: "prefix (cl_transfers s) (cl_transfers (fold (execute P pc_err) as s))"
proof (induction "as" arbitrary: s)
  case (Cons a "as")
  then show ?case using transfers_execute [of s P pc_err a] prefix_order.trans by fastforce
qed simp

lemma transfers_to_event [simp]: "cl_transfers (snd (to_event m s)) = cl_transfers s"
  by (cases m) simp_all

lemma honest_callback: "honest s (on_callback P pc_err c s)"
proof (rule honest_same)
  have react: "prefix (cl_transfers s) (cl_transfers (react P pc_err ev s))" for ev and s :: "'a client"
    using transfers_fold_execute [of "s\<lparr>cl_session := x\<rparr>" P pc_err for x]
    by (simp add: react_def Let_def case_prod_unfold)
  show "prefix (cl_transfers s) (cl_transfers (on_callback P pc_err c s))"
  proof (cases c)
    case (On_Msg m)
    then show ?thesis
      using react [of "snd (to_event m s)"] by (simp add: on_message_def case_prod_unfold split: option.split)
  qed (simp_all add: react on_disconnect_def Let_def)
  show "done_in (cl_items (on_callback P pc_err c s)) \<subseteq> done_in (cl_items s)"
    by (simp add: items_callback done_in_row_ops del: on_callback.simps)
qed

lemma honest_fold_callback: "honest s (fold (on_callback P pc_err) cs s)"
proof (induction cs arbitrary: s)
  case (Cons c cs)
  show ?case using honest_trans [OF honest_callback Cons.IH] by (simp del: on_callback.simps)
qed simp

lemma honest_sig_event: "honest s (sig_event P pc_err e s)"
proof (cases "cl_sig s")
  case (Some g)
  have "honest s (s\<lparr>cl_sig := x\<rparr>)" for x by (intro honest_same) simp_all
  from honest_trans [OF this honest_fold_callback] show ?thesis by (simp add: sig_event_def Some Let_def)
qed (simp add: sig_event_def)

lemma honest_step:
  assumes inv: "client_inv P fs s" and ok: "client_ok s e"
  shows "honest s (client_step P s e)"
proof -
  note cur = current_ok_inv [OF inv]
  show ?thesis
  proof (cases e)
    case (Ctrl_Opens k)
    with ok cur show ?thesis by (simp add: honest_ctrl_opens current_ok_def)
  qed (use ok cur in \<open>simp_all add: honest_transfer_event honest_on_files honest_sig_event on_accept_def on_decline_def
         on_cancel_def on_cancel_send_def on_accept_all_def Let_def honest_with_transfer honest_fold_transfer
         honest_items done_in_row_ops honest_same\<close>)
qed

section \<open>A row that says Done is a file that was saved\<close>

lemma duo_done_reported:
  "duo_history P k hash owned es \<Longrightarrow>
     done_in (cl_items (pages (duo_after P k hash owned es) b)) \<subseteq> reported (pages (duo_after P k hash owned es) b)"
proof (induction es rule: rev_induct)
  case Nil
  show ?case by (simp add: duo_after_def duo_new_def client_new_def)
next
  case (snoc e es)
  let ?w = "duo_after P k hash owned es"
  from duo_history_snoc [OF snoc.prems] have h: "duo_history P k hash owned es" "duo_ok k ?w e" by blast+
  show ?case
  proof (cases "\<exists>x. client_event_of k ?w e = Some (b, x)")
    case True
    then obtain x where x: "client_event_of k ?w e = Some (b, x)" by blast
    then have "client_ok (pages ?w b) x" using handled_ok [OF h(2), of P b] by (simp add: handled_def)
    from honest_step [OF duo_inv [OF h(1)] this] snoc.IH [OF h(1)] x show ?thesis
      by (auto simp: duo_after_snoc duo_step_def honest_def)
  next
    case False
    then have "pages (duo_step P k ?w e) b = pages ?w b" by (auto simp: duo_step_def split: option.split)
    with snoc.IH [OF h(1)] show ?thesis by (simp add: duo_after_snoc)
  qed
qed

text \<open>(C19) What Done means on the row of a download: on the first connection of a page, each row of a
  download that says Done stands for a file that the other user added under the id of the row and that
  this user has accepted, and that travelled on a channel of its own; a complete, byte for byte copy of
  it has been saved, unless the browser had no object URL for what came on that channel. In that
  case, which the code does not tell from success, the row says Done although nothing was saved.\<close>

theorem done_row_is_a_saved_copy:
  fixes P :: "'t platform" and k hash owned es b
  defines "s \<equiv> pages (duo_after P k hash owned es) b"
    and "ts \<equiv> sending (page (transfer_at (k (\<not> b)) (pages (duo_after P k hash owned es) (\<not> b))))"
  assumes "reads_back (p_enc P) (p_dec P)" and "duo_history P k hash owned es"
    and "k b = 0" and "length (cl_transfers s) = 1"
    and "r \<in> set (cl_items s)" and "t_incoming r" and "t_state r = Done"
  shows "\<exists>j < length ts. tk_id (ts ! j) = t_id r \<and>
    (t_id r, tk_file (ts ! j)) \<in> set (numbered (files_at (\<not> b) es)) \<and> t_id r \<in> set (accepted_at P k hash owned b es) \<and>
    (saved_copy (tk_file (ts ! j)) \<in> set (downloads (page (cl_transfers s ! 0))) \<or>
     (\<exists>now. Packet_In b j now Url_Failed \<in> set es))"
proof -
  obtain les where
    les: "link_history (p_enc P) (p_dec P) les" "carried P k (duo_after P k hash owned es) les"
      "\<And>b. engine_at b (link_after (p_enc P) (p_dec P) les) = page (transfer_at (k b) (pages (duo_after P k hash owned es) b))"
      "set (link_offers (\<not> b) les) \<subseteq> set (numbered (files_at (\<not> b) es))"
      "\<And>j now dl. Packet_Arrives b j now dl \<in> set les \<Longrightarrow> Packet_In b j now dl \<in> set es"
    by (rule duo_link [OF assms(4)]) blast
  have at: "transfer_at (k b) s = cl_transfers s ! 0" using assms(5,6) by (simp add: transfer_at_def)
  have "t_id r \<in> done_in (cl_items s)" using assms(7-9) by (simp add: done_in_def)
  then have "t_id r \<in> reported s" using duo_done_reported [OF assms(4), of b] unfolding s_def by blast
  then obtain name where "On_Recv_Complete (t_id r) name \<in> set (ui (page (cl_transfers s ! 0)))"
    using assms(6) by (auto simp: reported_def completed_def length_Suc_conv)
  then have "saved_or_refused b les ts (downloads (page (cl_transfers s ! 0))) (t_id r) name"
    using completed_is_saved [OF assms(3) les(1), of "t_id r" name b] les(3) [of b] les(3) [of "\<not> b"] at
    by (simp add: s_def ts_def)
  then obtain j where j: "j < length ts" "tk_id (ts ! j) = t_id r"
      "saved_copy (tk_file (ts ! j)) \<in> set (downloads (page (cl_transfers s ! 0))) \<or> (\<exists>now. Packet_In b j now Url_Failed \<in> set es)"
    unfolding saved_or_refused_def using les(5) by blast
  have "ts ! j \<in> set (sending (engine_at (\<not> b) (link_after (p_enc P) (p_dec P) les)))"
    using nth_mem [OF j(1)] by (simp add: ts_def les(3))
  note asked = task_was_asked_for [OF assms(3) les(1) this, unfolded j(2)]
  have "t_id r \<in> set (accepted_at P k hash owned b es)"
    using accepted_by_click [OF assms(4) carried_At [OF les(2)]] asked(1) by simp
  with asked(2) les(4) j show ?thesis by blast
qed

theorem done_row_is_a_saved_copy_witness:
  "saved_copy empty_file \<in> set (downloads (page (cl_transfers (pages demo_duo_after False) ! 0)))"
proof -
  let ?s = "pages demo_duo_after False" and ?ts = "sending (page (transfer_at 0 (pages demo_duo_after (\<not> False))))"
  have s: "length (cl_transfers ?s) = 1" "length (cl_items ?s) = 1" "t_incoming (cl_items ?s ! 0)" "t_state (cl_items ?s ! 0) = Done"
    and sent: "length ?ts = 1" "tk_file (?ts ! 0) = empty_file"
    by (simp_all add: duo_after_def demo_duo_def demo_duo_simps incoming_offer_def upsert_def accept_def recv_complete_def
        finalize_decision_def incoming_default_def file_meta_def)
  have "Packet_In False j now Url_Failed \<notin> set demo_duo" for j now by (simp add: demo_duo_def)
  with done_row_is_a_saved_copy [OF demo_duo_reads_back demo_duo_history refl s(1) nth_mem s(3,4)] s(2) sent
  show ?thesis by auto
qed

end
