(* ===== verification/Finish_Stream.thy ===== *)
theory Finish_Stream
  imports Page_Exchange
begin

text \<open>
  No transfer gets stuck: from every state that two connected pages can reach, a stream that is running
  can be brought to its end by polling its task and delivering its packets, and the file is saved.
\<close>

section \<open>One more poll\<close>

lemma pump_keeps_tasks: "ts = sending s \<Longrightarrow> prefix ts (sending (pump s))"
  by (simp add: pump_def spawn_def Let_def case_prod_unfold)

lemma cancelled_pump [simp]: "cancelled (outgoing_files (pump s)) = cancelled (outgoing_files s)"
  by (simp add: pump_def spawn_def schedule_def Let_def case_prod_unfold)

lemma cancelled_finish:
  "tk_id (sending s ! k) \<notin> cancelled (outgoing_files s) \<Longrightarrow>
     prefix (sending s) (sending (finish_sending k s))"
  by (simp add: finish_sending_def Let_def call_ui_def pump_keeps_tasks)

text \<open>The task \<open>j\<close> of a transfer, as long as nobody has stopped it.\<close>

definition going :: "nat \<Rightarrow> 't receiver \<Rightarrow> 't task \<Rightarrow> bool" where
  "going j r t \<longleftrightarrow>
     j < length (sending (page r)) \<and> sending (page r) ! j = t \<and> tk_phase t \<noteq> Returned \<and>
     tk_id t \<notin> cancelled (outgoing_files (page r))"

lemma healthy_poll:
  assumes "going j r t" and inv: "task_inv enc t" "file_ok (tk_file t)" and env: "healthy env False"
  obtains t' where "tk_id t' = tk_id t" and "tk_file t' = tk_file t"
    and "task_measure t' < task_measure t \<and> going j (engine_step enc dec r (Poll j env)) t' \<or>
      end_frame enc (tk_id t) \<in> set (tk_wire t') \<and> j < length (sending (page (engine_step enc dec r (Poll j env)))) \<and>
      sending (page (engine_step enc dec r (Poll j env))) ! j = t'"
proof -
  let ?s = "page r"
  have g: "j < length (sending ?s)" "sending ?s ! j = t" "tk_phase t \<noteq> Returned" "tk_id t \<notin> cancelled (outgoing_files ?s)"
    using assms(1) by (simp_all add: going_def)
  obtain t' progress where t': "poll_send_file enc env False t = Some (t', progress)" "tk_id t' = tk_id t"
    "tk_file t' = tk_file t" "tk_phase t' = Returned \<or> task_measure t' < task_measure t"
    "tk_phase t' = Returned \<longrightarrow> fully_sent enc t'"
    using poll_task_ok [OF inv, of env False] env g(3) by (auto simp: poll_ok_def split: option.splits)
  let ?calls = "map (\<lambda>snt. On_Send_Progress (tk_id t) (jf_name (tk_file t)) snt (file_size (tk_file t))) progress"
  let ?s' = "?s\<lparr>sending := (sending ?s)[j := t'], ui := ui ?s @ ?calls\<rparr>"
  have step: "page (engine_step enc dec r (Poll j env)) = (if tk_phase t' = Returned then finish_sending j ?s' else ?s')"
    using g t'(1) by (simp add: poll_sending_def Let_def)
  show thesis
  proof (cases "tk_phase t' = Returned")
    case True
    have "end_frame enc (tk_id t) \<in> set (tk_wire t')" using t'(2,5) True by (auto simp: fully_sent_def)
    moreover obtain new where "sending (finish_sending j ?s') = (sending ?s)[j := t'] @ new"
      using cancelled_finish [of ?s' j] g t'(2) by (auto simp: prefix_def)
    ultimately show thesis
      using that [OF t'(2,3)] g(1) True by (simp add: step nth_append del: engine_step.simps)
  next
    case False
    then show thesis using that [OF t'(2,3)] t'(2,4) g by (simp add: step going_def del: engine_step.simps)
  qed
qed

section \<open>Polls until the end of the stream\<close>

lemma duo_tasks:
  assumes "duo_history P k hash owned es" and "t \<in> set (sending (page (transfer_at (k c) (pages (duo_after P k hash owned es) c))))"
  shows "task_inv (p_enc P) t" and "file_ok (tk_file t)"
proof -
  obtain les where les: "link_history (p_enc P) (p_dec P) les"
    "engine_at c (link_after (p_enc P) (p_dec P) les) = page (transfer_at (k c) (pages (duo_after P k hash owned es) c))"
    by (rule duo_link [OF assms(1)]) blast
  from link_tasks(2,3) [OF les] assms(2) show "task_inv (p_enc P) t" and "file_ok (tk_file t)" by auto
qed

lemma duo_history_add:
  assumes "duo_history P k hash owned es" and "duo_ok k (duo_after P k hash owned es) e" and "\<And>b. files_added (doing b e) = []"
  shows "duo_history P k hash owned (es @ [e])"
  using assms by (simp add: duo_history_def run_ok_append duo_after_def)

lemma poll_in_page:
  fixes P :: "'t platform" and k hash owned es c j env
  assumes hist: "duo_history P k hash owned es" and t: "going j (transfer_at (k c) (pages (duo_after P k hash owned es) c)) t"
  defines "e \<equiv> Does c (Transfer_Event (k c) (Poll j env))"
  shows "duo_history P k hash owned (es @ [e])"
    and "transfer_at (k c) (pages (duo_after P k hash owned (es @ [e])) c) =
      engine_step (p_enc P) (p_dec P) (transfer_at (k c) (pages (duo_after P k hash owned es) c)) (Poll j env)"
    and "pages (duo_after P k hash owned (es @ [e])) (\<not> c) = pages (duo_after P k hash owned es) (\<not> c)"
    and "brought (duo_after P k hash owned (es @ [e])) = brought (duo_after P k hash owned es)"
proof -
  let ?w = "duo_after P k hash owned es"
  have k: "k c < length (cl_transfers (pages ?w c))"
    using t by (auto simp: going_def transfer_at_def receiver_new_def transfer_new_def split: if_splits)
  then have "duo_ok k ?w e" using t by (simp add: e_def going_def transfer_at_def)
  then show "duo_history P k hash owned (es @ [e])"
    using hist by (intro duo_history_add) (simp_all add: e_def files_added_def)
  show "transfer_at (k c) (pages (duo_after P k hash owned (es @ [e])) c) =
      engine_step (p_enc P) (p_dec P) (transfer_at (k c) (pages ?w c)) (Poll j env)"
    "pages (duo_after P k hash owned (es @ [e])) (\<not> c) = pages ?w (\<not> c)"
    "brought (duo_after P k hash owned (es @ [e])) = brought ?w"
    using k by (simp_all add: duo_after_snoc duo_step_def e_def transfer_at_def)
qed

lemma polls_reach_the_end:
  fixes P :: "'t platform" and k hash owned c
  assumes env: "healthy env False"
  shows "duo_history P k hash owned es \<Longrightarrow> going j (transfer_at (k c) (pages (duo_after P k hash owned es) c)) t \<Longrightarrow>
    \<exists>m es' t'. es' = es @ replicate m (Does c (Transfer_Event (k c) (Poll j env))) \<and> m \<le> task_measure t + 1 \<and>
      duo_history P k hash owned es' \<and> j < length (sending (page (transfer_at (k c) (pages (duo_after P k hash owned es') c)))) \<and>
      sending (page (transfer_at (k c) (pages (duo_after P k hash owned es') c))) ! j = t' \<and>
      tk_id t' = tk_id t \<and> tk_file t' = tk_file t \<and> end_frame (p_enc P) (tk_id t) \<in> set (tk_wire t') \<and>
      pages (duo_after P k hash owned es') (\<not> c) = pages (duo_after P k hash owned es) (\<not> c) \<and>
      brought (duo_after P k hash owned es') = brought (duo_after P k hash owned es)"
proof (induction "task_measure t" arbitrary: es t rule: less_induct)
  case less
  let ?e = "Does c (Transfer_Event (k c) (Poll j env))" and ?r = "transfer_at (k c) (pages (duo_after P k hash owned es) c)"
  note step = poll_in_page [OF less.prems, of env]
  have "t \<in> set (sending (page ?r))" using less.prems(2) by (auto simp: going_def)
  from healthy_poll [OF less.prems(2) duo_tasks [OF less.prems(1) this] env, of "p_dec P"] obtain t' where
    t': "tk_id t' = tk_id t" "tk_file t' = tk_file t"
    and alt: "task_measure t' < task_measure t \<and>
        going j (transfer_at (k c) (pages (duo_after P k hash owned (es @ [?e])) c)) t' \<or>
      end_frame (p_enc P) (tk_id t) \<in> set (tk_wire t') \<and>
        j < length (sending (page (transfer_at (k c) (pages (duo_after P k hash owned (es @ [?e])) c)))) \<and>
        sending (page (transfer_at (k c) (pages (duo_after P k hash owned (es @ [?e])) c))) ! j = t'"
    unfolding step(2) by blast
  from alt show ?case
  proof
    assume "end_frame (p_enc P) (tk_id t) \<in> set (tk_wire t') \<and>
        j < length (sending (page (transfer_at (k c) (pages (duo_after P k hash owned (es @ [?e])) c)))) \<and>
        sending (page (transfer_at (k c) (pages (duo_after P k hash owned (es @ [?e])) c))) ! j = t'"
    then show ?thesis
      using t' step by (intro exI [of _ 1] exI [of _ "es @ [?e]"] exI [of _ t']) (simp add: replicate_append_same)
  next
    assume g: "task_measure t' < task_measure t \<and>
        going j (transfer_at (k c) (pages (duo_after P k hash owned (es @ [?e])) c)) t'"
    from less.hyps [OF conjunct1 [OF g] step(1) conjunct2 [OF g]] obtain m t'' where
      "m \<le> task_measure t' + 1"
      "duo_history P k hash owned ((es @ [?e]) @ replicate m ?e)"
      "j < length (sending (page (transfer_at (k c) (pages (duo_after P k hash owned ((es @ [?e]) @ replicate m ?e)) c))))"
      "sending (page (transfer_at (k c) (pages (duo_after P k hash owned ((es @ [?e]) @ replicate m ?e)) c))) ! j = t''"
      "tk_id t'' = tk_id t'" "tk_file t'' = tk_file t'" "end_frame (p_enc P) (tk_id t') \<in> set (tk_wire t'')"
      "pages (duo_after P k hash owned ((es @ [?e]) @ replicate m ?e)) (\<not> c) = pages (duo_after P k hash owned (es @ [?e])) (\<not> c)"
      "brought (duo_after P k hash owned ((es @ [?e]) @ replicate m ?e)) = brought (duo_after P k hash owned (es @ [?e]))"
      by blast
    moreover have "(es @ [?e]) @ replicate m ?e = es @ replicate (Suc m) ?e" by simp
    ultimately show ?thesis
      using t' step(3,4) g by (intro exI [of _ "Suc m"] exI [of _ "es @ replicate (Suc m) ?e"] exI [of _ t'']) auto
  qed
qed

section \<open>Packets until all have arrived\<close>

lemma brought_bound:
  assumes "reads_back (p_enc P) (p_dec P)" and "duo_history P k hash owned es"
    and "j < length (sending (page (transfer_at (k (\<not> b)) (pages (duo_after P k hash owned es) (\<not> b)))))"
  shows "brought (duo_after P k hash owned es) b j \<le>
    length (tk_wire (sending (page (transfer_at (k (\<not> b)) (pages (duo_after P k hash owned es) (\<not> b)))) ! j))"
proof -
  obtain les where les: "link_history (p_enc P) (p_dec P) les" "carried P k (duo_after P k hash owned es) les"
    "engine_at (\<not> b) (link_after (p_enc P) (p_dec P) les) =
      page (transfer_at (k (\<not> b)) (pages (duo_after P k hash owned es) (\<not> b)))"
    by (rule duo_link [OF assms(2)]) blast
  have "file_in (link_after (p_enc P) (p_dec P) les) b j \<le>
    (let ts = sending (engine_at (\<not> b) (link_after (p_enc P) (p_dec P) les)) in if j < length ts then length (tk_wire (ts ! j)) else 0)"
    using link_inv_after [OF assms(1) les(1)] unfolding link_inv_def recv_inv_def Let_def by blast
  moreover have "file_in (link_after (p_enc P) (p_dec P) les) = brought (duo_after P k hash owned es)"
    using les(2) by (simp add: carried_def)
  ultimately show ?thesis using assms(3) by (simp add: les(3))
qed

lemma packets_arrive:
  fixes P :: "'t platform" and k hash owned b j
  defines "e \<equiv> Packet_In b j (f_int 0) Downloaded"
  shows "duo_history P k hash owned es \<Longrightarrow> k b < length (cl_transfers (pages (duo_after P k hash owned es) b)) \<Longrightarrow>
    j < length (sending (page (transfer_at (k (\<not> b)) (pages (duo_after P k hash owned es) (\<not> b))))) \<Longrightarrow>
    brought (duo_after P k hash owned es) b j + n =
      length (tk_wire (sending (page (transfer_at (k (\<not> b)) (pages (duo_after P k hash owned es) (\<not> b)))) ! j)) \<Longrightarrow>
    duo_history P k hash owned (es @ replicate n e) \<and>
      pages (duo_after P k hash owned (es @ replicate n e)) (\<not> b) = pages (duo_after P k hash owned es) (\<not> b) \<and>
      brought (duo_after P k hash owned (es @ replicate n e)) b j = brought (duo_after P k hash owned es) b j + n"
proof (induction n arbitrary: es)
  case (Suc n)
  let ?w = "duo_after P k hash owned es" and ?w' = "duo_after P k hash owned (es @ [e])"
  have hist: "duo_history P k hash owned (es @ [e])"
    using Suc.prems(1) by (intro duo_history_add) (simp_all add: e_def files_added_def)
  have new: "pages ?w' (\<not> b) = pages ?w (\<not> b)" "brought ?w' b j = brought ?w b j + 1"
    "length (cl_transfers (pages ?w' b)) = length (cl_transfers (pages ?w b))"
    using Suc.prems by (simp_all add: duo_after_snoc duo_step_def e_def Let_def del: transfer_event_simps(6))
  from Suc.IH [OF hist] Suc.prems(2-4) show ?case by (simp add: new flip: replicate_append_same)
qed simp

section \<open>Every running stream can be finished\<close>

text \<open>(C17) No exchange gets stuck: in whatever state two connected pages are, after anything that both
  users, the signaling, the executor and the network did, a stream that is running and that nobody
  stopped can be finished. At most \<open>2 n + 3\<close> healthy polls of its task, for a file of \<open>n\<close> bytes, and
  the delivery of its packets lead to a state in which the other page has saved the whole file.\<close>

theorem every_running_stream_can_be_finished:
  fixes P :: "'t platform" and k hash owned es j b env
  defines "w \<equiv> duo_after P k hash owned es"
  defines "r \<equiv> transfer_at (k (\<not> b)) (pages w (\<not> b))"
  defines "t \<equiv> sending (page r) ! j"
  assumes serde: "reads_back (p_enc P) (p_dec P)" and hist: "duo_history P k hash owned es"
    and running: "j < length (sending (page r))" "tk_phase t \<noteq> Returned" "tk_id t \<notin> cancelled (outgoing_files (page r))"
    and joined: "k b < length (cl_transfers (pages w b))"
    and clicks: "Does b (Click_Cancel (tk_id t)) \<notin> set es" "Does (\<not> b) (Click_Cancel_Send (tk_id t)) \<notin> set es"
    and packets: "list_all (saves b (\<lambda>i. i = j)) es"
    and env: "healthy env False"
  shows "\<exists>m n. let es' = es @ replicate m (Does (\<not> b) (Transfer_Event (k (\<not> b)) (Poll j env))) @
        replicate n (Packet_In b j (f_int 0) Downloaded)
      in m \<le> 2 * length (jf_bytes (tk_file t)) + 3 \<and> duo_history P k hash owned es' \<and>
        saved_copy (tk_file t) \<in> set (downloads (page (transfer_at (k b) (pages (duo_after P k hash owned es') b))))"
proof -
  let ?after = "duo_after P k hash owned" and ?poll = "Does (\<not> b) (Transfer_Event (k (\<not> b)) (Poll j env))"
  let ?packet = "Packet_In b j (f_int 0) Downloaded"
  let ?tasks = "\<lambda>es. sending (page (transfer_at (k (\<not> b)) (pages (?after es) (\<not> b))))"
  have "going j r t" using running by (simp add: going_def t_def)
  from polls_reach_the_end [OF env hist this [unfolded r_def w_def]] obtain m t' where
    m: "m \<le> task_measure t + 1" "duo_history P k hash owned (es @ replicate m ?poll)"
    and t': "j < length (?tasks (es @ replicate m ?poll))" "?tasks (es @ replicate m ?poll) ! j = t'"
      "tk_id t' = tk_id t" "tk_file t' = tk_file t" "end_frame (p_enc P) (tk_id t) \<in> set (tk_wire t')"
    and same: "pages (?after (es @ replicate m ?poll)) b = pages w b" by (auto simp: w_def)
  let ?es = "es @ replicate m ?poll"
  obtain n where n: "brought (?after ?es) b j + n = length (tk_wire t')"
    using brought_bound [OF serde m(2) t'(1)] t'(2) le_Suc_ex by metis
  have "k b < length (cl_transfers (pages (?after ?es) b))" using joined by (simp add: same)
  from packets_arrive [OF m(2) this t'(1), of n] n t'(2) have
    p: "duo_history P k hash owned (?es @ replicate n ?packet)" "?tasks (?es @ replicate n ?packet) = ?tasks ?es"
      "brought (?after (?es @ replicate n ?packet)) b j = length (tk_wire t')" by simp_all
  have "list_all (saves b (\<lambda>i. i = j)) (?es @ replicate n ?packet)" using packets by (auto simp: list_all_iff)
  then have "saved_copy (tk_file t) \<in> set (downloads (page (transfer_at (k b) (pages (?after (?es @ replicate n ?packet)) b))))"
    using end_of_stream_saves(1) [OF serde p(1), of j b] t' p(2,3) clicks by auto
  moreover have "m \<le> 2 * length (jf_bytes (tk_file t)) + 3"
    using m(1) by (auto simp: task_measure_def Let_def split: phase.splits)
  ultimately show ?thesis using p(1) by (intro exI [of _ m] exI [of _ n]) (simp add: Let_def)
qed

theorem every_running_stream_can_be_finished_witness:
  "\<exists>m n. saved_copy empty_file \<in> set (downloads (page (transfer_at 0 (pages (duo_after demo_platform (\<lambda>_. 0) (\<lambda>_. [])
     (\<lambda>_. None) (take 11 demo_duo @ replicate m (Does True (Transfer_Event 0 (Poll 0 demo_env))) @
       replicate n (Packet_In False 0 (f_int 0) Downloaded))) False))))"
proof -
  let ?es = "take 11 demo_duo"
  let ?w = "duo_after demo_platform (\<lambda>_. 0) (\<lambda>_. []) (\<lambda>_. None) ?es"
  let ?r = "transfer_at 0 (pages ?w (\<not> False))"
  have hist: "duo_history demo_platform (\<lambda>_. 0) (\<lambda>_. []) (\<lambda>_. None) ?es"
    by (simp add: duo_history_def demo_duo_def demo_duo_simps files_at_def files_fine_def files_added_def empty_file_def)
  have *: "0 < length (sending (page ?r))" "tk_phase (sending (page ?r) ! 0) \<noteq> Returned"
    "tk_id (sending (page ?r) ! 0) \<notin> cancelled (outgoing_files (page ?r))" "tk_file (sending (page ?r) ! 0) = empty_file"
    "0 < length (cl_transfers (pages ?w False))"
    by (simp_all add: duo_after_def demo_duo_def demo_duo_simps)
  have clicks: "Does False (Click_Cancel (tk_id (sending (page ?r) ! 0))) \<notin> set ?es"
    "Does (\<not> False) (Click_Cancel_Send (tk_id (sending (page ?r) ! 0))) \<notin> set ?es"
    "list_all (saves False (\<lambda>i. i = 0)) ?es" by (simp_all add: demo_duo_def)
  have "healthy demo_env False" by (simp add: healthy_def demo_env_def)
  from every_running_stream_can_be_finished [OF demo_duo_reads_back hist *(1-3,5) clicks this] show ?thesis
    unfolding *(4) Let_def by auto
qed

end
