(* ===== verification/Browser_Tab.thy ===== *)
theory Browser_Tab
  imports Client_Connection Text_Format
begin

text \<open>
  The tab around a page: its URL hash, its session storage and what a reload makes of them
  (\<open>session_storage\<close>, \<open>session_owns\<close>, \<open>set_session_owns\<close> and \<open>public_origin\<close> of \<open>crates/client/src/app.rs\<close>),
  the clipboard behind the copy buttons (\<open>copy_to_clipboard\<close> of \<open>ui.rs\<close>), and the labels by which the
  page tells its data channels apart.
\<close>

section \<open>The session storage\<close>

definition OWNS_KEY :: rstr where "OWNS_KEY = lit ''file-send:owns''"

text \<open>A storage is a map from keys to values; some privacy modes have none.\<close>

type_synonym storage = "rstr \<rightharpoonup> rstr"

definition session_owns :: "storage option \<Rightarrow> rstr option" where
  "session_owns session_storage = (case session_storage of None \<Rightarrow> None | Some st \<Rightarrow> st OWNS_KEY)"

text \<open>\<open>set_ok\<close> says whether \<open>setItem\<close> succeeds; a failure is ignored.\<close>

definition set_session_owns :: "bool \<Rightarrow> rstr \<Rightarrow> storage option \<Rightarrow> storage option" where
  "set_session_owns set_ok room session_storage =
     (case session_storage of
        None \<Rightarrow> None
      | Some st \<Rightarrow> Some (if set_ok then st(OWNS_KEY \<mapsto> room) else st))"

definition public_origin :: "rstr option \<Rightarrow> rstr \<Rightarrow> rstr" where
  "public_origin compile_time location_origin = resolve_origin compile_time location_origin"

lemma session_owns_set [simp]: "session_owns (set_session_owns True room (Some st)) = Some room"
  by (simp add: session_owns_def set_session_owns_def)

section \<open>A tab\<close>

text \<open>
  \<open>encode\<close> is what the browser makes of a fragment that is assigned to \<open>location.hash\<close>. The page of a tab
  is loaded with the hash and with what the storage remembers. \<open>set_ok\<close> says whether the storage takes what
  is written; the root path of the button \<open>Start a new room\<close> has no hash.
\<close>

record 't browser_tab =
  tb_page :: "'t client"
  tb_hash :: rstr
  tb_storage :: "storage option"

definition loaded :: "rstr \<Rightarrow> storage option \<Rightarrow> 't browser_tab" where
  "loaded hash st = \<lparr>tb_page = client_new hash (session_owns st), tb_hash = hash, tb_storage = st\<rparr>"

definition hash_text :: "(rstr \<Rightarrow> rstr) \<Rightarrow> rstr \<Rightarrow> rstr" where
  "hash_text encode fragment = (if fragment = [] then [] else lit ''#'' @ encode fragment)"

fun do_effect :: "(rstr \<Rightarrow> rstr) \<Rightarrow> bool \<Rightarrow> effect \<Rightarrow> 't browser_tab \<Rightarrow> 't browser_tab" where
  "do_effect encode set_ok (Set_Hash fragment) tab = tab\<lparr>tb_hash := hash_text encode fragment\<rparr>"
| "do_effect encode set_ok (Set_Session_Owns room) tab =
     tab\<lparr>tb_storage := set_session_owns set_ok room (tb_storage tab)\<rparr>"
| "do_effect encode set_ok Reload tab = loaded (tb_hash tab) (tb_storage tab)"
| "do_effect encode set_ok (Set_Href path) tab = loaded [] (tb_storage tab)"
| "do_effect encode set_ok _ tab = tab"

text \<open>
  Something happens in the page, the user reloads it, or the hash is changed from outside, in the
  address bar or with the back button. The page has no listener for that: it learns of the new hash when
  it is loaded again.
\<close>

datatype 't tab_event = In_Tab bool "'t client_event" | User_Reloads | Hash_Edited rstr

fun tab_step :: "'t platform \<Rightarrow> (rstr \<Rightarrow> rstr) \<Rightarrow> 't browser_tab \<Rightarrow> 't tab_event \<Rightarrow> 't browser_tab" where
  "tab_step P encode tab (In_Tab set_ok e) =
     (let page' = client_step P (tb_page tab) e
      in fold (do_effect encode set_ok) (drop (length (cl_effects (tb_page tab))) (cl_effects page')) (tab\<lparr>tb_page := page'\<rparr>))"
| "tab_step P encode tab User_Reloads = loaded (tb_hash tab) (tb_storage tab)"
| "tab_step P encode tab (Hash_Edited hash) = tab\<lparr>tb_hash := hash\<rparr>"

text \<open>The server names rooms in the alphabet of its generator.\<close>

definition good_room :: "rstr \<Rightarrow> bool" where
  "good_room room \<longleftrightarrow> room \<noteq> [] \<and> set room \<subseteq> set ROOM_ALPHABET"

fun tab_ok :: "'t platform \<Rightarrow> 't browser_tab \<Rightarrow> 't tab_event \<Rightarrow> bool" where
  "tab_ok P tab (In_Tab set_ok (Sig_Event pc_err (Sock_Text i str))) \<longleftrightarrow>
     (case p_parse P str of Some (Created room) \<Rightarrow> good_room room | _ \<Rightarrow> True)"
| "tab_ok P tab _ \<longleftrightarrow> True"

definition tab_history ::
  "'t platform \<Rightarrow> (rstr \<Rightarrow> rstr) \<Rightarrow> rstr \<Rightarrow> storage option \<Rightarrow> 't tab_event list \<Rightarrow> bool" where
  "tab_history P encode hash st es \<longleftrightarrow> run_ok (tab_ok P) (tab_step P encode) (loaded hash st) es"

definition tab_after ::
  "'t platform \<Rightarrow> (rstr \<Rightarrow> rstr) \<Rightarrow> rstr \<Rightarrow> storage option \<Rightarrow> 't tab_event list \<Rightarrow> 't browser_tab" where
  "tab_after P encode hash st es = run (tab_step P encode) (loaded hash st) es"

section \<open>What a page asks the tab to remember\<close>

text \<open>The part of a session that is remembered, and what the effects make of it.\<close>

definition memory :: "'t client \<Rightarrow> rstr option \<times> rstr option" where
  "memory s = (room_in_hash (cl_session s), owns (cl_session s))"

fun recall :: "effect \<Rightarrow> rstr option \<times> rstr option \<Rightarrow> rstr option \<times> rstr option" where
  "recall (Set_Hash fragment) (h, o') = (room_from_hash (lit ''#'' @ fragment), o')"
| "recall (Set_Session_Owns room) (h, o') = (h, Some room)"
| "recall _ m = m"

fun remembered :: "effect \<Rightarrow> bool" where
  "remembered (Set_Hash fragment) \<longleftrightarrow> (\<exists>room. good_room room \<and> fragment = room_fragment room)"
| "remembered Reload \<longleftrightarrow> False"
| "remembered (Set_Href path) \<longleftrightarrow> False"
| "remembered _ \<longleftrightarrow> True"

definition recorded :: "'t client \<Rightarrow> 't client \<Rightarrow> bool" where
  "recorded s s' \<longleftrightarrow>
     (\<exists>xs. cl_effects s' = cl_effects s @ xs \<and> list_all remembered xs \<and> memory s' = fold recall xs (memory s))"

lemma recorded_refl: "cl_effects s' = cl_effects s \<Longrightarrow> memory s' = memory s \<Longrightarrow> recorded s s'"
  by (auto simp: recorded_def intro: exI [of _ "[]"])

lemma recorded_trans: "recorded s s' \<Longrightarrow> recorded s' s'' \<Longrightarrow> recorded s s''"
  by (fastforce simp: recorded_def)

lemma recorded_effect:
  "cl_effects s' = cl_effects s @ [x] \<Longrightarrow> memory s' = recall x (memory s) \<Longrightarrow> remembered x \<Longrightarrow> recorded s s'"
  by (auto simp: recorded_def intro: exI [of _ "[x]"])

lemma hash_of_good_room: "good_room room \<Longrightarrow> room_from_hash (lit ''#'' @ room_fragment room) = Some room"
  using hash_of_room [of room] by (simp add: good_room_def)

text \<open>Actions that neither write the hash nor the storage leave the memory alone.\<close>

fun writes :: "action \<Rightarrow> bool" where
  "writes (PersistRoom room) \<longleftrightarrow> True"
| "writes _ \<longleftrightarrow> False"

lemma built_pc:
  "build_pc pc_err s = (r, s') \<Longrightarrow>
     cl_effects s' = cl_effects s \<and> cl_session s' = cl_session s"
  by (auto simp: build_pc_def split: option.splits)

lemma recorded_execute: "\<not> writes a \<Longrightarrow> recorded s (execute P pc_err a s)"
  by (cases a) (auto simp: recorded_def memory_def build_pc_def teardown_pc_def Let_def split: option.split)

lemma recorded_fold_execute: "\<not> list_ex writes as \<Longrightarrow> recorded s (fold (execute P pc_err) as s)"
proof (induction as arbitrary: s)
  case (Cons a as)
  then show ?case using recorded_trans [OF recorded_execute [of a s P pc_err] Cons.IH] by simp
qed (simp add: recorded_refl)

lemma recorded_react:
  assumes "\<And>room. ev = EvCreated room \<Longrightarrow> good_room room"
  shows "recorded s (react P pc_err ev s)"
proof (cases "\<exists>room. ev = EvCreated room")
  case True
  then obtain room where ev: "ev = EvCreated room" by blast
  have "room_from_hash (lit ''#'' @ room_fragment room) = Some room" "remembered (Set_Hash (room_fragment room))"
    using assms [OF ev] hash_of_good_room by auto
  then show ?thesis
    by (simp add: ev react_def recorded_def memory_def Let_def)
next
  case False
  let ?s = "s\<lparr>cl_session := snd (step_session (cl_session s) ev)\<rparr>"
  have react: "react P pc_err ev s = fold (execute P pc_err) (fst (step_session (cl_session s) ev)) ?s"
    unfolding react_def Let_def case_prod_unfold by (rule refl)
  have "\<not> list_ex writes (fst (step_session (cl_session s) ev))"
    using False by (cases ev) (auto simp: Let_def split: option.split)
  moreover have "recorded s ?s"
    using False by (cases ev) (auto simp: memory_def Let_def intro: recorded_refl)
  ultimately show ?thesis
    unfolding react by (blast intro: recorded_trans recorded_fold_execute)
qed

fun good_callback :: "callback \<Rightarrow> bool" where
  "good_callback (On_Msg (Created room)) \<longleftrightarrow> good_room room"
| "good_callback _ \<longleftrightarrow> True"

lemma recorded_callback:
  assumes "good_callback c"
  shows "recorded s (on_callback P pc_err c s)"
proof (cases c)
  case On_Open
  show ?thesis unfolding On_Open on_callback.simps by (rule recorded_react) simp
next
  case On_Disconnect
  show ?thesis
    by (auto simp: On_Disconnect on_disconnect_def recorded_def memory_def Let_def split: option.split)
next
  case (On_Msg m)
  let ?r = "to_event m s"
  have "cl_effects (snd ?r) = cl_effects s" "cl_session (snd ?r) = cl_session s" by (cases m; simp)+
  then have first: "recorded s (snd ?r)" by (intro recorded_refl) (simp_all add: memory_def)
  show ?thesis
  proof (cases "fst ?r")
    case None
    with first show ?thesis by (cases ?r) (simp add: On_Msg on_message_def)
  next
    case (Some ev)
    then have "recorded (snd ?r) (react P pc_err ev (snd ?r))"
      using assms by (intro recorded_react) (cases m; auto simp: On_Msg split: if_splits)
    with first Some show ?thesis
      by (cases ?r) (auto simp: On_Msg on_message_def intro: recorded_trans)
  qed
qed

lemma recorded_fold_callback: "list_all good_callback cs \<Longrightarrow> recorded s (fold (on_callback P pc_err) cs s)"
proof (induction cs arbitrary: s)
  case (Cons c cs)
  then show ?case using recorded_trans [OF recorded_callback [of c s P pc_err] Cons.IH] by simp
qed (simp add: recorded_refl)

lemma good_callbacks:
  assumes "tab_ok P tab (In_Tab set_ok (Sig_Event pc_err b))"
  shows "list_all good_callback (drop (length (calls g)) (calls (signaling_step (p_parse P) g b)))"
proof (cases b)
  case (Sock_Text i str)
  then show ?thesis
    using assms by (auto simp: ws_onmessage_def split: option.splits signal_msg.splits)
qed (auto simp: set_state_def ws_onopen_def ws_onclose_def schedule_reconnect_def reconnect_now_def
      on_online_def Let_def)

lemma memory_frame:
  "cl_session s' = cl_session s \<Longrightarrow> cl_effects s' = cl_effects s \<Longrightarrow> recorded s s'"
  by (rule recorded_refl) (simp_all add: memory_def)

lemma tab_effects_frame [simp]:
  "cl_effects (with_transfer P pe s) = cl_effects s" "cl_effects (transfer_event P k te s) = cl_effects s"
  "cl_effects (offer_now P files s) = cl_effects s"
  "cl_effects (fold (\<lambda>i. with_transfer P (User_Accept i)) ids s) = cl_effects s"
  "cl_effects (snd (add_rows fs s)) = cl_effects s"
proof -
  show t: "cl_effects (transfer_event P k te s) = cl_effects s" for k te and s :: "'a client"
    by (simp add: transfer_event_def Let_def)
  show w: "cl_effects (with_transfer P pe s) = cl_effects s" for pe and s :: "'a client"
    by (simp add: with_transfer_def t split: option.split)
  show "cl_effects (offer_now P files s) = cl_effects s" by (simp add: offer_now_def w Let_def)
  show "cl_effects (fold (\<lambda>i. with_transfer P (User_Accept i)) ids s) = cl_effects s"
    by (induction ids arbitrary: s) (simp_all add: w)
  show "cl_effects (snd (add_rows fs s)) = cl_effects s"
    by (induction fs arbitrary: s) (simp_all add: Let_def case_prod_unfold)
qed

lemma recorded_step:
  assumes "tab_ok P tab (In_Tab set_ok e)" and "\<And>raw. e \<noteq> Join_Room raw" and "e \<noteq> Click_New_Room"
  shows "recorded s (client_step P s e)"
proof (cases e)
  case (Sig_Event pc_err b)
  show ?thesis
  proof (cases "cl_sig s")
    case (Some g)
    let ?g = "signaling_step (p_parse P) g b"
    have "recorded s (s\<lparr>cl_sig := Some ?g\<rparr>)" by (rule memory_frame) simp_all
    moreover have "recorded (s\<lparr>cl_sig := Some ?g\<rparr>)
        (fold (on_callback P pc_err) (drop (length (calls g)) (calls ?g)) (s\<lparr>cl_sig := Some ?g\<rparr>))"
      using good_callbacks [of P tab set_ok pc_err b g] assms(1) by (intro recorded_fold_callback) (simp add: Sig_Event)
    ultimately show ?thesis
      using Some by (simp add: Sig_Event sig_event_def Let_def recorded_trans)
  qed (simp add: Sig_Event sig_event_def recorded_refl)
qed (use assms(2,3) in \<open>auto intro!: memory_frame simp: mount_def ctrl_opens_def on_files_def on_accept_def on_decline_def
       on_cancel_def on_cancel_send_def on_accept_all_def Let_def case_prod_unfold split: option.split\<close>)

section \<open>What survives a reload\<close>

text \<open>
  The page agrees with its tab on the room, unless the hash was changed behind its back, and on the
  ownership, unless the storage did not take it.
\<close>

definition knows_room :: "rstr option \<times> rstr option \<Rightarrow> 't browser_tab \<Rightarrow> bool" where
  "knows_room m tab \<longleftrightarrow> fst m = room_from_hash (tb_hash tab)"

definition knows_owner :: "rstr option \<times> rstr option \<Rightarrow> 't browser_tab \<Rightarrow> bool" where
  "knows_owner m tab \<longleftrightarrow> tb_storage tab \<noteq> None \<and> snd m = session_owns (tb_storage tab)"

abbreviation same_room :: "'t browser_tab \<Rightarrow> bool" where
  "same_room tab \<equiv> knows_room (memory (tb_page tab)) tab"

abbreviation same_owner :: "'t browser_tab \<Rightarrow> bool" where
  "same_owner tab \<equiv> knows_owner (memory (tb_page tab)) tab"

lemma same_room_loaded: "same_room (loaded hash st)"
  by (simp add: knows_room_def memory_def loaded_def client_new_def)

lemma same_owner_loaded: "st \<noteq> None \<Longrightarrow> same_owner (loaded hash st)"
  by (simp add: knows_owner_def memory_def loaded_def client_new_def)

text \<open>The effects that a page records do to the tab what they do to the memory of the page.\<close>

lemma effect_done:
  assumes "remembered x" and "\<And>room. good_room room \<Longrightarrow> encode (room_fragment room) = room_fragment room"
  shows "tb_page (do_effect encode set_ok x tab) = tb_page tab"
    and "knows_room m tab \<Longrightarrow> knows_room (recall x m) (do_effect encode set_ok x tab)"
    and "set_ok \<Longrightarrow> knows_owner m tab \<Longrightarrow> knows_owner (recall x m) (do_effect encode set_ok x tab)"
  using assms
  by (cases x; cases m; auto simp: knows_room_def knows_owner_def hash_text_def room_fragment_def set_session_owns_def
      session_owns_def)+

lemma effects_done:
  assumes "list_all remembered xs" and "\<And>room. good_room room \<Longrightarrow> encode (room_fragment room) = room_fragment room"
  shows "tb_page (fold (do_effect encode set_ok) xs tab) = tb_page tab"
    and "knows_room m tab \<Longrightarrow> knows_room (fold recall xs m) (fold (do_effect encode set_ok) xs tab)"
    and "set_ok \<Longrightarrow> knows_owner m tab \<Longrightarrow> knows_owner (fold recall xs m) (fold (do_effect encode set_ok) xs tab)"
  using assms(1) by (induction xs arbitrary: tab m) (simp_all add: effect_done [OF _ assms(2)])

lemma no_storage_step: "tb_storage tab = None \<Longrightarrow> tb_storage (tab_step P encode tab e) = None"
proof -
  have "tb_storage tab = None \<Longrightarrow> tb_storage (fold (do_effect encode set_ok) xs tab) = None" for set_ok xs and tab :: "'a browser_tab"
  proof (induction xs arbitrary: tab)
    case (Cons x xs)
    from Cons.prems have "tb_storage (do_effect encode set_ok x tab) = None"
      by (cases x) (simp_all add: set_session_owns_def loaded_def)
    with Cons.IH show ?case by simp
  qed simp
  then show "tb_storage tab = None \<Longrightarrow> ?thesis" by (cases e) (simp_all add: loaded_def Let_def)
qed

text \<open>What must not happen to the tab for its page to stay up to date.\<close>

fun hash_untouched :: "'t tab_event \<Rightarrow> bool" where
  "hash_untouched (Hash_Edited hash) \<longleftrightarrow> False"
| "hash_untouched _ \<longleftrightarrow> True"

fun storage_takes :: "'t tab_event \<Rightarrow> bool" where
  "storage_takes (In_Tab set_ok e) \<longleftrightarrow> set_ok"
| "storage_takes _ \<longleftrightarrow> True"

lemma knows_page [simp]:
  "knows_room m (tab\<lparr>tb_page := s\<rparr>) = knows_room m tab" "knows_owner m (tab\<lparr>tb_page := s\<rparr>) = knows_owner m tab"
  "knows_owner m (tab\<lparr>tb_hash := hash\<rparr>) = knows_owner m tab"
  by (simp_all add: knows_room_def knows_owner_def)

lemma same_step:
  assumes "tab_ok P tab e"
    and encode: "\<And>room. good_room room \<Longrightarrow> encode (room_fragment room) = room_fragment room"
  shows "(same_room tab \<and> hash_untouched e \<longrightarrow> same_room (tab_step P encode tab e)) \<and>
    (same_owner tab \<and> storage_takes e \<longrightarrow> same_owner (tab_step P encode tab e))"
proof -
  have storage: "tb_storage tab \<noteq> None" if "same_owner tab" using that by (simp add: knows_owner_def)
  show ?thesis
  proof (cases e)
    case User_Reloads
    then show ?thesis using storage by (auto intro: same_room_loaded same_owner_loaded)
  next
    case (In_Tab set_ok x)
    let ?page = "client_step P (tb_page tab) x"
    show ?thesis
    proof (cases "(\<exists>raw. x = Join_Room raw) \<or> x = Click_New_Room")
      case True
      then have "tab_step P encode tab e = tab \<or> (\<exists>hash. tab_step P encode tab e = loaded hash (tb_storage tab))"
        unfolding In_Tab by (elim disjE exE) (simp add: on_join_def emit_def Let_def, blast, simp add: emit_def, blast)
      then show ?thesis using storage same_room_loaded same_owner_loaded by metis
    next
      case False
      obtain xs where xs: "cl_effects ?page = cl_effects (tb_page tab) @ xs" "list_all remembered xs"
        "memory ?page = fold recall xs (memory (tb_page tab))"
        using recorded_step [of P tab set_ok x "tb_page tab"] assms(1) False by (auto simp: In_Tab recorded_def)
      have step: "tab_step P encode tab e = fold (do_effect encode set_ok) xs (tab\<lparr>tb_page := ?page\<rparr>)"
        by (simp add: In_Tab xs(1) Let_def)
      note after = effects_done [OF xs(2) encode, where set_ok = set_ok and tab = "tab\<lparr>tb_page := ?page\<rparr>"]
      from after(2) [where m = "memory (tb_page tab)"] after(3) [where m = "memory (tb_page tab)"] show ?thesis
        unfolding step by (auto simp: In_Tab xs(3) effects_done(1) [OF xs(2) encode])
    qed
  qed simp
qed

definition encodes_rooms :: "(rstr \<Rightarrow> rstr) \<Rightarrow> bool" where
  "encodes_rooms encode \<longleftrightarrow> (\<forall>room. good_room room \<longrightarrow> encode (room_fragment room) = room_fragment room)"

interpretation room_machine: invariant_machine "tab_step P encode"
  "\<lambda>tab e. tab_ok P tab e \<and> encodes_rooms encode \<and> hash_untouched e" same_room for P encode
  by unfold_locales (use same_step in \<open>auto simp: encodes_rooms_def\<close>)

interpretation owner_machine: invariant_machine "tab_step P encode"
  "\<lambda>tab e. tab_ok P tab e \<and> encodes_rooms encode \<and> storage_takes e" same_owner for P encode
  by unfold_locales (use same_step in \<open>auto simp: encodes_rooms_def\<close>)

interpretation bare_machine: invariant_machine "tab_step P encode" "\<lambda>_ _. True" "\<lambda>tab. tb_storage tab = None" for P encode
  by unfold_locales (rule no_storage_step)

lemma run_ok_and:
  "run_ok ok step s es \<Longrightarrow> list_all good es \<Longrightarrow> run_ok (\<lambda>s e. ok s e \<and> c \<and> good e) step s es" if c
  using that by (induction es arbitrary: s) simp_all

text \<open>(C24) What a reload forgets. Take a tab whose page was loaded with some hash and some storage, and let
  happen what may: messages of the server, clicks, further reloads, and changes of the hash from
  outside. A page that is then loaded is in the room of the hash and owns what the storage has. As
  long as nobody changed the hash from outside, that is the room the running page believes to be in;
  as long as there is a storage and it took what was written, it is the room the running page owns; and
  when both hold, the reloaded page makes the same request to the server. In a browser without
  session storage a reload always forgets the ownership.\<close>

theorem reload_forgets_nothing:
  fixes P :: "'t platform" and encode :: "rstr \<Rightarrow> rstr"
  assumes "encodes_rooms encode" and "tab_history P encode hash st es"
  defines "tab \<equiv> tab_after P encode hash st es"
  defines "s \<equiv> cl_session (tb_page tab)"
    and "s' \<equiv> cl_session (tb_page (tab_step P encode tab User_Reloads))"
  shows "room_in_hash s' = room_from_hash (tb_hash tab) \<and> owns s' = session_owns (tb_storage tab) \<and>
    (list_all hash_untouched es \<longrightarrow> room_in_hash s = room_in_hash s') \<and>
    (st \<noteq> None \<and> list_all storage_takes es \<longrightarrow> owns s = owns s') \<and>
    (st \<noteq> None \<and> list_all hash_untouched es \<and> list_all storage_takes es \<longrightarrow>
       fst (step_session s' EvOpen) = fst (step_session s EvOpen)) \<and>
    (st = None \<longrightarrow> owns s' = None)"
proof -
  have s': "room_in_hash s' = room_from_hash (tb_hash tab)" "owns s' = session_owns (tb_storage tab)"
    by (simp_all add: s'_def loaded_def client_new_def)
  note hist = assms(2) [unfolded tab_history_def]
  have room: "room_in_hash s = room_in_hash s'" if "list_all hash_untouched es"
    using room_machine.run_inv [OF same_room_loaded run_ok_and [OF assms(1) hist that]]
    by (simp add: knows_room_def memory_def s'(1) s_def tab_def tab_after_def)
  have owner: "owns s = owns s'" if "st \<noteq> None" "list_all storage_takes es"
    using owner_machine.run_inv [OF same_owner_loaded [OF that(1)] run_ok_and [OF assms(1) hist that(2)]]
    by (simp add: knows_owner_def memory_def s'(2) s_def tab_def tab_after_def)
  have "owns s' = None" if "st = None"
    using bare_machine.run_inv [of "loaded hash st" P encode es] that
    by (simp add: s'(2) tab_def tab_after_def loaded_def session_owns_def)
  with s' room owner show ?thesis by simp
qed

text \<open>A page makes a room, is reloaded, and its user then types another code.\<close>

definition demo_tab :: "unit tab_event list" where
  "demo_tab =
     [In_Tab True (Mount None), In_Tab True (Sig_Event None (Sock_Opens 0)),
      In_Tab True (Sig_Event None (Sock_Text 0 (lit ''c''))), User_Reloads, In_Tab True (Join_Room (lit ''b7b7b7''))]"

lemma room_fragment_encoded: "encodes_rooms (\<lambda>s. s)"
  by (simp add: encodes_rooms_def)

theorem reload_forgets_nothing_witness:
  "room_in_hash (cl_session (tb_page (tab_after demo_page_platform (\<lambda>s. s) [] (Some (\<lambda>_. None)) (take 4 demo_tab)))) =
     Some (lit ''k7m4qp'') \<and>
   owns (cl_session (tb_page (tab_after demo_page_platform (\<lambda>s. s) [] (Some (\<lambda>_. None)) (take 4 demo_tab)))) =
     Some (lit ''k7m4qp'')"
proof -
  let ?es = "take 3 demo_tab"
  have hist: "tab_history demo_page_platform (\<lambda>s. s) [] (Some (\<lambda>_. None)) ?es"
    by (simp add: tab_history_def demo_tab_def loaded_def connection_simps good_room_def ROOM_ALPHABET_def Let_def)
  have "list_all hash_untouched ?es" "list_all storage_takes ?es" by (simp_all add: demo_tab_def)
  moreover have "tab_after demo_page_platform (\<lambda>s. s) [] (Some (\<lambda>_. None)) (take 4 demo_tab) =
      tab_step demo_page_platform (\<lambda>s. s) (tab_after demo_page_platform (\<lambda>s. s) [] (Some (\<lambda>_. None)) ?es) User_Reloads"
    by (simp add: tab_after_def demo_tab_def)
  moreover have "room_in_hash (cl_session (tb_page (tab_after demo_page_platform (\<lambda>s. s) [] (Some (\<lambda>_. None)) ?es))) =
      Some (lit ''k7m4qp'')"
    "owns (cl_session (tb_page (tab_after demo_page_platform (\<lambda>s. s) [] (Some (\<lambda>_. None)) ?es))) = Some (lit ''k7m4qp'')"
    by (simp_all add: tab_after_def demo_tab_def loaded_def connection_simps Let_def)
  ultimately show ?thesis using reload_forgets_nothing [OF room_fragment_encoded hist] by simp
qed

section \<open>The clipboard\<close>

text \<open>
  What the copy buttons need of the browser. \<open>writes_text\<close> and \<open>copies\<close> say whether the asynchronous
  clipboard and \<open>execCommand\<close> do what they are asked; the other fields are the lookups that can fail.
\<close>

record clip_env =
  has_window :: bool
  has_clipboard :: bool
  writes_text :: bool
  has_document :: bool
  has_body :: bool
  makes_area :: bool
  appends :: bool
  is_html :: bool
  copies :: bool

text \<open>The children of the body are numbered; a text area has a value.\<close>

record desktop =
  body_children :: "nat list"
  area_values :: "nat \<rightharpoonup> rstr"
  selected :: "nat option"
  clip_text :: rstr

text \<open>\<open>area\<close> is the number of the new element; a copy takes the text of the selected element.\<close>

definition exec_copy :: "bool \<Rightarrow> desktop \<Rightarrow> desktop" where
  "exec_copy ok d =
     (case selected d of
        None \<Rightarrow> d
      | Some a \<Rightarrow>
          (case area_values d a of Some v \<Rightarrow> if ok then d\<lparr>clip_text := v\<rparr> else d | None \<Rightarrow> d))"

definition legacy_copy :: "clip_env \<Rightarrow> nat \<Rightarrow> rstr \<Rightarrow> desktop \<Rightarrow> desktop" where
  "legacy_copy env area str d =
     (if \<not> has_document env then d
      else if \<not> has_body env then d
      else if \<not> makes_area env then d
      else
        (let d = d\<lparr>area_values := (area_values d)(area \<mapsto> str)\<rparr>
         in if \<not> appends env then d
            else
              (let d = d\<lparr>body_children := body_children d @ [area]\<rparr>;
                   d = d\<lparr>selected := Some area\<rparr>;
                   d = (if is_html env then exec_copy (copies env) d else d)
               in d\<lparr>body_children := remove1 area (body_children d)\<rparr>)))"

definition copy_to_clipboard :: "clip_env \<Rightarrow> nat \<Rightarrow> rstr \<Rightarrow> desktop \<Rightarrow> desktop" where
  "copy_to_clipboard env area str d =
     (if \<not> has_window env then d
      else if \<not> has_clipboard env then legacy_copy env area str d
      else if writes_text env then d\<lparr>clip_text := str\<rparr>
      else d)"

text \<open>
  A copy button copies the whole text or nothing, and never leaves an element behind; without the
  asynchronous clipboard, as in a page that is not served over HTTPS, the fallback copies it.
\<close>

theorem copying_leaves_no_trace:
  fixes env str
  assumes "area \<notin> set (body_children d)"
  defines "d' \<equiv> copy_to_clipboard env area str d"
  shows "body_children d' = body_children d" and "clip_text d' = str \<or> clip_text d' = clip_text d"
  using assms(1)
  by (simp_all add: d'_def copy_to_clipboard_def legacy_copy_def exec_copy_def Let_def remove1_append split: option.split)

theorem insecure_context_copies:
  assumes "has_window env" and "has_document env" and "has_body env" and "makes_area env" and "appends env"
    and "is_html env" and "copies env"
  shows "clip_text (copy_to_clipboard (env\<lparr>has_clipboard := False\<rparr>) area str d) = str"
  using assms by (simp add: copy_to_clipboard_def legacy_copy_def exec_copy_def Let_def)

section \<open>The labels of the channels\<close>

definition CTRL_LABEL :: rstr where "CTRL_LABEL = lit ''ctrl''"

text \<open>The label of a file's channel is \<open>id.to_string()\<close>.\<close>

definition file_label :: "u64 \<Rightarrow> rstr" where
  "file_label i = digits (unat i)"

text \<open>Where an inbound channel goes: \<open>wire_ctrl\<close>, the current transfer, or nowhere.\<close>

datatype channel_route = To_Wire_Ctrl | To_Transfer nat | Nowhere

definition route_channel :: "rstr \<Rightarrow> 't client \<Rightarrow> channel_route" where
  "route_channel label s =
     (if label = CTRL_LABEL then To_Wire_Ctrl
      else case cl_transfer s of Some k \<Rightarrow> To_Transfer k | None \<Rightarrow> Nowhere)"

text \<open>No file is taken for the control channel, and no two files for each other.\<close>

lemma file_label_inject [simp]: "file_label i = file_label j \<longleftrightarrow> i = j"
  using word_unat_eq_iff [of i j] by (simp add: file_label_def)

lemma file_label_not_ctrl: "file_label i \<noteq> CTRL_LABEL"
proof
  assume "file_label i = CTRL_LABEL"
  then have "of_char (CHR ''c'') \<in> set (digits (unat i))" by (simp add: file_label_def CTRL_LABEL_def)
  then show False using digits_is_digit by (fastforce simp: is_digit_def)
qed

lemma file_channel_route:
  "route_channel (file_label i) s = (case cl_transfer s of Some k \<Rightarrow> To_Transfer k | None \<Rightarrow> Nowhere)"
  by (simp add: route_channel_def file_label_not_ctrl)

end
