(* ===== verification/Invitation.thy ===== *)
theory Invitation
  imports Page_View Browser_Tab
begin

text \<open>
  A room handed on by copy and paste: the copy buttons of the share block in the page of the owner, the
  clipboard, the box for a code in the page of the guest, and the reload of the guest's tab.
\<close>

section \<open>Copying\<close>

datatype copy_button = Copy_Code | Copy_Link

fun copied_text :: "share_block \<Rightarrow> copy_button \<Rightarrow> rstr" where
  "copied_text sh Copy_Code = sh_code sh"
| "copied_text sh Copy_Link = sh_link sh"

definition press_copy :: "clip_env \<Rightarrow> nat \<Rightarrow> share_block \<Rightarrow> copy_button \<Rightarrow> desktop \<Rightarrow> desktop" where
  "press_copy env area sh b d = copy_to_clipboard env area (copied_text sh b) d"

text \<open>Either clipboard does what it is asked; which of them is there depends on the context.\<close>

definition can_copy :: "clip_env \<Rightarrow> bool" where
  "can_copy env \<longleftrightarrow>
     has_window env \<and>
     (if has_clipboard env then writes_text env
      else has_document env \<and> has_body env \<and> makes_area env \<and> appends env \<and> is_html env \<and> copies env)"

lemma press_copy_copies: "can_copy env \<Longrightarrow> clip_text (press_copy env area sh b d) = copied_text sh b"
  by (simp add: can_copy_def press_copy_def copy_to_clipboard_def legacy_copy_def exec_copy_def Let_def split: if_splits)

section \<open>Pasting\<close>

text \<open>What is done in the view of a page happens in its tab.\<close>

definition use_tab ::
  "'t platform \<Rightarrow> (rstr \<Rightarrow> rstr) \<Rightarrow> bool \<Rightarrow> 't browser_tab \<times> view_state \<Rightarrow> view_event \<Rightarrow> 't browser_tab \<times> view_state" where
  "use_tab P encode set_ok tv e =
     (let (v, es) = view_step (snd tv) e in (run (tab_step P encode) (fst tv) (map (In_Tab set_ok) es), v))"

text \<open>A code in the alphabet of the server, behind whatever link, is found again.\<close>

lemma invitation_normalizes:
  assumes "good_room code" and "\<forall>c \<in> set us \<union> set vs. is_whitespace c"
    and "p_origin P = [] \<or> \<not> is_whitespace (hd (p_origin P))"
    and "sh_code sh = code" and "sh_link sh = share_link (p_origin P) code"
  shows "normalize_code (us @ copied_text sh b @ vs) = code"
proof (cases b)
  case Copy_Code
  then show ?thesis
    using assms normalize_typed [of code code us vs] by (simp add: good_room_def alphabet_lowercase)
next
  case Copy_Link
  have "p_origin P @ lit ''/#/'' = [] \<or> \<not> is_whitespace (hd (p_origin P @ lit ''/#/''))"
    using assms(3) by (auto simp: hd_append is_whitespace_def)
  then have "normalize_code (us @ ((p_origin P @ lit ''/#/'') @ lit ''room/'' @ code @ []) @ vs) = code"
    using assms(1,2) by (intro normalize_link) (auto simp: good_room_def)
  then show ?thesis by (simp add: Copy_Link assms(5) share_link_def)
qed

text \<open>A page that joins is loaded again with the room in its hash, and asks for the room.\<close>

lemma joined_tab:
  fixes P :: "'t platform" and tab and set_ok
  assumes "good_room code" and "normalize_code raw = code" and "encodes_rooms encode"
  defines "page' \<equiv> tb_page (tab_step P encode tab (In_Tab set_ok (Join_Room raw)))"
  shows "room_in_hash (cl_session page') = Some code"
    and "on_callback P pc_err On_Open (page'\<lparr>cl_sig := Some g\<rparr>) = sig_send (Join code) (page'\<lparr>cl_sig := Some g\<rparr>)"
proof -
  have "code \<noteq> []" "room_fragment code \<noteq> []" using assms(1) by (simp_all add: good_room_def room_fragment_def)
  then have page': "page' = client_new (lit ''#'' @ room_fragment code) (session_owns (tb_storage tab))"
    using assms(1-3) by (simp add: page'_def on_join_def emit_def hash_text_def loaded_def encodes_rooms_def Let_def)
  show "room_in_hash (cl_session page') = Some code"
    using hash_of_good_room [OF assms(1)] by (simp add: page' client_new_def)
  then show "on_callback P pc_err On_Open (page'\<lparr>cl_sig := Some g\<rparr>) = sig_send (Join code) (page'\<lparr>cl_sig := Some g\<rparr>)"
    by (simp add: react_def Let_def)
qed

text \<open>(C20) An invitation works, however it is passed on: when a page shows the share block of a room that
  the server named, and its user copies the code or the link with the button beside it, over HTTPS or
  not, then pasting that text into the box of any other page, with blanks around it, and pressing
  Enter or Join loads that page again with this room in its hash, and as soon as its socket is open
  it asks the server for exactly this room.\<close>

theorem copied_invitation_leads_to_the_room:
  fixes P :: "'t platform" and nanoid :: "'rnd \<Rightarrow> rstr \<Rightarrow> nat \<Rightarrow> rstr"
    and tab :: "'t browser_tab" and env area b d us vs submit v' encode set_ok
  assumes share: "pv_share (page_view (client_runs P hash owned es) v) = Some sh"
    and code: "sh_code sh = gen_room_id nanoid rnd"
    and nanoid: "\<And>r a n. a \<noteq> [] \<Longrightarrow> set (nanoid r a n) \<subseteq> set a \<and> length (nanoid r a n) = n"
    and origin: "p_origin P = [] \<or> \<not> is_whitespace (hd (p_origin P))" and encode: "encodes_rooms encode"
    and copying: "can_copy env" and spaces: "\<forall>c \<in> set us \<union> set vs. is_whitespace c"
    and submit: "submit = Join_Clicked \<or> submit = Keydown (lit ''Enter'')"
  defines "pasted \<equiv> us @ clip_text (press_copy env area sh b d) @ vs"
  defines "guest \<equiv> tb_page (fst (run (use_tab P encode set_ok) (tab, v') [In_Join_Box (Input pasted), In_Join_Box submit]))"
  shows "room_in_hash (cl_session guest) = Some (sh_code sh) \<and>
    on_callback P pc_err On_Open (guest\<lparr>cl_sig := Some g\<rparr>) = sig_send (Join (sh_code sh)) (guest\<lparr>cl_sig := Some g\<rparr>)"
proof -
  have "ROOM_ALPHABET \<noteq> []" by (simp add: ROOM_ALPHABET_def)
  from nanoid [OF this, of rnd 6] have good: "good_room (sh_code sh)"
    by (auto simp: code gen_room_id_def good_room_def)
  have "share_ok P (client_runs P hash owned es)"
    unfolding client_runs_def by (rule share.run_inv) (simp_all add: share_ok_def client_new_def)
  then have "sh_link sh = share_link (p_origin P) (sh_code sh)"
    using share by (auto simp: page_view_def ShareLink_def share_ok_def split: if_splits)
  from invitation_normalizes [OF good spaces origin refl this, of b]
  have "normalize_code pasted = sh_code sh" by (simp add: pasted_def press_copy_copies [OF copying])
  note joined_tab [OF good this encode, where P = P and tab = tab]
  moreover have "guest = tb_page (tab_step P encode tab (In_Tab set_ok (Join_Room pasted)))"
    using submit by (auto simp: guest_def use_tab_def Let_def simp del: tab_step.simps)
  ultimately show ?thesis by simp
qed

definition demo_host :: "unit platform" where
  "demo_host = demo_page_platform\<lparr>p_parse := (\<lambda>t. Some (Created (gen_room_id demo_nanoid ())))\<rparr>"

definition demo_owner :: "unit client_event list" where
  "demo_owner = [Mount None, Sig_Event None (Sock_Opens 0), Sig_Event None (Sock_Text 0 [])]"

definition demo_clipboard :: clip_env where
  "demo_clipboard =
     \<lparr>has_window = True, has_clipboard = False, writes_text = False, has_document = True, has_body = True,
      makes_area = True, appends = True, is_html = True, copies = True\<rparr>"

theorem copied_invitation_leads_to_the_room_witness:
  "\<exists>sh. pv_share (page_view (client_runs demo_host [] None demo_owner) view_new) = Some sh \<and>
     room_in_hash (cl_session (tb_page (fst (run (use_tab demo_host (\<lambda>s. s) True) (loaded [] None, view_new)
       [In_Join_Box (Input (lit '' '' @ clip_text (press_copy demo_clipboard 0 sh Copy_Link
          \<lparr>body_children = [], area_values = Map.empty, selected = None, clip_text = []\<rparr>) @ [])),
        In_Join_Box Join_Clicked])))) = Some (gen_room_id demo_nanoid ())"
proof -
  have code: "cl_code (client_runs demo_host [] None demo_owner) = gen_room_id demo_nanoid ()"
    "cl_link (client_runs demo_host [] None demo_owner) \<noteq> []"
    by (simp_all add: demo_owner_def demo_host_def connection_simps share_link_def Let_def)
  then obtain sh where sh: "pv_share (page_view (client_runs demo_host [] None demo_owner) view_new) = Some sh"
    "sh_code sh = gen_room_id demo_nanoid ()"
    by (simp add: page_view_def ShareLink_def)
  have "p_origin demo_host = [] \<or> \<not> is_whitespace (hd (p_origin demo_host))" "can_copy demo_clipboard"
    "\<forall>c \<in> set (lit '' '') \<union> set []. is_whitespace c"
    by (simp_all add: demo_host_def demo_page_platform_def can_copy_def demo_clipboard_def is_whitespace_def)
  from copied_invitation_leads_to_the_room [OF sh demo_nanoid_law this(1) room_fragment_encoded this(2,3) disjI1 [OF refl]]
  show ?thesis using sh by auto
qed

end
