(* ===== verification/Server_Tests.thy ===== *)
theory Server_Tests
  imports Server_Properties
begin

text \<open>
  The unit tests of the server crate, translated assertion by assertion. The model passes them all,
  except for the one that the repository itself ignores, which fails in the model as well. Where a
  test draws a random room code, the code is an argument.
\<close>

section \<open>\<open>rooms.rs\<close>\<close>

definition room_count :: "room_registry \<Rightarrow> nat" where
  "room_count r = card (dom (rooms r))"

definition last_activity_of :: "rstr \<Rightarrow> room_registry \<Rightarrow> u64 option" where
  "last_activity_of room_id r = map_option last_activity_ms (rooms r room_id)"

definition create_then_join_pairs_peers :: bool where
  "create_then_join_pairs_peers \<longleftrightarrow>
     (let r = registry_new;
          (c, r) = create 1 (lit ''room1'') 0 r;
          (j, r) = join 2 (lit ''room1'') 0 r
      in c = RoomCreated (lit ''room1'') \<and> j = RoomJoined \<and> partner 1 r = Some 2 \<and> partner 2 r = Some 1)"

definition third_peer_is_full :: bool where
  "third_peer_is_full \<longleftrightarrow>
     (let r = registry_new;
          (_, r) = create 1 (lit ''room1'') 0 r;
          (_, r) = join 2 (lit ''room1'') 0 r
      in fst (join 3 (lit ''room1'') 0 r) = Full)"

definition join_unknown_room_not_found :: bool where
  "join_unknown_room_not_found \<longleftrightarrow> fst (join 1 (lit ''nope'') 0 registry_new) = NotFound"

definition remove_notifies_partner_and_keeps_room :: bool where
  "remove_notifies_partner_and_keeps_room \<longleftrightarrow>
     (let r = registry_new;
          (_, r) = create 1 (lit ''room1'') 0 r;
          (_, r) = join 2 (lit ''room1'') 0 r;
          (other, r) = remove 1 r
      in other = Some 2 \<and> partner 2 r = None \<and> room_count r = 1)"

definition remove_last_peer_drops_room :: bool where
  "remove_last_peer_drops_room \<longleftrightarrow>
     (let r = registry_new;
          (_, r) = create 1 (lit ''room1'') 0 r;
          (other, r) = remove 1 r
      in other = None \<and> room_count r = 0)"

definition reap_idle_expires_lonely_room :: bool where
  "reap_idle_expires_lonely_room \<longleftrightarrow>
     (let r = registry_new;
          (_, r) = create 1 (lit ''lonely'') 0 r;
          (_, r) = create 2 (lit ''paired'') 0 r;
          (_, r) = join 3 (lit ''paired'') 0 r;
          (reaped, r) = reap_idle 60000 30000 r
      in reaped = [lit ''lonely''] \<and> \<not> contains (lit ''lonely'') r \<and> contains (lit ''paired'') r \<and>
         lit ''paired'' \<notin> set reaped)"

definition touch_updates_activity_without_panicking_on_unknown_room :: bool where
  "touch_updates_activity_without_panicking_on_unknown_room \<longleftrightarrow>
     (let r = registry_new;
          (_, r) = create 1 (lit ''live'') 0 r;
          r = touch (lit ''live'') 5000 r;
          r = touch (lit ''ghost'') 5000 r
      in contains (lit ''live'') r \<and> last_activity_of (lit ''live'') r = Some 5000 \<and>
         last_activity_of (lit ''ghost'') r = None)"

lemma rooms_tests:
  "create_then_join_pairs_peers" "third_peer_is_full" "join_unknown_room_not_found"
  "remove_notifies_partner_and_keeps_room" "remove_last_peer_drops_room"
  "touch_updates_activity_without_panicking_on_unknown_room"
  by (simp_all add: create_then_join_pairs_peers_def third_peer_is_full_def join_unknown_room_not_found_def
      remove_notifies_partner_and_keeps_room_def remove_last_peer_drops_room_def room_count_def last_activity_of_def
      touch_updates_activity_without_panicking_on_unknown_room_def registry_defs)

text \<open>The test that is ignored as a known gap.\<close>

lemma reaping_test_fails: "\<not> reap_idle_expires_lonely_room"
  by (simp add: reap_idle_expires_lonely_room_def reap_idle_def Let_def case_prod_unfold)

section \<open>\<open>limiter.rs\<close>\<close>

definition test_ip :: "nat \<Rightarrow> ip_addr" where
  "test_ip n = V4 (0x0A000000 + of_nat n)"

fun allowed_then_fails :: "ip_addr \<Rightarrow> u64 list \<Rightarrow> join_limiter \<Rightarrow> bool \<times> join_limiter" where
  "allowed_then_fails a [] l = (True, l)"
| "allowed_then_fails a (t # ts) l =
     (let (ok, l) = allowed a t l; l = record_failure a t l; (oks, l) = allowed_then_fails a ts l in (ok \<and> oks, l))"

definition allows_up_to_max_then_blocks_within_window :: bool where
  "allows_up_to_max_then_blocks_within_window \<longleftrightarrow>
     (let l = limiter_new 1000 3;
          (oks, l) = allowed_then_fails (test_ip 1) [0, 1, 2] l
      in oks \<and> \<not> fst (allowed (test_ip 1) 3 l))"

definition window_expiry_clears_old_failures :: bool where
  "window_expiry_clears_old_failures \<longleftrightarrow>
     (let l = fold (record_failure (test_ip 1)) [0, 1, 2] (limiter_new 1000 3);
          (ok, l) = allowed (test_ip 1) 500 l
      in \<not> ok \<and> fst (allowed (test_ip 1) 1000 l))"

definition limits_are_per_ip :: bool where
  "limits_are_per_ip \<longleftrightarrow>
     (let l = fold (record_failure (test_ip 1)) [0, 0] (limiter_new 1000 2);
          (a, l) = allowed (test_ip 1) 0 l
      in \<not> a \<and> fst (allowed (test_ip 2) 0 l))"

definition successful_attempts_do_not_count :: bool where
  "successful_attempts_do_not_count \<longleftrightarrow>
     (let l = limiter_new 1000 1; (first, l) = allowed (test_ip 1) 0 l in first \<and> fst (allowed (test_ip 1) 0 l))"

text \<open>An address without failures, one whose failures all count, and one whose failures have all expired.\<close>

lemma limiter_cases:
  fixes W M f ip t v
  defines "l \<equiv> \<lparr>window_ms = W, max_failures = M, failures = f\<rparr>"
  shows "f ip = None \<Longrightarrow> allowed ip t l = (0 < M, l)"
    and "f ip = None \<Longrightarrow> record_failure ip t l = l\<lparr>failures := f(ip \<mapsto> [t])\<rparr>"
    and "f ip = Some v \<Longrightarrow> v \<noteq> [] \<Longrightarrow> \<forall>u \<in> set v. sat_sub t u < W \<Longrightarrow> allowed ip t l = (length v < M, l)"
    and "f ip = Some v \<Longrightarrow> v \<noteq> [] \<Longrightarrow> \<forall>u \<in> set v. sat_sub t u < W \<Longrightarrow>
      record_failure ip t l = l\<lparr>failures := f(ip \<mapsto> v @ [t])\<rparr>"
    and "f ip = Some v \<Longrightarrow> \<forall>u \<in> set v. \<not> sat_sub t u < W \<Longrightarrow>
      allowed ip t l = (0 < M, l\<lparr>failures := f(ip := None)\<rparr>)"
  by (simp_all add: l_def allowed_def record_failure_def prune_def map_upd_triv cong: filter_cong)

lemma limiter_tests:
  "allows_up_to_max_then_blocks_within_window" "window_expiry_clears_old_failures" "limits_are_per_ip"
  "successful_attempts_do_not_count"
  unfolding allows_up_to_max_then_blocks_within_window_def window_expiry_clears_old_failures_def
    limits_are_per_ip_def successful_attempts_do_not_count_def limiter_new_def Let_def
  by (simp_all add: limiter_cases sat_sub_def test_ip_def)
    (simp add: allowed_def prune_def sat_sub_def)

section \<open>\<open>ws.rs\<close>\<close>

text \<open>
  \<open>register\<close> makes an outbound channel and \<open>try_recv\<close> takes a message from it; each call of
  \<open>handle_message\<close> reads the clock at its own time.
\<close>

definition register :: "peer_id \<Rightarrow> app_state \<Rightarrow> app_state" where
  "register peer st = st\<lparr>senders := (senders st)(peer \<mapsto> [])\<rparr>"

definition try_recv :: "peer_id \<Rightarrow> app_state \<Rightarrow> signal_msg option \<times> app_state" where
  "try_recv peer st =
     (case senders st peer of
        Some (m # ms) \<Rightarrow> (Some m, st\<lparr>senders := (senders st)(peer \<mapsto> ms)\<rparr>)
      | _ \<Rightarrow> (None, st))"

definition create_emits_created_with_room_code :: "(nat \<Rightarrow> u64) \<Rightarrow> rstr \<Rightarrow> bool" where
  "create_emits_created_with_room_code clock fresh \<longleftrightarrow>
     (let st = register 1 app_new;
          st = handle_message st 1 (test_ip 1) (clock 0) fresh Create
      in fst (try_recv 1 st) = Some (Created fresh))"

definition join_notifies_initiator_then_relays_sdp_and_ice :: "(nat \<Rightarrow> u64) \<Rightarrow> rstr \<Rightarrow> bool" where
  "join_notifies_initiator_then_relays_sdp_and_ice clock fresh \<longleftrightarrow>
     (let st = register 1 app_new;
          st = handle_message st 1 (test_ip 1) (clock 0) fresh Create;
          (m0, st) = try_recv 1 st;
          st = register 2 st;
          st = handle_message st 2 (test_ip 2) (clock 1) [] (Join fresh);
          (m1, st) = try_recv 1 st;
          st = handle_message st 1 (test_ip 1) (clock 2) [] (Sdp (lit ''x'') (lit ''offer''));
          (m2, st) = try_recv 2 st;
          st = handle_message st 2 (test_ip 2) (clock 3) [] (Ice (lit ''c''));
          (m3, st) = try_recv 1 st
      in m0 = Some (Created fresh) \<and> m1 = Some PeerJoined \<and> m2 = Some (Sdp (lit ''x'') (lit ''offer'')) \<and>
         m3 = Some (Ice (lit ''c'')))"

definition reclaim_recreates_room_under_same_id_and_accepts_a_joiner :: "(nat \<Rightarrow> u64) \<Rightarrow> bool" where
  "reclaim_recreates_room_under_same_id_and_accepts_a_joiner clock \<longleftrightarrow>
     (let st = register 1 app_new;
          st = handle_message st 1 (test_ip 1) (clock 0) [] (Reclaim (lit ''keepme''));
          (m0, st) = try_recv 1 st;
          st = register 2 st;
          st = handle_message st 2 (test_ip 2) (clock 1) [] (Join (lit ''keepme''));
          (m1, st) = try_recv 1 st
      in m0 = Some (Created (lit ''keepme'')) \<and> m1 = Some PeerJoined)"

definition reclaim_cannot_displace_a_live_room :: "(nat \<Rightarrow> u64) \<Rightarrow> rstr \<Rightarrow> bool" where
  "reclaim_cannot_displace_a_live_room clock fresh \<longleftrightarrow>
     (let st = register 1 app_new;
          st = handle_message st 1 (test_ip 1) (clock 0) fresh Create;
          (m0, st) = try_recv 1 st;
          st = register 2 st;
          st = handle_message st 2 (test_ip 2) (clock 1) [] (Reclaim fresh);
          (m1, st) = try_recv 2 st;
          st = register 3 st;
          st = handle_message st 3 (test_ip 3) (clock 2) [] (Join fresh);
          (m2, st) = try_recv 1 st
      in m0 = Some (Created fresh) \<and> m1 = Some RoomNotFound \<and> m2 = Some PeerJoined)"

definition join_unknown_room_reports_not_found :: "(nat \<Rightarrow> u64) \<Rightarrow> bool" where
  "join_unknown_room_reports_not_found clock \<longleftrightarrow>
     (let st = register 1 app_new;
          st = handle_message st 1 (test_ip 1) (clock 0) [] (Join (lit ''zzzzzz''))
      in fst (try_recv 1 st) = Some RoomNotFound)"

definition third_peer_gets_room_full :: "(nat \<Rightarrow> u64) \<Rightarrow> rstr \<Rightarrow> bool" where
  "third_peer_gets_room_full clock fresh \<longleftrightarrow>
     (let st = register 1 app_new;
          st = handle_message st 1 (test_ip 1) (clock 0) fresh Create;
          (m0, st) = try_recv 1 st;
          st = register 2 st;
          st = handle_message st 2 (test_ip 2) (clock 1) [] (Join fresh);
          st = register 3 st;
          st = handle_message st 3 (test_ip 3) (clock 2) [] (Join fresh)
      in m0 = Some (Created fresh) \<and> fst (try_recv 3 st) = Some RoomFull)"

text \<open>The loop over \<open>0..=JOIN_MAX_FAILURES\<close>.\<close>

fun failing_joins :: "u64 list \<Rightarrow> app_state \<Rightarrow> bool" where
  "failing_joins [] st \<longleftrightarrow> True"
| "failing_joins (now # nows) st \<longleftrightarrow>
     (let st = handle_message st 1 (test_ip 7) now [] (Join (lit ''nope12''));
          (m, st) = try_recv 1 st
      in m = Some RoomNotFound \<and> failing_joins nows st)"

definition repeated_failed_joins_from_one_ip_get_rate_limited :: "u64 list \<Rightarrow> bool" where
  "repeated_failed_joins_from_one_ip_get_rate_limited nows \<longleftrightarrow> failing_joins nows (register 1 app_new)"

definition server_originated_messages_are_ignored :: "(nat \<Rightarrow> u64) \<Rightarrow> bool" where
  "server_originated_messages_are_ignored clock \<longleftrightarrow>
     (let st = register 1 app_new;
          st = handle_message st 1 (test_ip 1) (clock 0) [] PeerLeft
      in fst (try_recv 1 st) = None)"

lemmas ws_test_simps =
  register_def try_recv_def app_new_def handler_defs registry_defs send_to_def test_ip_def Let_def
  limiter_defs sat_sub_def JOIN_WINDOW_MS_def JOIN_MAX_FAILURES_def

lemma ws_tests:
  "create_emits_created_with_room_code clock fresh"
  "join_notifies_initiator_then_relays_sdp_and_ice clock fresh"
  "reclaim_recreates_room_under_same_id_and_accepts_a_joiner clock"
  "reclaim_cannot_displace_a_live_room clock fresh"
  "join_unknown_room_reports_not_found clock"
  "third_peer_gets_room_full clock fresh"
  "server_originated_messages_are_ignored clock"
  by (simp_all add: ws_test_simps create_emits_created_with_room_code_def
      join_notifies_initiator_then_relays_sdp_and_ice_def reclaim_recreates_room_under_same_id_and_accepts_a_joiner_def
      reclaim_cannot_displace_a_live_room_def join_unknown_room_reports_not_found_def third_peer_gets_room_full_def
      server_originated_messages_are_ignored_def)

text \<open>The budget test passes for any number of attempts, whatever the clock shows.\<close>

lemma failing_joins:
  assumes "rooms (registry st) = (\<lambda>_. None)" and "senders st 1 = Some []"
  shows "failing_joins nows st"
  using assms
proof (induction nows arbitrary: st)
  case (Cons now nows)
  let ?st = "handle_message st 1 (test_ip 7) now [] (Join (lit ''nope12''))"
  have "registry ?st = registry st" "senders ?st 1 = Some [RoomNotFound]"
    using Cons.prems by (auto simp: handle_join_def join_def senders_send_to Let_def case_prod_unfold)
  with Cons show ?case by (simp add: try_recv_def)
qed simp

lemma budget_test: "repeated_failed_joins_from_one_ip_get_rate_limited nows"
  unfolding repeated_failed_joins_from_one_ip_get_rate_limited_def
  by (rule failing_joins) (simp_all add: register_def app_new_def registry_new_def)

section \<open>\<open>tests/signaling.rs\<close>\<close>

text \<open>
  The integration tests, against the running server: a client connects, sends a text and reads the
  next message that the server writes to it. Reading and writing JSON are parameters.
\<close>

definition test_connect :: "server \<Rightarrow> peer_id \<times> server" where
  "test_connect s = (next_id (app s), connect_socket (V4 0x7F000001) s)"

definition test_send ::
  "(rstr \<Rightarrow> signal_msg option) \<Rightarrow> (signal_msg \<Rightarrow> rstr) \<Rightarrow> peer_id \<Rightarrow> signal_msg \<Rightarrow> u64 \<Rightarrow> rstr \<Rightarrow> server \<Rightarrow> server" where
  "test_send parse ser p m now fresh s = server_step parse s (Inbound p (TextFrame (ser m)) now fresh)"

definition test_recv :: "peer_id \<Rightarrow> server \<Rightarrow> signal_msg option \<times> server" where
  "test_recv p s = (case senders (app s) p of Some (m # _) \<Rightarrow> Some m | _ \<Rightarrow> None, drain p True s)"

definition create_join_relay_flow ::
  "(rstr \<Rightarrow> signal_msg option) \<Rightarrow> (signal_msg \<Rightarrow> rstr) \<Rightarrow> (nat \<Rightarrow> u64) \<Rightarrow> rstr \<Rightarrow> bool" where
  "create_join_relay_flow parse ser clock fresh \<longleftrightarrow>
     (let (a, s) = test_connect server_new;
          s = test_send parse ser a Create (clock 0) fresh s;
          (m0, s) = test_recv a s;
          (b, s) = test_connect s;
          s = test_send parse ser b (Join fresh) (clock 1) [] s;
          (m1, s) = test_recv a s;
          s = test_send parse ser a (Sdp (lit ''OFFER'') (lit ''offer'')) (clock 2) [] s;
          (m2, s) = test_recv b s
      in m0 = Some (Created fresh) \<and> m1 = Some PeerJoined \<and> m2 = Some (Sdp (lit ''OFFER'') (lit ''offer'')))"

definition served_third_peer_gets_room_full ::
  "(rstr \<Rightarrow> signal_msg option) \<Rightarrow> (signal_msg \<Rightarrow> rstr) \<Rightarrow> (nat \<Rightarrow> u64) \<Rightarrow> rstr \<Rightarrow> bool" where
  "served_third_peer_gets_room_full parse ser clock fresh \<longleftrightarrow>
     (let (a, s) = test_connect server_new;
          s = test_send parse ser a Create (clock 0) fresh s;
          (m0, s) = test_recv a s;
          (b, s) = test_connect s;
          s = test_send parse ser b (Join fresh) (clock 1) [] s;
          (_, s) = test_recv a s;
          (c, s) = test_connect s;
          s = test_send parse ser c (Join fresh) (clock 2) [] s
      in m0 = Some (Created fresh) \<and> fst (test_recv c s) = Some RoomFull)"

definition join_unknown_room ::
  "(rstr \<Rightarrow> signal_msg option) \<Rightarrow> (signal_msg \<Rightarrow> rstr) \<Rightarrow> u64 \<Rightarrow> bool" where
  "join_unknown_room parse ser now \<longleftrightarrow>
     (let (a, s) = test_connect server_new;
          s = test_send parse ser a (Join (lit ''ghost'')) now [] s
      in fst (test_recv a s) = Some RoomNotFound)"

definition partner_notified_on_disconnect ::
  "(rstr \<Rightarrow> signal_msg option) \<Rightarrow> (signal_msg \<Rightarrow> rstr) \<Rightarrow> (nat \<Rightarrow> u64) \<Rightarrow> rstr \<Rightarrow> bool" where
  "partner_notified_on_disconnect parse ser clock fresh \<longleftrightarrow>
     (let (a, s) = test_connect server_new;
          s = test_send parse ser a Create (clock 0) fresh s;
          (m0, s) = test_recv a s;
          (b, s) = test_connect s;
          s = test_send parse ser b (Join fresh) (clock 1) [] s;
          (m1, s) = test_recv a s;
          s = server_step parse s (StreamEnd b);
          (m2, s) = test_recv a s
      in m0 = Some (Created fresh) \<and> m1 = Some PeerJoined \<and> m2 = Some PeerLeft)"

text \<open>The states that the tests pass through: one room, and the messages on their way.\<close>

definition test_server ::
  "rstr \<Rightarrow> peer_id list \<Rightarrow> u64 \<Rightarrow> (peer_id \<rightharpoonup> rstr) \<Rightarrow> (peer_id \<rightharpoonup> signal_msg list) \<Rightarrow> u64 \<Rightarrow> (peer_id \<rightharpoonup> ip_addr) \<Rightarrow>
     (peer_id \<times> signal_msg) list \<Rightarrow> server" where
  "test_server room ps t index queues nxt cs wir =
     \<lparr>app = \<lparr>registry = \<lparr>rooms = [room \<mapsto> \<lparr>peers = ps, last_activity_ms = t\<rparr>], peer_room = index\<rparr>,
             senders = queues, next_id = nxt, limiter = limiter_new JOIN_WINDOW_MS JOIN_MAX_FAILURES\<rparr>,
      conns = cs, wire = wir\<rparr>"

lemma allowed_fresh: "allowed ip t (limiter_new W M) = (0 < M, limiter_new W M)"
  by (simp add: limiter_defs)

lemma later_peer:
  "(f :: peer_id \<Rightarrow> 'b)(2 := x, 1 := y) = f(1 := y, 2 := x)" "[1 \<mapsto> (z :: 'c)](2 := None) = [1 :: peer_id \<mapsto> z]"
  by (rule fun_upd_twist, simp) (rule fun_upd_idem, simp)

lemmas served_simps =
  test_connect_def test_send_def test_recv_def test_server_def connect_socket_def drain_def handler_defs create_def
  join_def partner_def send_to_def allowed_fresh JOIN_MAX_FAILURES_def later_peer Let_def

abbreviation localhost :: ip_addr where "localhost \<equiv> V4 0x7F000001"

lemma served_created:
  assumes "\<And>m. parse (ser m) = Some m"
  shows "test_recv 1 (test_send parse ser 1 Create t room (snd (test_connect server_new))) =
    (Some (Created room), test_server room [1] t [1 \<mapsto> room] [1 \<mapsto> []] 2 [1 \<mapsto> localhost] [(1, Created room)])"
  by (simp add: assms served_simps server_new_def app_new_def registry_new_def)

lemma served_joined:
  assumes "\<And>m. parse (ser m) = Some m"
  shows "test_recv 1 (test_send parse ser 2 (Join room) t []
      (snd (test_connect (test_server room [1] t0 [1 \<mapsto> room] [1 \<mapsto> []] 2 [1 \<mapsto> localhost] wir)))) =
    (Some PeerJoined, test_server room [1, 2] t [1 \<mapsto> room, 2 \<mapsto> room] [1 \<mapsto> [], 2 \<mapsto> []] 3
       [1 \<mapsto> localhost, 2 \<mapsto> localhost] (wir @ [(1, PeerJoined)]))"
  by (simp add: assms served_simps)

lemma served_relay:
  assumes "\<And>m. parse (ser m) = Some m"
  shows "fst (test_recv 2 (test_send parse ser 1 (Sdp sdp kind) t []
      (test_server room [1, 2] t0 [1 \<mapsto> room, 2 \<mapsto> room] [1 \<mapsto> [], 2 \<mapsto> []] 3
        [1 \<mapsto> localhost, 2 \<mapsto> localhost] wir))) = Some (Sdp sdp kind)"
  by (simp add: assms served_simps)

lemma served_full:
  assumes "\<And>m. parse (ser m) = Some m"
  shows "fst (test_recv 3 (test_send parse ser 3 (Join room) t []
      (snd (test_connect (test_server room [1, 2] t0 [1 \<mapsto> room, 2 \<mapsto> room] [1 \<mapsto> [], 2 \<mapsto> []] 3
        [1 \<mapsto> localhost, 2 \<mapsto> localhost] wir))))) = Some RoomFull"
  by (simp add: assms served_simps)

lemma served_left:
  "fst (test_recv 1 (server_step parse (test_server room [1, 2] t [1 \<mapsto> room, 2 \<mapsto> room] [1 \<mapsto> [], 2 \<mapsto> []] 3
      [1 \<mapsto> localhost, 2 \<mapsto> localhost] wir) (StreamEnd 2))) = Some PeerLeft"
  by (simp add: served_simps disconnect_def cleanup_def remove_def)

lemma served_ids:
  "fst (test_connect server_new) = 1" "fst (test_connect (test_server room ps t index queues nxt cs wir)) = nxt"
  by (simp_all add: test_connect_def test_server_def server_new_def app_new_def)

lemma integration_tests:
  assumes serde: "\<And>m. parse (ser m) = Some m"
  shows "create_join_relay_flow parse ser clock fresh" "served_third_peer_gets_room_full parse ser clock fresh"
    "partner_notified_on_disconnect parse ser clock fresh" "join_unknown_room parse ser now"
proof -
  note served = served_ids served_created [OF serde] served_joined [OF serde] served_relay [OF serde]
    served_full [OF serde] served_left
  show "create_join_relay_flow parse ser clock fresh" "served_third_peer_gets_room_full parse ser clock fresh"
    "partner_notified_on_disconnect parse ser clock fresh"
    unfolding create_join_relay_flow_def served_third_peer_gets_room_full_def partner_notified_on_disconnect_def
      Let_def case_prod_unfold
    by (simp_all only: served fst_conv snd_conv)
  show "join_unknown_room parse ser now"
    by (simp add: join_unknown_room_def test_connect_def test_send_def test_recv_def server_new_def app_new_def
        connect_socket_def handler_defs join_def registry_new_def send_to_def allowed_fresh JOIN_MAX_FAILURES_def
        Let_def serde)
qed

end
