(* ===== verification/Wire_Tests.thy ===== *)
theory Wire_Tests
  imports File_Exchange Signal_Server
begin

text \<open>
  The unit tests of the messages and of the room codes. What they test is done by serde and nanoid, so
  these are arguments, and the tests hold under what the development asks of them: serde reads back
  what it wrote (\<open>reads_back\<close>), nanoid draws from the alphabet it is given. The tests of
  the concrete JSON text (\<open>decode_rejects_garbage\<close>, \<open>offer_is_type_tagged\<close>, \<open>uses_type_tag\<close>) say nothing
  about the program and are left out.
\<close>

section \<open>\<open>protocol.rs\<close>\<close>

definition control_roundtrip_start :: "(control \<Rightarrow> 't) \<Rightarrow> ('t \<Rightarrow> control option) \<Rightarrow> bool" where
  "control_roundtrip_start encode_control decode_control \<longleftrightarrow>
     (let c = Start \<lparr>fs_id = 7, fs_name = lit ''a.txt'', fs_size = f_int 1234, fs_mime = lit ''text/plain''\<rparr>;
          s = encode_control c
      in decode_control s = Some c)"

definition control_roundtrip_end :: "(control \<Rightarrow> 't) \<Rightarrow> ('t \<Rightarrow> control option) \<Rightarrow> bool" where
  "control_roundtrip_end encode_control decode_control \<longleftrightarrow>
     (let c = End \<lparr>fe_id = 7\<rparr>; s = encode_control c in decode_control s = Some c)"

definition control_roundtrip_offer :: "(control \<Rightarrow> 't) \<Rightarrow> ('t \<Rightarrow> control option) \<Rightarrow> bool" where
  "control_roundtrip_offer encode_control decode_control \<longleftrightarrow>
     (let c = Offer \<lparr>fs_id = 3, fs_name = lit ''b.bin'', fs_size = f_int 99,
                     fs_mime = lit ''application/octet-stream''\<rparr>;
          s = encode_control c
      in decode_control s = Some c)"

definition control_roundtrip_accept_reject :: "(control \<Rightarrow> 't) \<Rightarrow> ('t \<Rightarrow> control option) \<Rightarrow> bool" where
  "control_roundtrip_accept_reject encode_control decode_control \<longleftrightarrow>
     (let a = Accept 5; r = Reject 6
      in decode_control (encode_control a) = Some a \<and> decode_control (encode_control r) = Some r)"

definition control_roundtrip_cancel :: "(control \<Rightarrow> 't) \<Rightarrow> ('t \<Rightarrow> control option) \<Rightarrow> bool" where
  "control_roundtrip_cancel encode_control decode_control \<longleftrightarrow>
     (let c = Cancel 8 in decode_control (encode_control c) = Some c)"

definition control_roundtrip_abort :: "(control \<Rightarrow> 't) \<Rightarrow> ('t \<Rightarrow> control option) \<Rightarrow> bool" where
  "control_roundtrip_abort encode_control decode_control \<longleftrightarrow>
     (let c = Abort 8 in decode_control (encode_control c) = Some c)"

definition cancel_and_abort_are_distinct_on_the_wire :: "(control \<Rightarrow> 't) \<Rightarrow> bool" where
  "cancel_and_abort_are_distinct_on_the_wire encode_control \<longleftrightarrow> encode_control (Cancel 8) \<noteq> encode_control (Abort 8)"

lemma control_tests:
  assumes "reads_back enc dec"
  shows "control_roundtrip_start enc dec" "control_roundtrip_end enc dec" "control_roundtrip_offer enc dec"
    "control_roundtrip_accept_reject enc dec" "control_roundtrip_cancel enc dec" "control_roundtrip_abort enc dec"
    "cancel_and_abort_are_distinct_on_the_wire enc"
proof -
  have dec: "frame_sendable c \<Longrightarrow> dec (enc c) = Some c" for c using assms by (simp add: reads_back_def)
  show "control_roundtrip_start enc dec" "control_roundtrip_end enc dec" "control_roundtrip_offer enc dec"
    "control_roundtrip_accept_reject enc dec" "control_roundtrip_cancel enc dec" "control_roundtrip_abort enc dec"
    by (simp_all add: control_roundtrip_start_def control_roundtrip_end_def control_roundtrip_offer_def
        control_roundtrip_accept_reject_def control_roundtrip_cancel_def control_roundtrip_abort_def dec)
  show "cancel_and_abort_are_distinct_on_the_wire enc"
    using dec [of "Cancel 8"] dec [of "Abort 8"] by (auto simp: cancel_and_abort_are_distinct_on_the_wire_def)
qed

section \<open>\<open>shared/src/lib.rs\<close>\<close>

definition roundtrip :: "(signal_msg \<Rightarrow> 't) \<Rightarrow> ('t \<Rightarrow> signal_msg option) \<Rightarrow> signal_msg \<Rightarrow> bool" where
  "roundtrip ser parse m \<longleftrightarrow> (let json = ser m in parse json = Some m)"

definition roundtrips_all_variants :: "(signal_msg \<Rightarrow> 't) \<Rightarrow> ('t \<Rightarrow> signal_msg option) \<Rightarrow> bool" where
  "roundtrips_all_variants ser parse \<longleftrightarrow>
     list_all (roundtrip ser parse)
       [Create, Reclaim (lit ''abc''), Created (lit ''abc''), Join (lit ''abc''), PeerJoined, PeerLeft, RoomFull,
        RoomNotFound, Sdp (lit ''v=0'') (lit ''offer''), Ice (lit ''{}'')]"

lemma roundtrip_tests:
  assumes "\<And>m. parse (ser m) = Some m"
  shows "roundtrips_all_variants ser parse"
  by (simp add: roundtrips_all_variants_def roundtrip_def assms)

section \<open>The codes of \<open>ws.rs\<close>\<close>

text \<open>\<open>draws\<close> are the random states of the hundred calls.\<close>

definition room_id_is_six_chars_from_alphabet :: "('rnd \<Rightarrow> rstr \<Rightarrow> nat \<Rightarrow> rstr) \<Rightarrow> 'rnd list \<Rightarrow> bool" where
  "room_id_is_six_chars_from_alphabet nanoid draws \<longleftrightarrow>
     list_all (\<lambda>rnd. let i = gen_room_id nanoid rnd
                      in length i = 6 \<and> list_all (\<lambda>c. c \<in> set ROOM_ALPHABET) i) draws"

lemma room_id_tests:
  assumes "\<And>r a n. a \<noteq> [] \<Longrightarrow> set (nanoid r a n) \<subseteq> set a \<and> length (nanoid r a n) = n"
  shows "room_id_is_six_chars_from_alphabet nanoid draws"
proof -
  have "ROOM_ALPHABET \<noteq> []" by (simp add: ROOM_ALPHABET_def)
  from assms [OF this] show ?thesis
    by (auto simp: room_id_is_six_chars_from_alphabet_def gen_room_id_def list_all_iff)
qed

end
