(* ===== verification/Spec2Isabelle.thy ===== *)
theory Spec2Isabelle
  imports Attempt_Bound Client_Properties Handshake Page_View File_Exchange Negotiation Done_Rows Finish_Stream Invitation
    Server_Tests Client_Tests Wire_Tests
begin

text \<open>
  \<^bold>\<open>file-send, verified.\<close>

  file-send moves files directly between two browsers. A small server brings the two together: it
  hands out room codes, lets a second peer into a room and relays the messages of the WebRTC
  handshake (\<open>crates/server\<close>, with the wire type in \<open>crates/shared\<close>). The page (\<open>crates/client\<close>, compiled
  to wasm32) keeps a WebSocket to that server, negotiates a peer connection, and streams the files
  over one data channel each, under the orders of a control channel.

  \<^bold>\<open>Conventions.\<close> A Rust function is a function of the same name where the name is free; \<open>&mut self\<close>
  is a state that is passed in and returned; an enum is a datatype, a struct a record; \<open>u64\<close>, \<open>u32\<close>
  and \<open>usize\<close> (32 bits on wasm32) are machine words and wrap; \<open>f64\<close> is IEEE binary64 (Binary64);
  a \<open>String\<close> is its list of code points, a \<open>HashMap\<close> a partial map. A component that reacts to events
  is a step function, its runs are \<open>run step s events\<close> (Rust_Base), and the locale
  \<open>invariant_machine\<close> lifts what every step keeps to every run; \<open>machine_component\<close> carries what is
  known of a component over to a machine that drives it.

  \<^bold>\<open>The server.\<close>
  \<^item> Signal_Msg: \<open>SignalMsg\<close> of \<open>shared/src/lib.rs\<close>.
  \<^item> Room_Registry: \<open>RoomRegistry\<close> of \<open>rooms.rs\<close>, every method. The locale \<open>room_store\<close> says what
    the server relies on; the registry implements it and refines the map from a room to its members.
  \<^item> Join_Limiter: \<open>JoinLimiter\<close> of \<open>limiter.rs\<close>. Its decision is compared with a reference that forgets
    nothing; the locale \<open>failure_limiter\<close> is what the server needs of it.
  \<^item> Signal_Server: \<open>AppState\<close>, \<open>handle_message\<close> and \<open>handle_socket\<close> of \<open>ws.rs\<close>, a handler being one step.
    Server_Properties: who is told what, what a disconnection leaves, the bound on guessing codes.
  \<^item> Server_Interleaving: the same code cut at its locks (\<open>lock\<close>, \<open>net_step\<close>). A handler left alone is the
    atomic one, the atomic server is one of the schedules; some promises survive all schedules,
    three do not. Attempt_Bound: how far overlapping handlers can overdraw the budget of failed attempts.

  \<^bold>\<open>The engine of a transfer.\<close>
  \<^item> File_Protocol: the frames and \<open>split_ranges\<close> of \<open>protocol.rs\<close>.
  \<^item> Transfer_State: the bookkeeping of \<open>transfer_state.rs\<close>, sending and receiving side.
  \<^item> Send_Scheduler: that bookkeeping as a machine, with at most four files under way.
  \<^item> Transfer_Channel: the routers and the sending task of \<open>transfer.rs\<close>; one poll of the task is one
    function (\<open>poll_sending\<close>, \<open>poll_send_file\<close>).
  \<^item> Sending_Stream: what a task puts on its channel, and that it ends. Receiving: what a page makes of
    all that arrives. Transfer_Engine: both, as an implementation of Send_Scheduler.

  \<^bold>\<open>The page.\<close>
  \<^item> Signaling_Client: the socket that reconnects itself, \<open>signaling.rs\<close>.
  \<^item> Reconnect: the reducer \<open>step\<close> of \<open>reconnect.rs\<close>.
  \<^item> File_Kind, Transfer_Rows: \<open>filetype.rs\<close> and the transitions of the list of rows, \<open>rows.rs\<close>, as an
    implementation of a finite map.
  \<^item> Room_Link, Text_Format, Qr_Svg, Transfer_View: the strings of \<open>app.rs\<close>, the texts and the rows with
    their buttons of \<open>ui.rs\<close>, the picture of \<open>qr.rs\<close>.
  \<^item> Client_App: the shared state of \<open>App\<close> in \<open>app.rs\<close> and each of its handlers, driving all of the above.
    Client_Properties: which files reach which transfer, and that each transfer runs the engine under
    its assumptions. Client_Connection: losing and regaining connections and rooms.
  \<^item> Page_View: the whole view of \<open>App\<close> as data, the drop zone and the box for a code.
  \<^item> Peer_Connection: \<open>webrtc.rs\<close>. An \<open>async fn\<close> is the tree of its \<open>await\<close>s; the blocks that \<open>execute\<close> spawns
    are such trees, and the browser answers their calls.
  \<^item> Browser_Tab: the tab around the page, with the URL hash, the session storage and reloads; the clipboard
    of \<open>ui.rs\<close>; the labels of the data channels. The hash can be edited behind the page's back, and a storage
    can be missing or refuse what is written.

  \<^bold>\<open>The parts together.\<close>
  \<^item> Negotiation: the page with the blocks it spawns, each on its own. What Client_App takes as an event, a
    description that was made, is what a block ends with.
  \<^item> File_Exchange: two engines joined by one link, each data channel a queue that is delivered in order;
    both users, both browsers and the order of deliveries are free.
  \<^item> Page_Exchange: two whole pages joined by a connection. Every step of a page is answered by events of
    the link of File_Exchange (\<open>carried\<close>), so that what is known of a link holds for what two users click,
    whatever the signaling does to the pages meanwhile. Done_Rows: what a row that says Done promises.
    Finish_Stream: from every state a running stream can be brought to its end.
  \<^item> Invitation: the copy buttons of one page, the clipboard, the box for a code of another and its reload.
  \<^item> World: any number of pages and the server. A page has sockets, a socket that opens is a connection of
    the server, messages are in flight in both directions, and either end notices a loss at its own time.
    It discharges the assumption of Server_Properties that connections ask for one room only.
  \<^item> Handshake: two runs of that world, whatever the parameters: two pages meet, and an answer arrives for
    an offer that was given up.
  \<^item> Server_Tests, Client_Tests, Wire_Tests: the unit tests of the three crates and the integration tests of
    the server, assertion by assertion. The model passes them all, except for the two that the
    repository itself ignores as known gaps, which fail.

  \<^bold>\<open>What the theorems show.\<close> A file arrives with its bytes, or not at all (Receiving, Sending_Stream), and
  between two pages everything that is saved is a complete copy of a file that the other user added and
  this one accepted by a click, what was sent and delivered is saved, a row that says Done is a file that was
  saved or that the browser gave no object URL for, and a running stream can always be finished (File_Exchange, Page_Exchange, Done_Rows, Finish_Stream);
  at most four stream at a time, each accepted one in turn (Transfer_Engine, Send_Scheduler); every file that the user adds is offered once, in order (Client_Properties); each SDP that
  is sent was made and set by the browser for one block (Negotiation); signals go to the partner only
  and rooms cannot be enumerated or taken over (Server_Properties) as far as handlers do not
  overlap; when they do, takeover is possible (Server_Interleaving), and the number of attempts at a code
  grows with the number that are under way together (Attempt_Bound); the pages keep the promises on which this rests (World); lost sockets,
  connections and rooms are recovered (Signaling_Client, Client_Connection, Browser_Tab), and a code or a link
  that is copied and pasted leads to its room (Invitation); and what is shown is what is the case (Transfer_Rows,
  Transfer_View, Page_View, Text_Format). Where the code does not do what its
  comments promise, a theorem shows that: a second room leaves a ghost, overlapping reclaims both succeed, a
  clean-up can be overtaken by a handler, an answer is applied to a connection that never made the offer, a
  cancel before the first chunk is lost, a failed send is reported as done.

  \<^bold>\<open>Bounds.\<close> Recursion is structural or has a measure: slabs and chunks by what is left of the file,
  \<open>fmt_size\<close> by the units left, a handler by the locks left (five at most). The one loop of the source that may run
  forever, \<open>split_ranges\<close> for sizes whose last range wraps, is a partial function, and it is shown for
  which sizes it ends. A sending task of \<open>n\<close> bytes needs at most \<open>2 n + 3\<close> polls.

  \<^bold>\<open>Parameters and assumptions.\<close> The text of a message is made and read by serde; the functions are
  arguments, and where a theorem needs it, that reading undoes writing is a hypothesis. \<open>nanoid\<close>, the QR
  encoder, the clock and the random codes are arguments. A data channel and a WebSocket deliver in
  order; when they open, fail or close is up to the environment, as is the size of a buffer and the
  failure of a read. Hypotheses on the clock (it does not run backwards) and on clients (a connection
  asks for one room) are stated where they are used. Only the control channel of the current connection
  is assumed to open (\<open>client_ok\<close>): \<open>build_pc\<close> drops the connection it replaces without closing it, and that the
  browser does not open a channel of it afterwards is an assumption on the browser.

  \<^bold>\<open>Not modelled.\<close> \<open>log.rs\<close>, the \<open>lib.rs\<close> of the server and both \<open>main.rs\<close> hand values to the console, to stderr or to axum and have no
  state, and neither have the log lines of \<open>ws.rs\<close> and of \<open>webrtc.rs\<close>. Of \<open>ui.rs\<close> and \<open>app.rs\<close> the markup
  around the data and the reading of the browser's file list are left out; the reconciliation of \<open><For>\<close> is
  Leptos's. The promises of \<open>transfer.rs\<close> that wait for a channel to open or a buffer to drain appear as what
  the browser decides in a poll. Which transfer of one page is joined to which of the other is an argument of
  Page_Exchange: World carries the signals, and that ICE makes a connection of them is up to the browsers.
  Memory, panics of a poisoned lock and the order in which a runtime picks threads are not modelled; the
  interleavings are all allowed.
\<close>

end
